(* ===== verification/Prelude.thy ===== *)
theory Prelude
  imports Main "HOL-Library.Word"
begin

text \<open>
  Shared vocabulary of the development: the machine integer types of the kernel, the
  errors a kernel function can end in, sequencing of fallible steps, byte-addressed
  memory with little-endian 32-bit access, and the generic facts on words and lists the
  component theories use.

  \<^item> \<open>u8\<close>, \<open>u16\<close>, \<open>u32\<close> are the C types of \<^verbatim>\<open>inc/types.h\<close>; \<open>+\<close>, \<open>-\<close> and \<open>*\<close> wrap as
    they do on the machine.
  \<^item> A kernel function that can panic returns \<open>kerr + 'a\<close>: \<open>Inl\<close> is a path that never
    returns to its caller.
  \<^item> \<open>memory\<close> maps every 32-bit address to a byte.
\<close>

unbundle bit_operations_syntax

type_synonym u8 = "8 word"
type_synonym u16 = "16 word"
type_synonym u32 = "32 word"
type_synonym u64 = "64 word"
type_synonym memory = "u32 \<Rightarrow> u8"

text \<open>A character literal as a byte, and as a C \<^verbatim>\<open>int\<close>.\<close>

abbreviation chr :: "char \<Rightarrow> u8" where "chr c \<equiv> of_char c"
abbreviation chi :: "char \<Rightarrow> int" where "chi c \<equiv> of_char c"

lemma uint_chr: "uint (chr c) = chi c"
  by (cases c) (simp add: of_char_def)

section \<open>Errors and sequencing\<close>

text \<open>
  \<open>Panic\<close> carries the message of the \<^verbatim>\<open>panic\<close> or \<^verbatim>\<open>assert\<close> that stops the kernel, \<open>Fault\<close>
  the address of a dereference the kernel address space does not back (a null pointer
  in particular), \<open>Stray\<close> an access through an index outside its array, \<open>Endless\<close> a loop
  that runs forever.
\<close>

datatype kerr = Panic string | Fault u32 | Stray nat | Endless

definition bindE :: "('e + 'a) \<Rightarrow> ('a \<Rightarrow> 'e + 'b) \<Rightarrow> 'e + 'b" where
  "bindE m f = (case m of Inl e \<Rightarrow> Inl e | Inr x \<Rightarrow> f x)"

lemma bindE_simps [simp]: "bindE (Inl e) f = Inl e" "bindE (Inr x) f = f x"
  by (simp_all add: bindE_def)

lemma bindE_eq_Inr: "bindE m f = Inr y \<longleftrightarrow> (\<exists>x. m = Inr x \<and> f x = Inr y)"
  by (cases m) simp_all

lemma bindE_eq_Inl:
  "bindE m f = Inl e \<longleftrightarrow> m = Inl e \<or> (\<exists>x. m = Inr x \<and> f x = Inl e)"
  by (cases m) simp_all

lemma bindE_assoc: "bindE (bindE m f) g = bindE m (\<lambda>x. bindE (f x) g)"
  by (cases m) simp_all

lemma bindE_cong [fundef_cong]:
  "m = m' \<Longrightarrow> (\<And>x. m' = Inr x \<Longrightarrow> f x = f' x) \<Longrightarrow> bindE m f = bindE m' f'"
  by (cases m') simp_all

definition assertE :: "string \<Rightarrow> bool \<Rightarrow> kerr + unit" where
  "assertE msg b = (if b then Inr () else Inl (Panic msg))"

lemma assertE_simps [simp]: "assertE msg True = Inr ()" "assertE msg False = Inl (Panic msg)"
  by (simp_all add: assertE_def)

lemma assertE_eq_Inr [simp]: "assertE msg b = Inr u \<longleftrightarrow> b"
  by (simp add: assertE_def)

text \<open>Folding a fallible step over a list, stopping at the first error.\<close>

fun foldE :: "('a \<Rightarrow> 's \<Rightarrow> 'e + 's) \<Rightarrow> 'a list \<Rightarrow> 's \<Rightarrow> 'e + 's" where
  "foldE f [] s = Inr s"
| "foldE f (x # xs) s = bindE (f x s) (foldE f xs)"

lemma foldE_append: "foldE f (xs @ ys) s = bindE (foldE f xs s) (foldE f ys)"
  by (induction xs arbitrary: s) (simp_all add: bindE_def split: sum.split)

lemma foldE_invariant:
  assumes "P s" and "\<And>x s s'. x \<in> set xs \<Longrightarrow> P s \<Longrightarrow> f x s = Inr s' \<Longrightarrow> P s'"
    and "foldE f xs s = Inr s'"
  shows "P s'"
  using assms
proof (induction xs arbitrary: s)
  case Nil
  then show ?case by simp
next
  case (Cons x xs)
  from Cons.prems(3) obtain t where t: "f x s = Inr t" "foldE f xs t = Inr s'"
    by (auto simp: bindE_eq_Inr)
  have "P t" using Cons.prems(1,2) t(1) by auto
  then show ?case using Cons.IH Cons.prems(2) t(2) by (metis list.set_intros(2))
qed

section \<open>Words\<close>

lemma unat_less_add:
  fixes a b :: "'a::len word"
  shows "unat a + unat b < 2 ^ LENGTH('a) \<Longrightarrow> unat (a + b) = unat a + unat b"
  by (simp add: unat_word_ariths)

lemma unat_sub_le:
  fixes a b :: "'a::len word"
  shows "b \<le> a \<Longrightarrow> unat (a - b) = unat a - unat b"
  by (rule unat_sub)

lemma unat_mask_eq: "unat (w AND mask n) = unat w mod 2 ^ n"
  by (simp only: take_bit_eq_mask [symmetric] unsigned_take_bit_eq) (simp add: take_bit_eq_mod)

lemma unat_drop_bit_div: "unat (drop_bit n w) = unat w div 2 ^ n"
  using unat_drop_bit_eq [of n w] by (simp only: drop_bit_eq_div)

text \<open>A word below \<open>2 ^ n\<close> has no bit at or above \<open>n\<close>.\<close>

lemma bit_less_exp:
  fixes w :: "'a::len word"
  assumes "unat w < 2 ^ n" and "bit w k"
  shows "k < n"
proof -
  have "bit (unat w) k" using assms(2) by (simp add: bit_simps)
  moreover have "take_bit n (unat w) = unat w"
    using assms(1) by (simp add: take_bit_nat_eq_self)
  ultimately show ?thesis by (metis bit_take_bit_iff)
qed

lemma word_mask_numerals:
  "(0xFF :: u32) = mask 8" "(0x3FF :: u32) = mask 10" "(0xFFF :: u32) = mask 12"
  "(0xFFFF :: u32) = mask 16"
  by (simp_all add: mask_eq_exp_minus_1)

lemma unat_of_nat_small:
  "n < 2 ^ LENGTH('a) \<Longrightarrow> unat (of_nat n :: 'a::len word) = n"
  by (simp add: unat_of_nat)

lemma u32_bound: "unat (w :: u32) < 4294967296"
  using unsigned_less [of w] by simp

lemma u16_bound: "unat (w :: u16) < 65536"
  using unsigned_less [of w] by simp

lemma u8_bound: "unat (w :: u8) < 256"
  using unsigned_less [of w] by simp

lemma wrap_signed:
  assumes "k < 2 ^ 32"
  shows "(int k + 2 ^ 31) mod 2 ^ 32 - 2 ^ 31 = (if k < 2 ^ 31 then int k else int k - 2 ^ 32)"
proof (cases "k < 2 ^ 31")
  case True
  then have "(int k + 2 ^ 31) mod 2 ^ 32 = int k + 2 ^ 31" by (intro mod_pos_pos_trivial) simp_all
  then show ?thesis using True by simp
next
  case False
  have "(int k + 2 ^ 31) mod 2 ^ 32 = (int k + 2 ^ 31 - 2 ^ 32) mod 2 ^ 32"
    by (rule minus_mod_self2 [symmetric])
  also have "\<dots> = int k + 2 ^ 31 - 2 ^ 32"
    using False assms by (intro mod_pos_pos_trivial) simp_all
  finally show ?thesis using False by simp
qed

lemma sint_u32: "sint (w :: u32) = (if unat w < 2 ^ 31 then int (unat w) else int (unat w) - 2 ^ 32)"
proof -
  have "sint w = (int (unat w) + 2 ^ 31) mod 2 ^ 32 - 2 ^ 31"
    by (simp add: sint_uint signed_take_bit_eq_take_bit_shift take_bit_eq_mod)
  also have "\<dots> = (if unat w < 2 ^ 31 then int (unat w) else int (unat w) - 2 ^ 32)"
    by (rule wrap_signed) (use u32_bound [of w] in simp)
  finally show ?thesis .
qed

lemma nat_negative: "k < 4294967296 \<Longrightarrow> nat (int k - 2 ^ 32) = 0"
  by simp

lemma unat_of_int64: "0 \<le> k \<Longrightarrow> k < 2 ^ 64 \<Longrightarrow> unat (of_int k :: u64) = nat k"
  by (simp add: unat_eq_nat_uint uint_word_of_int)

lemma sint_u32_bounds: "- (2 ^ 31) \<le> sint (a :: u32)" "sint (a :: u32) < 2 ^ 31"
  using sint_range_size [of a] by (simp_all add: word_size)

lemma scast_u64: "(scast (a :: u32) :: u64) = of_int (sint a)"
  by (rule scast_eq)

lemma sint_scast_u64: "sint (scast (a :: u32) :: u64) = sint a"
  unfolding scast_u64 sint_sbintrunc'
  using sint_u32_bounds [of a] by (intro signed_take_bit_int_eq_self) simp_all

lemma unat_scast_neg: "sint a < 0 \<Longrightarrow> unat (- (scast (a :: u32) :: u64)) = nat (- sint a)"
  unfolding scast_u64 of_int_minus [symmetric]
  using sint_u32_bounds [of a] by (subst unat_of_int64) auto

lemma unat_scast_nonneg: "\<not> sint a < 0 \<Longrightarrow> unat (scast (a :: u32) :: u64) = nat (sint a)"
  unfolding scast_u64 using sint_u32_bounds [of a] by (subst unat_of_int64) auto

lemma uint_pos: "(w :: 'a::len word) \<noteq> 0 \<Longrightarrow> 0 < uint w"
  by (metis linorder_not_less order_le_less uint_0_iff uint_ge_0)

section \<open>Memory\<close>

text \<open>Little-endian 32-bit load and store, as the i386 performs them.\<close>

definition load32 :: "memory \<Rightarrow> u32 \<Rightarrow> u32" where
  "load32 m a = ucast (m a) OR push_bit 8 (ucast (m (a + 1)))
     OR push_bit 16 (ucast (m (a + 2))) OR push_bit 24 (ucast (m (a + 3)))"

definition store32 :: "memory \<Rightarrow> u32 \<Rightarrow> u32 \<Rightarrow> memory" where
  "store32 m a v = m(a := ucast v, a + 1 := ucast (drop_bit 8 v),
     a + 2 := ucast (drop_bit 16 v), a + 3 := ucast (drop_bit 24 v))"

lemma bytes_of_word:
  "ucast (ucast v :: u8) OR push_bit 8 (ucast (ucast (drop_bit 8 v) :: u8))
     OR push_bit 16 (ucast (ucast (drop_bit 16 v) :: u8))
     OR push_bit 24 (ucast (ucast (drop_bit 24 v) :: u8)) = (v :: u32)"
proof (rule bit_word_eqI)
  fix n assume "n < LENGTH(32)"
  then consider "n < 8" | "8 \<le> n" "n < 16" | "16 \<le> n" "n < 24" | "24 \<le> n" "n < 32"
    by fastforce
  then show "bit (ucast (ucast v :: u8) OR push_bit 8 (ucast (ucast (drop_bit 8 v) :: u8))
     OR push_bit 16 (ucast (ucast (drop_bit 16 v) :: u8))
     OR push_bit 24 (ucast (ucast (drop_bit 24 v) :: u8)) :: u32) n = bit v n"
    by cases (auto simp: bit_simps)
qed

lemma load32_store32_same [simp]: "load32 (store32 m a v) a = v"
proof -
  have "a + 1 \<noteq> a" "a + 2 \<noteq> a" "a + 3 \<noteq> a" "a + 2 \<noteq> a + 1" "a + 3 \<noteq> a + 1" "a + 3 \<noteq> a + 2"
    by simp_all
  then have "load32 (store32 m a v) a = ucast (ucast v :: u8)
      OR push_bit 8 (ucast (ucast (drop_bit 8 v) :: u8))
      OR push_bit 16 (ucast (ucast (drop_bit 16 v) :: u8))
      OR push_bit 24 (ucast (ucast (drop_bit 24 v) :: u8))"
    by (simp add: load32_def store32_def)
  also have "\<dots> = v"
    by (rule bytes_of_word)
  finally show ?thesis .
qed

text \<open>A range of \<open>n\<close> bytes starting at \<open>a\<close>, with the address arithmetic wrapping.\<close>

definition in_range :: "u32 \<Rightarrow> nat \<Rightarrow> u32 \<Rightarrow> bool" where
  "in_range a n x \<longleftrightarrow> unat (x - a) < n"

lemma in_range_self: "0 < n \<Longrightarrow> in_range a n a"
  by (simp add: in_range_def)

lemma in_range_0 [simp]: "\<not> in_range a 0 x"
  by (simp add: in_range_def)

lemma store32_outside: "\<not> in_range a 4 x \<Longrightarrow> store32 m a v x = m x"
proof -
  assume *: "\<not> in_range a 4 x"
  have "x \<noteq> a" "x \<noteq> a + 1" "x \<noteq> a + 2" "x \<noteq> a + 3"
    using * by (auto simp: in_range_def)
  then show ?thesis by (simp add: store32_def)
qed

lemma load32_cong:
  "m a = m' a \<Longrightarrow> m (a + 1) = m' (a + 1) \<Longrightarrow> m (a + 2) = m' (a + 2) \<Longrightarrow> m (a + 3) = m' (a + 3)
     \<Longrightarrow> load32 m a = load32 m' a"
  by (simp add: load32_def)

end
