(* ===== verification/Mmu.thy ===== *)
theory Mmu
  imports Prelude
begin

text \<open>
  The address arithmetic and the hardware data formats of \<^verbatim>\<open>inc/types.h\<close>, \<^verbatim>\<open>inc/mmu.h\<close> and
  \<^verbatim>\<open>inc/memlayout.h\<close>: rounding, the split of a linear address into page directory index,
  page table index and offset, page table entry flags, the virtual memory map, and
  segment and gate descriptors with the hardware's reading of them.
\<close>

named_theorems layout "the constants of inc/mmu.h and inc/memlayout.h"

section \<open>Rounding\<close>

definition ROUNDDOWN :: "u32 \<Rightarrow> u32 \<Rightarrow> u32" where
  "ROUNDDOWN a n = a - a mod n"

definition ROUNDUP :: "u32 \<Rightarrow> u32 \<Rightarrow> u32" where
  "ROUNDUP a n = ROUNDDOWN (a + n - 1) n"

lemma unat_ROUNDDOWN: "unat (ROUNDDOWN a n) = unat a div unat n * unat n"
proof -
  have "unat (a - a mod n) = unat a - unat a mod unat n"
    by (subst unat_sub) (simp_all add: word_le_nat_alt unat_mod_distrib)
  then show ?thesis
    by (simp add: ROUNDDOWN_def minus_mod_eq_div_mult)
qed

lemma unat_ROUNDUP:
  assumes "0 < n" and "unat a + unat n \<le> 2 ^ 32"
  shows "unat (ROUNDUP a n) = (unat a + unat n - 1) div unat n * unat n"
proof -
  have "0 < unat n" using assms(1) by (simp add: word_less_nat_alt)
  moreover have "unat (n - 1) = unat n - 1"
    using assms(1) by (simp add: unat_minus_one word_gt_0)
  ultimately have "unat (a + (n - 1)) = unat a + (unat n - 1)"
    using assms(2) by (subst unat_less_add) auto
  then have "unat (a + n - 1) = unat a + unat n - 1"
    using \<open>0 < unat n\<close> by (simp add: add_diff_eq)
  then show ?thesis by (simp add: ROUNDUP_def unat_ROUNDDOWN)
qed

text \<open>Rounding up yields the least multiple of \<open>n\<close> that is not below \<open>a\<close>.\<close>

lemma ROUNDUP_least:
  assumes "0 < n" and "unat a + unat n \<le> 2 ^ 32"
  shows "unat n dvd unat (ROUNDUP a n)" "unat a \<le> unat (ROUNDUP a n)"
    "unat (ROUNDUP a n) < unat a + unat n"
proof -
  have n: "0 < unat n" using assms(1) by (simp add: word_less_nat_alt)
  note eq = unat_ROUNDUP [OF assms]
  show "unat n dvd unat (ROUNDUP a n)" by (simp add: eq)
  have "(unat a + unat n - 1) div unat n * unat n + (unat a + unat n - 1) mod unat n
      = unat a + unat n - 1" by simp
  moreover have "(unat a + unat n - 1) mod unat n < unat n" using n by simp
  ultimately show "unat a \<le> unat (ROUNDUP a n)" "unat (ROUNDUP a n) < unat a + unat n"
    using n unfolding eq by linarith+
qed

section \<open>Linear addresses\<close>

definition PGNUM :: "u32 \<Rightarrow> u32" where "PGNUM la = drop_bit 12 la"
definition PDX :: "u32 \<Rightarrow> u32" where "PDX la = drop_bit 22 la AND 0x3FF"
definition PTX :: "u32 \<Rightarrow> u32" where "PTX la = drop_bit 12 la AND 0x3FF"
definition PGOFF :: "u32 \<Rightarrow> u32" where "PGOFF la = la AND 0xFFF"

definition PGADDR :: "u32 \<Rightarrow> u32 \<Rightarrow> u32 \<Rightarrow> u32" where
  "PGADDR d t off = push_bit 22 d OR push_bit 12 t OR off"

definition NPDENTRIES :: nat where "NPDENTRIES = 1024"
definition NPTENTRIES :: nat where "NPTENTRIES = 1024"
definition PGSIZE :: u32 where "PGSIZE = 4096"
definition PTSIZE :: u32 where "PTSIZE = PGSIZE * 1024"

declare NPDENTRIES_def [layout] NPTENTRIES_def [layout] PGSIZE_def [layout] PTSIZE_def [layout]

lemma unat_PGNUM: "unat (PGNUM la) = unat la div 4096"
  by (simp add: PGNUM_def unat_drop_bit_div)

lemma unat_PTX: "unat (PTX la) = unat la div 4096 mod 1024"
  by (simp add: PTX_def word_mask_numerals unat_mask_eq unat_drop_bit_div)

lemma unat_PDX: "unat (PDX la) = unat la div 4194304"
proof -
  have "unat la div 4194304 < 1024" using u32_bound [of la] by simp
  then show ?thesis by (simp add: PDX_def word_mask_numerals unat_mask_eq unat_drop_bit_div)
qed

lemma unat_PGOFF: "unat (PGOFF la) = unat la mod 4096"
  by (simp add: PGOFF_def word_mask_numerals unat_mask_eq)

lemma PDX_bound: "unat (PDX la) < 1024"
  using u32_bound [of la] by (simp add: unat_PDX)

lemma PTX_bound: "unat (PTX la) < 1024"
  by (simp add: unat_PTX)

lemma PGADDR_split: "PGADDR (PDX la) (PTX la) (PGOFF la) = la"
proof (rule bit_word_eqI)
  fix n assume "n < LENGTH(32)"
  then consider "n < 12" | "12 \<le> n" "n < 22" | "22 \<le> n" "n < 32" by fastforce
  then show "bit (PGADDR (PDX la) (PTX la) (PGOFF la)) n = bit la n"
    by cases (auto simp: PGADDR_def PDX_def PTX_def PGOFF_def word_mask_numerals bit_simps)
qed

lemma PDX_PGADDR:
  assumes "d < 1024" and "t < 1024" and "off < 4096"
  shows "PDX (PGADDR d t off) = d" "PTX (PGADDR d t off) = t" "PGOFF (PGADDR d t off) = off"
proof -
  have bits: "bit d n \<Longrightarrow> n < 10" "bit t n \<Longrightarrow> n < 10" "bit off n \<Longrightarrow> n < 12" for n
    using assms bit_less_exp [of d 10 n] bit_less_exp [of t 10 n] bit_less_exp [of off 12 n]
    by (simp_all add: word_less_nat_alt)
  show "PDX (PGADDR d t off) = d" "PTX (PGADDR d t off) = t" "PGOFF (PGADDR d t off) = off"
    by (rule bit_word_eqI, auto simp: PGADDR_def PDX_def PTX_def PGOFF_def word_mask_numerals
          bit_simps dest: bits)+
qed

section \<open>Page table entries\<close>

definition PTE_P :: u32 where "PTE_P = 0x001"
definition PTE_W :: u32 where "PTE_W = 0x002"
definition PTE_U :: u32 where "PTE_U = 0x004"

definition PTE_ADDR :: "u32 \<Rightarrow> u32" where "PTE_ADDR pte = pte AND NOT 0xFFF"

declare PTE_P_def [layout] PTE_W_def [layout] PTE_U_def [layout]

abbreviation present :: "u32 \<Rightarrow> bool" where
  "present e \<equiv> e AND PTE_P \<noteq> 0"

abbreviation page_aligned :: "u32 \<Rightarrow> bool" where
  "page_aligned a \<equiv> a AND 0xFFF = 0"

lemma present_iff_bit: "present e \<longleftrightarrow> bit e 0"
proof -
  have "e AND PTE_P = (if bit e 0 then 1 else 0)"
    by (simp add: PTE_P_def and_one_eq bit_0 odd_iff_mod_2_eq_one)
  then show ?thesis by simp
qed

lemma not_present_0 [simp]: "\<not> present 0"
  by simp

lemma present_or [simp]: "present (a OR PTE_P OR b)" "present (a OR b OR PTE_P)"
  unfolding present_iff_bit by (simp_all add: PTE_P_def bit_simps)

lemma page_aligned_bit: "page_aligned a \<longleftrightarrow> (\<forall>n < 12. \<not> bit a n)"
proof
  assume al: "page_aligned a"
  show "\<forall>n < 12. \<not> bit a n"
  proof (intro allI impI)
    fix n :: nat assume "n < 12"
    then have "bit (a AND 0xFFF) n = bit a n" by (simp add: word_mask_numerals bit_simps)
    then show "\<not> bit a n" using al by simp
  qed
next
  assume "\<forall>n < 12. \<not> bit a n"
  then show "page_aligned a"
    by (intro bit_word_eqI) (auto simp: word_mask_numerals bit_simps)
qed

lemma page_aligned_dvd: "page_aligned a \<longleftrightarrow> 4096 dvd unat a"
  using and_mask_dvd_nat [of 12 a] by (simp add: word_mask_numerals)

lemma PTE_ADDR_aligned [simp]: "page_aligned (PTE_ADDR e)"
  by (rule bit_word_eqI) (auto simp: PTE_ADDR_def bit_simps)

lemma PTE_ADDR_or:
  assumes "page_aligned pa" and "f < 4096"
  shows "PTE_ADDR (pa OR f) = pa"
proof -
  have f: "bit f n \<Longrightarrow> n < 12" for n
    using assms(2) bit_less_exp [of f 12 n] by (simp add: word_less_nat_alt)
  have "bit pa n \<Longrightarrow> \<not> n < 12" for n
    using assms(1) page_aligned_bit by blast
  then show ?thesis
    by (intro bit_word_eqI) (auto simp: PTE_ADDR_def word_mask_numerals bit_simps dest: f)
qed

lemma PTE_ADDR_0 [simp]: "PTE_ADDR 0 = 0"
  by (simp add: PTE_ADDR_def)

lemma flags_or_less:
  assumes "f < 4096" and "g < 4096"
  shows "f OR g < (4096 :: u32)"
proof -
  have "take_bit 12 (f OR g) = f OR g"
    using assms bit_less_exp [of f 12] bit_less_exp [of g 12]
    by (auto simp: bit_eq_iff bit_simps word_less_nat_alt)
  then have "unat (f OR g) = take_bit 12 (unat (f OR g))" by (metis unsigned_take_bit_eq)
  also have "\<dots> < 4096" using take_bit_nat_less_exp [of 12] by simp
  finally show ?thesis by (simp add: word_less_nat_alt)
qed

section \<open>The virtual memory map\<close>

definition KERNBASE :: u32 where "KERNBASE = 0xF0000000"
definition IOPHYSMEM :: u32 where "IOPHYSMEM = 0x0A0000"
definition EXTPHYSMEM :: u32 where "EXTPHYSMEM = 0x100000"
definition KSTACKTOP :: u32 where "KSTACKTOP = KERNBASE"
definition KSTKSIZE :: u32 where "KSTKSIZE = 8 * PGSIZE"
definition MMIOLIM :: u32 where "MMIOLIM = KSTACKTOP - PTSIZE"
definition MMIOBASE :: u32 where "MMIOBASE = MMIOLIM - PTSIZE"
definition ULIM :: u32 where "ULIM = MMIOBASE"
definition UVPT :: u32 where "UVPT = ULIM - PTSIZE"
definition UPAGES :: u32 where "UPAGES = UVPT - PTSIZE"
definition UENVS :: u32 where "UENVS = UPAGES - PTSIZE"
definition UTOP :: u32 where "UTOP = UENVS"
definition USTACKTOP :: u32 where "USTACKTOP = UTOP - 2 * PGSIZE"
definition USTABDATA :: u32 where "USTABDATA = PTSIZE div 2"

declare KERNBASE_def [layout] IOPHYSMEM_def [layout] EXTPHYSMEM_def [layout]
  KSTACKTOP_def [layout] KSTKSIZE_def [layout] MMIOLIM_def [layout] MMIOBASE_def [layout]
  ULIM_def [layout] UVPT_def [layout] UPAGES_def [layout] UENVS_def [layout] UTOP_def [layout]
  USTACKTOP_def [layout] USTABDATA_def [layout]

text \<open>The picture in \<^verbatim>\<open>inc/memlayout.h\<close>: the addresses it prints, in order.\<close>

lemma memlayout_addresses:
  "USTABDATA = 0x00200000" "USTACKTOP = 0xeebfe000" "UTOP = 0xeec00000" "UENVS = 0xeec00000"
  "UPAGES = 0xef000000" "UVPT = 0xef400000" "ULIM = 0xef800000" "MMIOLIM = 0xefc00000"
  by (simp_all add: layout)

section \<open>Segment and gate descriptors\<close>

record segdesc =
  sd_lim_15_0 :: u16
  sd_base_15_0 :: u16
  sd_base_23_16 :: u8
  sd_type :: "4 word"
  sd_s :: "1 word"
  sd_dpl :: "2 word"
  sd_p :: "1 word"
  sd_lim_19_16 :: "4 word"
  sd_avl :: "1 word"
  sd_rsv1 :: "1 word"
  sd_db :: "1 word"
  sd_g :: "1 word"
  sd_base_31_24 :: u8

definition SEG_NULL :: segdesc where
  "SEG_NULL = \<lparr>sd_lim_15_0 = 0, sd_base_15_0 = 0, sd_base_23_16 = 0, sd_type = 0, sd_s = 0,
     sd_dpl = 0, sd_p = 0, sd_lim_19_16 = 0, sd_avl = 0, sd_rsv1 = 0, sd_db = 0, sd_g = 0,
     sd_base_31_24 = 0\<rparr>"

definition SEG :: "4 word \<Rightarrow> u32 \<Rightarrow> u32 \<Rightarrow> 2 word \<Rightarrow> segdesc" where
  "SEG type base lim dpl = \<lparr>sd_lim_15_0 = ucast (drop_bit 12 lim AND 0xffff),
     sd_base_15_0 = ucast (base AND 0xffff), sd_base_23_16 = ucast (drop_bit 16 base AND 0xff),
     sd_type = type, sd_s = 1, sd_dpl = dpl, sd_p = 1, sd_lim_19_16 = ucast (drop_bit 28 lim),
     sd_avl = 0, sd_rsv1 = 0, sd_db = 1, sd_g = 1, sd_base_31_24 = ucast (drop_bit 24 base)\<rparr>"

definition SEG16 :: "4 word \<Rightarrow> u32 \<Rightarrow> u32 \<Rightarrow> 2 word \<Rightarrow> segdesc" where
  "SEG16 type base lim dpl = \<lparr>sd_lim_15_0 = ucast (lim AND 0xffff),
     sd_base_15_0 = ucast (base AND 0xffff), sd_base_23_16 = ucast (drop_bit 16 base AND 0xff),
     sd_type = type, sd_s = 1, sd_dpl = dpl, sd_p = 1, sd_lim_19_16 = ucast (drop_bit 16 lim),
     sd_avl = 0, sd_rsv1 = 0, sd_db = 1, sd_g = 0, sd_base_31_24 = ucast (drop_bit 24 base)\<rparr>"

text \<open>The processor's reading of a descriptor: base, and limit scaled by the granularity bit.\<close>

definition seg_base :: "segdesc \<Rightarrow> u32" where
  "seg_base d = ucast (sd_base_15_0 d) OR push_bit 16 (ucast (sd_base_23_16 d))
     OR push_bit 24 (ucast (sd_base_31_24 d))"

definition seg_limit :: "segdesc \<Rightarrow> u32" where
  "seg_limit d = (let l = ucast (sd_lim_15_0 d) OR push_bit 16 (ucast (sd_lim_19_16 d))
     in if sd_g d = 1 then push_bit 12 l OR 0xFFF else l)"

record gatedesc =
  gd_off_15_0 :: u16
  gd_sel :: u16
  gd_args :: "5 word"
  gd_rsv1 :: "3 word"
  gd_type :: "4 word"
  gd_s :: "1 word"
  gd_dpl :: "2 word"
  gd_p :: "1 word"
  gd_off_31_16 :: u16

definition STS_IG32 :: "4 word" where "STS_IG32 = 0xE"
definition STS_TG32 :: "4 word" where "STS_TG32 = 0xF"
definition STS_CG32 :: "4 word" where "STS_CG32 = 0xC"
definition STS_T32A :: "4 word" where "STS_T32A = 0x9"

definition SETGATE :: "bool \<Rightarrow> u16 \<Rightarrow> u32 \<Rightarrow> 2 word \<Rightarrow> gatedesc" where
  "SETGATE istrap sel off dpl = \<lparr>gd_off_15_0 = ucast (off AND 0xffff), gd_sel = sel,
     gd_args = 0, gd_rsv1 = 0, gd_type = (if istrap then STS_TG32 else STS_IG32), gd_s = 0,
     gd_dpl = dpl, gd_p = 1, gd_off_31_16 = ucast (drop_bit 16 off)\<rparr>"

definition SETCALLGATE :: "u16 \<Rightarrow> u32 \<Rightarrow> 2 word \<Rightarrow> gatedesc" where
  "SETCALLGATE sel off dpl = \<lparr>gd_off_15_0 = ucast (off AND 0xffff), gd_sel = sel,
     gd_args = 0, gd_rsv1 = 0, gd_type = STS_CG32, gd_s = 0,
     gd_dpl = dpl, gd_p = 1, gd_off_31_16 = ucast (drop_bit 16 off)\<rparr>"

definition gate_offset :: "gatedesc \<Rightarrow> u32" where
  "gate_offset g = ucast (gd_off_15_0 g) OR push_bit 16 (ucast (gd_off_31_16 g))"

lemma seg_base_fields:
  "(ucast (ucast (base AND 0xffff) :: u16) :: u32)
     OR push_bit 16 (ucast (ucast (drop_bit 16 base AND 0xff) :: u8))
     OR push_bit 24 (ucast (ucast (drop_bit 24 base) :: u8)) = base"
proof (rule bit_word_eqI)
  fix n assume "n < LENGTH(32)"
  then consider "n < 16" | "16 \<le> n" "n < 24" | "24 \<le> n" "n < 32" by fastforce
  then show "bit ((ucast (ucast (base AND 0xffff) :: u16) :: u32)
     OR push_bit 16 (ucast (ucast (drop_bit 16 base AND 0xff) :: u8))
     OR push_bit 24 (ucast (ucast (drop_bit 24 base) :: u8))) n = bit base n"
    by cases (auto simp: word_mask_numerals bit_simps)
qed

lemma seg_base_SEG [simp]: "seg_base (SEG t base lim dpl) = base"
  "seg_base (SEG16 t base lim dpl) = base"
  using seg_base_fields [of base] by (simp_all add: seg_base_def SEG_def SEG16_def)

lemma seg_limit_SEG [simp]: "seg_limit (SEG t base lim dpl) = lim OR 0xFFF"
proof (rule bit_word_eqI)
  fix n assume "n < LENGTH(32)"
  then consider "n < 12" | "12 \<le> n" "n < 28" | "28 \<le> n" "n < 32" by fastforce
  then show "bit (seg_limit (SEG t base lim dpl)) n = bit (lim OR 0xFFF) n"
    by cases (auto simp: seg_limit_def SEG_def Let_def word_mask_numerals bit_simps)
qed

lemma gate_offset_SETGATE [simp]: "gate_offset (SETGATE istrap sel off dpl) = off"
  "gate_offset (SETCALLGATE sel off dpl) = off"
proof -
  have "(ucast (ucast (off AND 0xffff) :: u16) :: u32)
      OR push_bit 16 (ucast (ucast (drop_bit 16 off) :: u16)) = off"
  proof (rule bit_word_eqI)
    fix n assume "n < LENGTH(32)"
    then consider "n < 16" | "16 \<le> n" "n < 32" by fastforce
    then show "bit ((ucast (ucast (off AND 0xffff) :: u16) :: u32)
      OR push_bit 16 (ucast (ucast (drop_bit 16 off) :: u16))) n = bit off n"
      by cases (auto simp: word_mask_numerals bit_simps)
  qed
  then show "gate_offset (SETGATE istrap sel off dpl) = off"
    "gate_offset (SETCALLGATE sel off dpl) = off"
    by (simp_all add: gate_offset_def SETGATE_def SETCALLGATE_def)
qed

end
