(* ===== verification/MemOps.thy ===== *)
theory MemOps
  imports Prelude
begin

text \<open>
  The memory routines of \<^verbatim>\<open>lib/string.c\<close> (the \<^verbatim>\<open>ASM\<close> variants, which are the ones built):
  the string instructions they execute, \<open>memset\<close>, \<open>memmove\<close>, \<open>memcpy\<close>, \<open>memcmp\<close> and
  \<open>memfind\<close>. Each is shown equal to a closed form on the whole memory, so that the kernel
  components reason with \<open>fill\<close> and \<open>copy\<close> and never unfold an instruction loop.
\<close>

section \<open>The string instructions\<close>

fun rep_stosb :: "nat \<Rightarrow> memory \<Rightarrow> u32 \<Rightarrow> u8 \<Rightarrow> memory" where
  "rep_stosb 0 m d al = m"
| "rep_stosb (Suc k) m d al = rep_stosb k (m(d := al)) (d + 1) al"

fun rep_stosl :: "nat \<Rightarrow> memory \<Rightarrow> u32 \<Rightarrow> u32 \<Rightarrow> memory" where
  "rep_stosl 0 m d eax = m"
| "rep_stosl (Suc k) m d eax = rep_stosl k (store32 m d eax) (d + 4) eax"

definition movsb :: "memory \<Rightarrow> u32 \<Rightarrow> u32 \<Rightarrow> memory" where
  "movsb m d s = m(d := m s)"

definition movsl :: "memory \<Rightarrow> u32 \<Rightarrow> u32 \<Rightarrow> memory" where
  "movsl m d s = store32 m d (load32 m s)"

text \<open>\<open>rep movs\<close> with the direction flag as the sign of \<open>step\<close>.\<close>

fun rep_movs :: "(memory \<Rightarrow> u32 \<Rightarrow> u32 \<Rightarrow> memory) \<Rightarrow> u32 \<Rightarrow> nat \<Rightarrow> memory \<Rightarrow> u32 \<Rightarrow> u32 \<Rightarrow> memory" where
  "rep_movs mv step 0 m d s = m"
| "rep_movs mv step (Suc k) m d s = rep_movs mv step k (mv m d s) (d + step) (s + step)"

section \<open>The routines\<close>

definition memset :: "memory \<Rightarrow> u32 \<Rightarrow> u32 \<Rightarrow> u32 \<Rightarrow> memory" where
  "memset m v c n =
     (if n = 0 then m
      else if v mod 4 = 0 \<and> n mod 4 = 0 then
        (let c = c AND 0xFF;
             c = push_bit 24 c OR push_bit 16 c OR push_bit 8 c OR c
         in rep_stosl (unat (n div 4)) m v c)
      else rep_stosb (unat n) m v (ucast c))"

definition memmove :: "memory \<Rightarrow> u32 \<Rightarrow> u32 \<Rightarrow> u32 \<Rightarrow> memory" where
  "memmove m dst src n =
     (let s = src; d = dst in
      if s < d \<and> s + n > d then
        (let s = s + n; d = d + n in
         if s mod 4 = 0 \<and> d mod 4 = 0 \<and> n mod 4 = 0
         then rep_movs movsl (- 4) (unat (n div 4)) m (d - 4) (s - 4)
         else rep_movs movsb (- 1) (unat n) m (d - 1) (s - 1))
      else
        (if s mod 4 = 0 \<and> d mod 4 = 0 \<and> n mod 4 = 0
         then rep_movs movsl 4 (unat (n div 4)) m d s
         else rep_movs movsb 1 (unat n) m d s))"

definition memcpy :: "memory \<Rightarrow> u32 \<Rightarrow> u32 \<Rightarrow> u32 \<Rightarrow> memory" where
  "memcpy m dst src n = memmove m dst src n"

fun memcmp_loop :: "nat \<Rightarrow> memory \<Rightarrow> u32 \<Rightarrow> u32 \<Rightarrow> int" where
  "memcmp_loop 0 m s1 s2 = 0"
| "memcmp_loop (Suc k) m s1 s2 =
     (if m s1 \<noteq> m s2 then uint (m s1) - uint (m s2) else memcmp_loop k m (s1 + 1) (s2 + 1))"

definition memcmp :: "memory \<Rightarrow> u32 \<Rightarrow> u32 \<Rightarrow> u32 \<Rightarrow> int" where
  "memcmp m v1 v2 n = memcmp_loop (unat n) m v1 v2"

function memfind_loop :: "memory \<Rightarrow> u32 \<Rightarrow> u8 \<Rightarrow> u32 \<Rightarrow> u32" where
  "memfind_loop m s c ends =
     (if s < ends then (if m s = c then s else memfind_loop m (s + 1) c ends) else s)"
  by pat_completeness auto
termination
proof (relation "measure (\<lambda>(m, s, c, ends). unat ends - unat s)", simp)
  fix m :: memory and s ends :: u32 and c :: u8
  assume "s < ends"
  moreover have "unat ends < 2 ^ 32" using u32_bound by simp
  ultimately have "unat (s + 1) = unat s + 1"
    by (subst unat_less_add) (auto simp: word_less_nat_alt)
  then show "((m, s + 1, c, ends), m, s, c, ends) \<in> measure (\<lambda>(m, s, c, ends). unat ends - unat s)"
    using \<open>s < ends\<close> by (auto simp: word_less_nat_alt)
qed

declare memfind_loop.simps [simp del]

definition memfind :: "memory \<Rightarrow> u32 \<Rightarrow> u32 \<Rightarrow> u32 \<Rightarrow> u32" where
  "memfind m s c n = memfind_loop m s (ucast c) (s + n)"

section \<open>Closed forms\<close>

definition fill :: "memory \<Rightarrow> u32 \<Rightarrow> nat \<Rightarrow> u8 \<Rightarrow> memory" where
  "fill m d n b = (\<lambda>a. if in_range d n a then b else m a)"

definition copy :: "memory \<Rightarrow> u32 \<Rightarrow> u32 \<Rightarrow> nat \<Rightarrow> memory" where
  "copy m d s n = (\<lambda>a. if in_range d n a then m (s + (a - d)) else m a)"

lemma fill_0 [simp]: "fill m d 0 b = m"
  by (simp add: fill_def)

lemma copy_0 [simp]: "copy m d s 0 = m"
  by (simp add: copy_def)

text \<open>Splitting a range, at its start or at its end.\<close>

lemma in_range_shift:
  assumes "p + q \<le> 2 ^ 32"
  shows "in_range (d + of_nat p) q a \<longleftrightarrow> p \<le> unat (a - d) \<and> unat (a - d) < p + q"
proof (cases "p < 2 ^ 32")
  case True
  let ?x = "unat (a - d)"
  have p: "unat (of_nat p :: u32) = p" using True by (simp add: unat_of_nat)
  have eq: "a - (d + of_nat p) = (a - d) - of_nat p" by simp
  show ?thesis
  proof (cases "p \<le> ?x")
    case le: True
    then have "unat ((a - d) - of_nat p) = ?x - p"
      by (subst unat_sub) (simp_all add: word_le_nat_alt p)
    then show ?thesis using le unfolding in_range_def eq by auto
  next
    case False
    then have "unat ((a - d) - of_nat p) = ?x + 2 ^ 32 - p"
      using u32_bound [of "a - d"] True by (simp add: unat_sub_if_size p word_size)
    then show ?thesis using False assms unfolding in_range_def eq by auto
  qed
next
  case False
  with assms have "q = 0" "p = 2 ^ 32" by simp_all
  then show ?thesis using u32_bound [of "a - d"] by simp
qed

lemma fill_add:
  assumes "p + q \<le> 2 ^ 32"
  shows "fill (fill m d p b) (d + of_nat p) q b = fill m d (p + q) b"
  by (auto simp: fill_def fun_eq_iff in_range_shift [OF assms]) (auto simp: in_range_def)

lemma copy_add_up:
  assumes "p + q \<le> 2 ^ 32" and "unat (s - d) + (p + q) \<le> 2 ^ 32"
  shows "copy (copy m d s p) (d + of_nat p) (s + of_nat p) q = copy m d s (p + q)"
proof
  fix a
  have *: "\<not> in_range d p (s + (a - d))" if "p \<le> unat (a - d)" "unat (a - d) < p + q"
  proof -
    have "unat (s + (a - d) - d) = unat ((s - d) + (a - d))" by (simp add: algebra_simps)
    also have "\<dots> = unat (s - d) + unat (a - d)"
      using that assms(2) by (subst unat_less_add) simp_all
    finally show ?thesis using that(1) by (simp add: in_range_def)
  qed
  have "s + of_nat p + (a - (d + of_nat p)) = s + (a - d)" by simp
  then show "copy (copy m d s p) (d + of_nat p) (s + of_nat p) q a = copy m d s (p + q) a"
    using * by (auto simp: copy_def in_range_shift [OF assms(1)] simp del: diff_add_eq)
      (auto simp: in_range_def)
qed

lemma sub_leaves_window:
  fixes x y :: u32
  assumes "unat x < p" and "unat y + (p + q) \<le> 2 ^ 32"
  shows "\<not> (p \<le> unat (x - y) \<and> unat (x - y) < p + q)"
  using assms u32_bound [of y] u32_bound [of x] by (auto simp: unat_sub_if_size word_size)

lemma copy_add_down:
  assumes "p + q \<le> 2 ^ 32" and "unat (d - s) + (p + q) \<le> 2 ^ 32"
  shows "copy (copy m (d + of_nat p) (s + of_nat p) q) d s p = copy m d s (p + q)"
proof
  fix a
  have eq: "s + (a - d) - d = (a - d) - (d - s)" by simp
  have *: "\<not> (p \<le> unat (s + (a - d) - d) \<and> unat (s + (a - d) - d) < p + q)"
    if "unat (a - d) < p"
    unfolding eq by (rule sub_leaves_window [OF that assms(2)])
  have "s + of_nat p + (a - (d + of_nat p)) = s + (a - d)" by simp
  then show "copy (copy m (d + of_nat p) (s + of_nat p) q) d s p a = copy m d s (p + q) a"
    using * by (auto simp: copy_def in_range_shift [OF assms(1)] simp del: diff_add_eq)
      (auto simp: in_range_def)
qed

section \<open>The instruction loops are fills and copies\<close>

lemma rep_stosb_fill: "k \<le> 2 ^ 32 \<Longrightarrow> rep_stosb k m d b = fill m d k b"
proof (induction k arbitrary: m d)
  case 0
  then show ?case by simp
next
  case (Suc k)
  have "m(d := b) = fill m d 1 b"
    by (auto simp: fill_def fun_eq_iff in_range_def unat_eq_zero)
  then show ?case
    using Suc fill_add [of 1 k m d b] by simp
qed

text \<open>The byte \<open>b\<close> in all four positions of a word.\<close>

definition spread :: "u8 \<Rightarrow> u32" where
  "spread b = push_bit 24 (ucast b) OR push_bit 16 (ucast b) OR push_bit 8 (ucast b) OR ucast b"

lemma spread_bytes:
  "ucast (spread b) = b" "ucast (drop_bit 8 (spread b)) = b"
  "ucast (drop_bit 16 (spread b)) = b" "ucast (drop_bit 24 (spread b)) = b"
  by (rule bit_word_eqI, auto simp: spread_def bit_simps dest: bit_imp_le_length)+

lemma in_range_4: "in_range d 4 a \<longleftrightarrow> a = d \<or> a = d + 1 \<or> a = d + 2 \<or> a = d + 3"
proof
  assume "in_range d 4 a"
  then have "unat (a - d) \<in> {0, 1, 2, 3}" by (auto simp: in_range_def)
  then have "a - d \<in> {0, 1, 2, 3}" by (auto simp: word_unat_eq_iff)
  then show "a = d \<or> a = d + 1 \<or> a = d + 2 \<or> a = d + 3" by (auto simp: diff_eq_eq)
qed (auto simp: in_range_def)

lemma store32_spread: "store32 m d (spread b) = fill m d 4 b"
  by (auto simp: store32_def fill_def fun_eq_iff in_range_4 spread_bytes)

lemma rep_stosl_fill: "4 * k \<le> 2 ^ 32 \<Longrightarrow> rep_stosl k m d (spread b) = fill m d (4 * k) b"
proof (induction k arbitrary: m d)
  case 0
  then show ?case by simp
next
  case (Suc k)
  then show ?case
    using fill_add [of 4 "4 * k" m d b] by (simp add: store32_spread)
qed

lemma movsb_copy: "movsb m d s = copy m d s 1"
  by (auto simp: movsb_def copy_def fun_eq_iff in_range_def unat_eq_zero)

lemma movsl_copy: "movsl m d s = copy m d s 4"
proof -
  have bytes: "ucast (load32 m s) = m s" "ucast (drop_bit 8 (load32 m s)) = m (s + 1)"
    "ucast (drop_bit 16 (load32 m s)) = m (s + 2)" "ucast (drop_bit 24 (load32 m s)) = m (s + 3)"
    by (rule bit_word_eqI, auto simp: load32_def bit_simps dest: bit_imp_le_length)+
  show ?thesis
    by (auto simp: movsl_def store32_def copy_def fun_eq_iff in_range_4 bytes)
qed

text \<open>Copying upwards and downwards in blocks of \<open>b\<close> bytes.\<close>

lemma rep_movs_up:
  assumes "\<And>m d s. mv m d s = copy m d s b" and "b * k \<le> 2 ^ 32"
    and "unat (s - d) + b * k \<le> 2 ^ 32"
  shows "rep_movs mv (of_nat b) k m d s = copy m d s (b * k)"
  using assms(2,3)
proof (induction k arbitrary: m d s)
  case 0
  then show ?case by simp
next
  case (Suc k)
  then show ?case
    using copy_add_up [of b "b * k" s d m] by (simp add: assms(1))
qed

lemma rep_movs_down:
  assumes "\<And>m d s. mv m d s = copy m d s b" and "b * k \<le> 2 ^ 32"
    and "unat (d - s) + b * k \<le> 2 ^ 32"
  shows "rep_movs mv (- of_nat b) k m (d + of_nat (b * k) - of_nat b) (s + of_nat (b * k) - of_nat b)
    = copy m d s (b * k)"
  using assms(2,3)
proof (induction k arbitrary: m)
  case 0
  then show ?case by simp
next
  case (Suc k)
  then show ?case
    using copy_add_down [of "b * k" b d s m] by (simp add: assms(1) algebra_simps)
qed

section \<open>Correctness of memset and memmove\<close>

lemma memset_word:
  fixes c :: u32
  shows "(let c = c AND 0xFF in push_bit 24 c OR push_bit 16 c OR push_bit 8 c OR c)
    = spread (ucast c)"
  by (rule bit_word_eqI) (auto simp: Let_def spread_def word_mask_numerals bit_simps)

lemma unat_div4: "(n :: u32) mod 4 = 0 \<Longrightarrow> 4 * unat (n div 4) = unat n"
proof -
  assume "n mod 4 = 0"
  then have "unat n mod 4 = 0" using unat_mod [of n 4] by simp
  then show ?thesis
    using mult_div_mod_eq [of 4 "unat n"] by (simp add: unat_div_distrib)
qed

lemma memset_fill: "memset m v c n = fill m v (unat n) (ucast c)"
proof (cases "v mod 4 = 0 \<and> n mod 4 = 0")
  case True
  then have n: "4 * unat (n div 4) = unat n" by (simp add: unat_div4)
  then have "rep_stosl (unat (n div 4)) m v (spread (ucast c)) = fill m v (unat n) (ucast c)"
    using rep_stosl_fill [of "unat (n div 4)" m v "ucast c"] u32_bound [of n] by simp
  then show ?thesis
    using True memset_word [of c] by (simp add: memset_def Let_def)
next
  case False
  have "unat n \<le> 2 ^ 32" using u32_bound [of n] by simp
  with False show ?thesis by (auto simp: memset_def rep_stosb_fill)
qed

text \<open>
  \<open>memmove\<close> copies the old contents of the source even where the regions overlap, as
  long as neither region runs past the end of the address space.
\<close>

lemma memmove_gap:
  fixes src dst n :: u32
  assumes s: "unat src + unat n \<le> 2 ^ 32" and d: "unat dst + unat n \<le> 2 ^ 32"
  shows "if src < dst \<and> src + n > dst then unat (dst - src) + unat n \<le> 2 ^ 32
    else unat (src - dst) + unat n \<le> 2 ^ 32"
proof (cases "src < dst \<and> src + n > dst")
  case True
  then show ?thesis using d by (simp add: unat_sub word_le_nat_alt word_less_nat_alt)
next
  case False
  have "unat (src - dst) + unat n \<le> 2 ^ 32"
  proof (cases "dst \<le> src")
    case True
    then show ?thesis using s by (simp add: unat_sub)
  next
    case lt: False
    then have "unat (src + n) = unat src + unat n"
      using d by (intro unat_less_add) (simp add: word_le_nat_alt)
    then have "unat src + unat n \<le> unat dst"
      using False lt by (simp add: word_less_nat_alt word_le_nat_alt)
    then show ?thesis
      using lt u32_bound [of dst] by (simp add: unat_sub_if_size word_size word_le_nat_alt)
  qed
  then show ?thesis unfolding if_not_P [OF False] .
qed

lemma movsb_loops:
  assumes "unat src + unat n \<le> 2 ^ 32" and "unat dst + unat n \<le> 2 ^ 32"
  shows "src < dst \<and> src + n > dst \<Longrightarrow>
      rep_movs movsb (- 1) (unat n) m (dst + n - 1) (src + n - 1) = copy m dst src (unat n)"
    and "\<not> (src < dst \<and> src + n > dst) \<Longrightarrow>
      rep_movs movsb 1 (unat n) m dst src = copy m dst src (unat n)"
  using memmove_gap [OF assms] u32_bound [of n]
    rep_movs_down [of movsb 1 "unat n" dst src m] rep_movs_up [of movsb 1 "unat n" src dst m]
  by (simp_all only: if_P if_not_P) (simp_all add: movsb_copy)

lemma memmove_copy:
  assumes "unat src + unat n \<le> 2 ^ 32" and "unat dst + unat n \<le> 2 ^ 32"
  shows "memmove m dst src n = copy m dst src (unat n)"
proof -
  note gap = memmove_gap [OF assms] and bytes = movsb_loops [OF assms, where m = m]
  have n: "4 * unat (n div 4) = unat n" if "n mod 4 = 0" using unat_div4 that .
  have le: "unat n \<le> 2 ^ 32" using u32_bound [of n] by simp
  show ?thesis
  proof (cases "src < dst \<and> src + n > dst")
    case True
    have "rep_movs movsl (- 4) (unat (n div 4)) m (dst + n - 4) (src + n - 4)
        = copy m dst src (unat n)" if "n mod 4 = 0"
    proof -
      have "of_nat (4 * unat (n div 4)) = n" using n [OF that] by simp
      then show ?thesis
        using rep_movs_down [of movsl 4 "unat (n div 4)" dst src m] gap [unfolded if_P [OF True]] le n [OF that]
        by (simp add: movsl_copy)
    qed
    then show ?thesis using bytes(1) [OF True] unfolding memmove_def Let_def if_P [OF True] by simp
  next
    case False
    have "rep_movs movsl 4 (unat (n div 4)) m dst src = copy m dst src (unat n)" if "n mod 4 = 0"
      using rep_movs_up [of movsl 4 "unat (n div 4)" src dst m] gap [unfolded if_not_P [OF False]] le n [OF that]
      by (simp add: movsl_copy)
    then show ?thesis using bytes(2) [OF False] unfolding memmove_def Let_def if_not_P [OF False] by simp
  qed
qed

section \<open>Correctness of memcmp and memfind\<close>

text \<open>
  \<open>memcmp\<close> is the difference of the first two bytes that differ, 0 where none does.
\<close>

lemma memcmp_loop_cases:
  "(memcmp_loop k m s1 s2 = 0 \<and> (\<forall>i < k. m (s1 + of_nat i) = m (s2 + of_nat i))) \<or>
   (\<exists>i < k. (\<forall>j < i. m (s1 + of_nat j) = m (s2 + of_nat j))
      \<and> m (s1 + of_nat i) \<noteq> m (s2 + of_nat i)
      \<and> memcmp_loop k m s1 s2 = uint (m (s1 + of_nat i)) - uint (m (s2 + of_nat i)))"
proof (induction k arbitrary: s1 s2)
  case 0
  then show ?case by simp
next
  case (Suc k)
  show ?case
  proof (cases "m s1 = m s2")
    case False
    then show ?thesis by auto
  next
    case True
    have shift: "(\<forall>i < Suc n. P i) \<longleftrightarrow> P 0 \<and> (\<forall>i < n. P (Suc i))" for P n
      using less_Suc_eq_0_disj by auto
    consider "memcmp_loop k m (s1 + 1) (s2 + 1) = 0"
        "\<forall>i < k. m (s1 + 1 + of_nat i) = m (s2 + 1 + of_nat i)"
      | i where "i < k" "\<forall>j < i. m (s1 + 1 + of_nat j) = m (s2 + 1 + of_nat j)"
        "m (s1 + 1 + of_nat i) \<noteq> m (s2 + 1 + of_nat i)"
        "memcmp_loop k m (s1 + 1) (s2 + 1)
          = uint (m (s1 + 1 + of_nat i)) - uint (m (s2 + 1 + of_nat i))"
      using Suc.IH [of "s1 + 1" "s2 + 1"] by blast
    then show ?thesis
    proof cases
      case 1
      then show ?thesis using True by (simp add: shift add.assoc)
    next
      case 2
      then have "Suc i < Suc k \<and> (\<forall>j < Suc i. m (s1 + of_nat j) = m (s2 + of_nat j))
        \<and> m (s1 + of_nat (Suc i)) \<noteq> m (s2 + of_nat (Suc i))
        \<and> memcmp_loop (Suc k) m s1 s2
            = uint (m (s1 + of_nat (Suc i))) - uint (m (s2 + of_nat (Suc i)))"
        using True by (simp add: shift add.assoc)
      then show ?thesis by blast
    qed
  qed
qed

lemma memcmp_zero_iff:
  "memcmp m v1 v2 n = 0 \<longleftrightarrow> (\<forall>i < unat n. m (v1 + of_nat i) = m (v2 + of_nat i))"
  using memcmp_loop_cases [of "unat n" m v1 v2]
  by (auto simp: memcmp_def word_uint_eq_iff [symmetric])

lemma memfind_loop_spec:
  assumes "s \<le> ends"
  shows "s \<le> memfind_loop m s c ends \<and> memfind_loop m s c ends \<le> ends
    \<and> (memfind_loop m s c ends < ends \<longrightarrow> m (memfind_loop m s c ends) = c)
    \<and> (\<forall>a. s \<le> a \<and> a < memfind_loop m s c ends \<longrightarrow> m a \<noteq> c)"
  using assms
proof (induction m s c ends rule: memfind_loop.induct)
  case (1 m s c ends)
  show ?case
  proof (cases "s < ends \<and> m s \<noteq> c")
    case True
    have suc: "unat (s + 1) = unat s + 1"
      using True u32_bound [of ends] by (subst unat_less_add) (auto simp: word_less_nat_alt)
    then have "s + 1 \<le> ends" using True by (simp add: word_le_nat_alt word_less_nat_alt)
    then have IH: "s + 1 \<le> memfind_loop m (s + 1) c ends \<and> memfind_loop m (s + 1) c ends \<le> ends
        \<and> (memfind_loop m (s + 1) c ends < ends \<longrightarrow> m (memfind_loop m (s + 1) c ends) = c)
        \<and> (\<forall>a. s + 1 \<le> a \<and> a < memfind_loop m (s + 1) c ends \<longrightarrow> m a \<noteq> c)"
      using "1.IH" True by blast
    have eq: "memfind_loop m s c ends = memfind_loop m (s + 1) c ends"
      using True by (subst memfind_loop.simps) simp
    have next_addr: "s \<le> a \<Longrightarrow> a = s \<or> s + 1 \<le> a" for a
      using suc by (auto simp: word_le_nat_alt word_unat_eq_iff)
    have "s \<le> s + 1" using suc by (simp add: word_le_nat_alt)
    then show ?thesis
      unfolding eq using IH True next_addr by (auto intro: order_trans)
  next
    case False
    then have "memfind_loop m s c ends = s" by (subst memfind_loop.simps) auto
    then show ?thesis using False "1.prems" by auto
  qed
qed

section \<open>The portable variants\<close>

text \<open>
  The C bodies \<^verbatim>\<open>lib/string.c\<close> has for builds without \<^verbatim>\<open>ASM\<close>. \<open>memset\<close> keeps its count
  in an \<^verbatim>\<open>int\<close>, so a size of \<open>2 ^ 31\<close> or more, negative there, stores nothing.
\<close>

fun store_bytes :: "nat \<Rightarrow> memory \<Rightarrow> u32 \<Rightarrow> u8 \<Rightarrow> memory" where
  "store_bytes 0 m p c = m"
| "store_bytes (Suc k) m p c = store_bytes k (m(p := c)) (p + 1) c"

definition memset_c :: "memory \<Rightarrow> u32 \<Rightarrow> u32 \<Rightarrow> u32 \<Rightarrow> memory" where
  "memset_c m v c n = store_bytes (nat (sint n)) m v (ucast c)"

fun copy_down :: "nat \<Rightarrow> memory \<Rightarrow> u32 \<Rightarrow> u32 \<Rightarrow> memory" where
  "copy_down 0 m d s = m"
| "copy_down (Suc n) m d s = (let s = s - 1; d = d - 1 in copy_down n (m(d := m s)) d s)"

fun copy_up :: "nat \<Rightarrow> memory \<Rightarrow> u32 \<Rightarrow> u32 \<Rightarrow> memory" where
  "copy_up 0 m d s = m"
| "copy_up (Suc n) m d s = copy_up n (m(d := m s)) (d + 1) (s + 1)"

definition memmove_c :: "memory \<Rightarrow> u32 \<Rightarrow> u32 \<Rightarrow> u32 \<Rightarrow> memory" where
  "memmove_c m dst src n =
     (let s = src; d = dst in
      if s < d \<and> s + n > d then copy_down (unat n) m (d + n) (s + n)
      else copy_up (unat n) m d s)"

lemma store_bytes_rep: "store_bytes k m p c = rep_stosb k m p c"
  by (induction k arbitrary: m p) simp_all

lemma copy_up_rep: "copy_up k m d s = rep_movs movsb 1 k m d s"
  by (induction k arbitrary: m d s) (simp_all add: movsb_def)

lemma copy_down_rep: "copy_down k m d s = rep_movs movsb (- 1) k m (d - 1) (s - 1)"
proof (induction k arbitrary: m d s)
  case (Suc k)
  show ?case unfolding copy_down.simps Let_def Suc.IH rep_movs.simps movsb_def [of m]
    by (simp add: algebra_simps)
qed simp

section \<open>Contracts\<close>

text \<open>The string-instruction \<open>memset\<close> and the portable one agree on every size below
  \<open>2 ^ 31\<close>, whatever the alignment, and on larger sizes the portable one does nothing.\<close>

theorem memset_variants:
  "memset_c m v c n = (if unat n < 2 ^ 31 then memset m v c n else m)"
  unfolding memset_c_def store_bytes_rep sint_u32 memset_fill
  using u32_bound [of n] nat_negative [of "unat n"] by (auto simp: rep_stosb_fill simp del: of_nat_unat)

text \<open>C21: \<open>memmove\<close> with word and byte string instructions in either direction and the
  portable \<open>memmove\<close> both leave in the destination exactly what the source held before the
  call, overlapping or not, and change nothing else, for regions that do not run past the
  end of the address space.\<close>

theorem memmove_variants:
  assumes "unat src + unat n \<le> 2 ^ 32" and "unat dst + unat n \<le> 2 ^ 32"
  shows "memmove m dst src n = memmove_c m dst src n
    \<and> (\<forall>i < unat n. memmove m dst src n (dst + of_nat i) = m (src + of_nat i))
    \<and> (\<forall>a. \<not> in_range dst (unat n) a \<longrightarrow> memmove m dst src n a = m a)"
proof (intro conjI)
  show "memmove m dst src n = memmove_c m dst src n"
    using movsb_loops [OF assms] by (simp add: memmove_copy [OF assms] memmove_c_def copy_down_rep copy_up_rep)
  have *: "unat (of_nat i :: u32) = i" if "i < unat n" for i
    using that u32_bound [of n] by (intro unat_of_nat_small) simp
  show "\<forall>i < unat n. memmove m dst src n (dst + of_nat i) = m (src + of_nat i)"
    using * by (simp add: memmove_copy [OF assms] copy_def in_range_def)
  show "\<forall>a. \<not> in_range dst (unat n) a \<longrightarrow> memmove m dst src n a = m a"
    by (simp add: memmove_copy [OF assms] copy_def)
qed

lemma memmove_variants_witness:
  "memmove (\<lambda>a. ucast a) 12 10 4 = memmove_c (\<lambda>a. ucast a) 12 10 4
    \<and> memmove (\<lambda>a. ucast a) 12 10 4 15 = 13"
  using memmove_variants [of 10 4 12 "\<lambda>a. ucast a"] by (auto dest: spec [of _ 3])

end
