(* ===== verification/Kernel.thy ===== *)
theory Kernel
  imports Mmu MemOps
begin

text \<open>
  The kernel state the memory management of \<^verbatim>\<open>kern/pmap.c\<close> works on, and the address
  conversions and accessors of \<^verbatim>\<open>kern/pmap.h\<close>.

  \<^item> \<open>mem\<close> is physical memory. The kernel reads and writes it through kernel virtual
    addresses at or above \<open>KERNBASE\<close>, where physical memory is mapped one to one; a
    dereference below \<open>KERNBASE\<close> by kernel code is a \<open>Fault\<close>. This is the map of
    \<^verbatim>\<open>kern_pgdir\<close>; until \<open>mem_init\<close> loads it, the processor runs on \<^verbatim>\<open>entry_pgdir\<close>, which
    maps only the first 4MB (theory \<^verbatim>\<open>EntryPgdir\<close>). The model does not make that difference: on the machine
    an access above \<open>KERNBASE + 4MB\<close> before \<^verbatim>\<open>lcr3\<close> would fault, so what is proved of \<open>mem_init\<close> up
    to there is about boards whose kernel image and boot-time structures lie in the first 4MB.
  \<^item> \<open>pages\<close> is the array of \<^verbatim>\<open>struct PageInfo\<close>, one per physical page; a
    \<^verbatim>\<open>struct PageInfo *\<close> is an index into it, \<open>None\<close> the null pointer.
  \<^item> \<open>tlb\<close> holds the page table entries the processor may have cached, by page number.
  \<^item> The record is extensible: \<^verbatim>\<open>kern/env.c\<close> adds its own state to it, and every operation
    here works on the extension unchanged.
\<close>

record page_info =
  pp_link :: "nat option"
  pp_ref :: u16

record kstate =
  mem :: memory
  npages :: u32
  npages_basemem :: u32
  kern_pgdir :: u32
  pages_kva :: u32
  pages :: "page_info list"
  page_free_list :: "nat option"
  nextfree :: u32
  tlb :: "u32 \<Rightarrow> u32 option"
  cr3 :: u32

type_synonym 'z ks = "'z kstate_scheme"

section \<open>Kernel virtual and physical addresses\<close>

definition PADDR :: "u32 \<Rightarrow> kerr + u32" where
  "PADDR kva = (if kva < KERNBASE then Inl (Panic ''PADDR called with invalid kva'')
     else Inr (kva - KERNBASE))"

definition KADDR :: "'z ks \<Rightarrow> u32 \<Rightarrow> kerr + u32" where
  "KADDR s pa = (if PGNUM pa \<ge> npages s then Inl (Panic ''KADDR called with invalid pa'')
     else Inr (pa + KERNBASE))"

definition page2pa :: "nat \<Rightarrow> u32" where
  "page2pa pp = push_bit 12 (of_nat pp)"

definition pa2page :: "'z ks \<Rightarrow> u32 \<Rightarrow> kerr + nat" where
  "pa2page s pa = (if PGNUM pa \<ge> npages s then Inl (Panic ''pa2page called with invalid pa'')
     else Inr (unat (PGNUM pa)))"

definition page2kva :: "'z ks \<Rightarrow> nat \<Rightarrow> kerr + u32" where
  "page2kva s pp = KADDR s (page2pa pp)"

section \<open>Dereferences\<close>

definition kload :: "'z ks \<Rightarrow> u32 \<Rightarrow> kerr + u32" where
  "kload s a = (if a < KERNBASE then Inl (Fault a) else Inr (load32 (mem s) (a - KERNBASE)))"

definition kstore :: "u32 \<Rightarrow> u32 \<Rightarrow> 'z ks \<Rightarrow> kerr + 'z ks" where
  "kstore a v s = (if a < KERNBASE then Inl (Fault a)
     else Inr (s\<lparr>mem := store32 (mem s) (a - KERNBASE) v\<rparr>))"

definition kmemset :: "u32 \<Rightarrow> u32 \<Rightarrow> u32 \<Rightarrow> 'z ks \<Rightarrow> kerr + 'z ks" where
  "kmemset a c n s = (if a < KERNBASE then Inl (Fault a)
     else Inr (s\<lparr>mem := memset (mem s) (a - KERNBASE) c n\<rparr>))"

definition get_page :: "'z ks \<Rightarrow> nat \<Rightarrow> kerr + page_info" where
  "get_page s i = (if i < length (pages s) then Inr (pages s ! i) else Inl (Stray i))"

definition upd_page :: "nat \<Rightarrow> (page_info \<Rightarrow> page_info) \<Rightarrow> 'z ks \<Rightarrow> kerr + 'z ks" where
  "upd_page i f s = (if i < length (pages s)
     then Inr (s\<lparr>pages := (pages s)[i := f (pages s ! i)]\<rparr>) else Inl (Stray i))"

section \<open>Facts about the conversions\<close>

text \<open>
  The kernel maps at most 256MB at \<open>KERNBASE\<close>, that is 65536 pages; within that bound the
  conversions are inverse to each other and never wrap.
\<close>

definition wf_pages :: "'z ks \<Rightarrow> bool" where
  "wf_pages s \<longleftrightarrow> length (pages s) = unat (npages s) \<and> unat (npages s) \<le> 65536"

lemma unat_page2pa: "pp < 2 ^ 20 \<Longrightarrow> unat (page2pa pp) = pp * 4096"
  by (simp add: page2pa_def push_bit_eq_mult unat_word_ariths unat_of_nat)

lemma page2pa_aligned [simp]: "page_aligned (page2pa pp)"
  by (simp add: page_aligned_bit page2pa_def bit_simps)

lemma PGNUM_page2pa: "pp < 2 ^ 20 \<Longrightarrow> unat (PGNUM (page2pa pp)) = pp"
  by (simp add: unat_PGNUM unat_page2pa)

lemma page2pa_PGNUM: "page_aligned pa \<Longrightarrow> page2pa (unat (PGNUM pa)) = pa"
proof -
  assume al: "page_aligned pa"
  have "bit pa n \<Longrightarrow> 12 \<le> n" for n using al page_aligned_bit not_less by blast
  then show ?thesis by (intro bit_word_eqI) (auto simp: page2pa_def PGNUM_def bit_simps)
qed

lemma page2pa_inj: "i < 2 ^ 20 \<Longrightarrow> j < 2 ^ 20 \<Longrightarrow> page2pa i = page2pa j \<longleftrightarrow> i = j"
  by (metis PGNUM_page2pa)

lemma pa2page_page2pa:
  "wf_pages s \<Longrightarrow> pp < length (pages s) \<Longrightarrow> pa2page s (page2pa pp) = Inr pp"
  by (simp add: pa2page_def wf_pages_def PGNUM_page2pa word_le_nat_alt)

lemma page2kva_Inr:
  "wf_pages s \<Longrightarrow> pp < length (pages s) \<Longrightarrow> page2kva s pp = Inr (page2pa pp + KERNBASE)"
  by (simp add: page2kva_def KADDR_def wf_pages_def PGNUM_page2pa word_le_nat_alt)

lemma KADDR_Inr: "PGNUM pa < npages s \<Longrightarrow> KADDR s pa = Inr (pa + KERNBASE)"
  by (simp add: KADDR_def)

lemma unat_kva:
  assumes "unat pa < 268435456"
  shows "unat (pa + KERNBASE) = unat pa + 4026531840"
  using assms by (subst unat_less_add) (simp_all add: KERNBASE_def)

lemma kva_above: "unat pa < 268435456 \<Longrightarrow> \<not> pa + KERNBASE < KERNBASE"
  by (simp add: word_less_nat_alt unat_kva) (simp add: KERNBASE_def)

lemma PADDR_kva: "unat pa < 268435456 \<Longrightarrow> PADDR (pa + KERNBASE) = Inr pa"
  using kva_above [of pa] by (simp add: PADDR_def)

lemma kload_kva: "unat pa < 268435456 \<Longrightarrow> kload s (pa + KERNBASE) = Inr (load32 (mem s) pa)"
  using kva_above [of pa] by (simp add: kload_def)

lemma kstore_kva:
  "unat pa < 268435456 \<Longrightarrow> kstore (pa + KERNBASE) v s = Inr (s\<lparr>mem := store32 (mem s) pa v\<rparr>)"
  using kva_above [of pa] by (simp add: kstore_def)

lemma kmemset_kva:
  "unat pa < 268435456 \<Longrightarrow>
     kmemset (pa + KERNBASE) c n s = Inr (s\<lparr>mem := fill (mem s) pa (unat n) (ucast c)\<rparr>)"
  using kva_above [of pa] by (simp add: kmemset_def memset_fill)

lemma page2pa_bound:
  assumes "wf_pages s" and "pp < length (pages s)"
  shows "unat (page2pa pp) + 4096 \<le> 268435456"
  using assms by (simp add: wf_pages_def unat_page2pa)

lemma frame_bound:
  assumes "wf_pages s" and "PGNUM pa < npages s"
  shows "unat pa < 268435456"
proof -
  have "unat pa div 4096 < 65536"
    using assms unat_PGNUM [of pa] by (simp add: wf_pages_def word_less_nat_alt)
  then show ?thesis by simp
qed

end
