(* ===== verification/PageAlloc.thy ===== *)
theory PageAlloc
  imports Kernel
begin

text \<open>
  The physical memory allocators of \<^verbatim>\<open>kern/pmap.c\<close>: the probe of the installed memory,
  the boot-time bump allocator \<open>boot_alloc\<close>, and the page allocator \<open>page_init\<close>,
  \<open>page_alloc\<close>, \<open>page_free\<close>, \<open>page_decref\<close> over the free list threaded through
  \<^verbatim>\<open>struct PageInfo\<close>. \<open>free_inv s xs\<close> says that the list at \<open>page_free_list\<close> is
  exactly \<open>xs\<close>; the locale \<open>page_allocator\<close> is the stack of pages the rest of the kernel
  sees, and the allocator interprets it.
\<close>

section \<open>Detecting the installed memory\<close>

text \<open>
  The contents of the CMOS clock chip are the parameter \<open>cmos\<close>: \<open>cmos r\<close> is the byte
  \<^verbatim>\<open>inb(IO_RTC+1)\<close> returns after register \<open>r\<close> was selected.
\<close>

definition mc146818_read :: "(u32 \<Rightarrow> u8) \<Rightarrow> u32 \<Rightarrow> u32" where
  "mc146818_read cmos reg = ucast (cmos reg)"

definition nvram_read :: "(u32 \<Rightarrow> u8) \<Rightarrow> u32 \<Rightarrow> u32" where
  "nvram_read cmos r = mc146818_read cmos r OR push_bit 8 (mc146818_read cmos (r + 1))"

definition NVRAM_BASELO :: u32 where "NVRAM_BASELO = 0x15"
definition NVRAM_EXTLO :: u32 where "NVRAM_EXTLO = 0x17"
definition NVRAM_EXT16LO :: u32 where "NVRAM_EXT16LO = 0x34"

text \<open>
  The sizes that \<^verbatim>\<open>i386_detect_memory\<close> computes; the line it then prints is \<open>report_memory\<close> of
  \<open>MemInit\<close>, where the kernel has a console.
\<close>

definition memory_sizes :: "(u32 \<Rightarrow> u8) \<Rightarrow> u32 \<times> u32" where
  "memory_sizes cmos =
     (let basemem = nvram_read cmos NVRAM_BASELO;
          extmem = nvram_read cmos NVRAM_EXTLO;
          ext16mem = nvram_read cmos NVRAM_EXT16LO * 64;
          totalmem = (if ext16mem \<noteq> 0 then 16 * 1024 + ext16mem
                      else if extmem \<noteq> 0 then 1 * 1024 + extmem
                      else basemem)
      in (basemem, totalmem))"

definition i386_detect_memory :: "(u32 \<Rightarrow> u8) \<Rightarrow> 'z ks \<Rightarrow> 'z ks" where
  "i386_detect_memory cmos s =
     (let (basemem, totalmem) = memory_sizes cmos
      in s\<lparr>npages := totalmem div (PGSIZE div 1024),
           npages_basemem := basemem div (PGSIZE div 1024)\<rparr>)"

section \<open>The boot-time allocator\<close>

text \<open>The linker symbol \<^verbatim>\<open>end\<close> is the parameter \<open>end_sym\<close>.\<close>

definition boot_alloc :: "u32 \<Rightarrow> u32 \<Rightarrow> 'z ks \<Rightarrow> u32 \<times> 'z ks" where
  "boot_alloc end_sym n s =
     (let s = (if nextfree s = 0 then s\<lparr>nextfree := ROUNDUP end_sym PGSIZE\<rparr> else s);
          result = nextfree s
      in (result, s\<lparr>nextfree := ROUNDUP (nextfree s + n) PGSIZE\<rparr>))"

section \<open>The page allocator\<close>

definition ALLOC_ZERO :: u32 where "ALLOC_ZERO = 1"

definition page_init_step :: "u32 \<Rightarrow> nat \<Rightarrow> 'z ks \<Rightarrow> kerr + 'z ks" where
  "page_init_step first_free_extend_addr i s =
     (if i = 0 then upd_page i (\<lambda>p. p\<lparr>pp_ref := 1\<rparr>) s
      else if of_nat i * PGSIZE \<ge> IOPHYSMEM \<and> of_nat i * PGSIZE \<le> first_free_extend_addr
      then upd_page i (\<lambda>p. p\<lparr>pp_ref := 1\<rparr>) s
      else bindE (upd_page i (\<lambda>p. p\<lparr>pp_ref := 0\<rparr>) s) (\<lambda>s.
           bindE (upd_page i (\<lambda>p. p\<lparr>pp_link := page_free_list s\<rparr>) s) (\<lambda>s.
           Inr (s\<lparr>page_free_list := Some i\<rparr>))))"

definition page_init :: "u32 \<Rightarrow> 'z ks \<Rightarrow> kerr + 'z ks" where
  "page_init end_sym s =
     (let s = s\<lparr>page_free_list := None\<rparr>;
          (kva, s) = boot_alloc end_sym 0 s
      in bindE (PADDR kva) (\<lambda>first_free_extend_addr.
         foldE (page_init_step first_free_extend_addr) [0..<unat (npages s)] s))"

definition page_alloc :: "u32 \<Rightarrow> 'z ks \<Rightarrow> kerr + (nat option \<times> 'z ks)" where
  "page_alloc alloc_flags s =
     (case page_free_list s of
        None \<Rightarrow> Inr (None, s)
      | Some pp \<Rightarrow>
          bindE (get_page s pp) (\<lambda>info.
          let s = s\<lparr>page_free_list := pp_link info\<rparr> in
          bindE (upd_page pp (\<lambda>p. p\<lparr>pp_link := None\<rparr>) s) (\<lambda>s.
          if alloc_flags \<noteq> 0 \<and> ALLOC_ZERO \<noteq> 0
          then bindE (page2kva s pp) (\<lambda>kva.
               bindE (kmemset kva 0 PGSIZE s) (\<lambda>s. Inr (Some pp, s)))
          else Inr (Some pp, s))))"

definition page_free :: "nat \<Rightarrow> 'z ks \<Rightarrow> kerr + 'z ks" where
  "page_free pp s =
     bindE (get_page s pp) (\<lambda>info.
     if pp_ref info = 0 \<and> pp_link info = None
     then bindE (upd_page pp (\<lambda>p. p\<lparr>pp_link := page_free_list s\<rparr>) s) (\<lambda>s.
          Inr (s\<lparr>page_free_list := Some pp\<rparr>))
     else Inl (Panic (''This page is being used!'' @ [CHR 0x0A])))"

definition page_decref :: "nat \<Rightarrow> 'z ks \<Rightarrow> kerr + 'z ks" where
  "page_decref pp s =
     bindE (upd_page pp (\<lambda>p. p\<lparr>pp_ref := pp_ref p - 1\<rparr>) s) (\<lambda>s.
     bindE (get_page s pp) (\<lambda>info.
     if pp_ref info = 0 then page_free pp s else Inr s))"

section \<open>The free list\<close>

text \<open>\<open>linked ps p xs\<close>: following \<open>pp_link\<close> from \<open>p\<close> visits \<open>xs\<close> and ends at null.\<close>

fun linked :: "page_info list \<Rightarrow> nat option \<Rightarrow> nat list \<Rightarrow> bool" where
  "linked ps p [] \<longleftrightarrow> p = None"
| "linked ps p (x # xs) \<longleftrightarrow> p = Some x \<and> x < length ps \<and> linked ps (pp_link (ps ! x)) xs"

lemma linked_det: "linked ps p xs \<Longrightarrow> linked ps p ys \<Longrightarrow> xs = ys"
proof (induction xs arbitrary: p ys)
  case Nil
  then show ?case by (cases ys) auto
next
  case (Cons x xs)
  then show ?case by (cases ys) auto
qed

lemma linked_suffix: "linked ps p (xs @ y # ys) \<Longrightarrow> linked ps (Some y) (y # ys)"
  by (induction xs arbitrary: p) auto

lemma linked_distinct: "linked ps p xs \<Longrightarrow> distinct xs"
proof (induction xs arbitrary: p)
  case Nil
  then show ?case by simp
next
  case (Cons x xs)
  have "x \<notin> set xs"
  proof
    assume "x \<in> set xs"
    then obtain as bs where xs: "xs = as @ x # bs" by (auto simp: in_set_conv_decomp)
    then have "linked ps (Some x) (x # bs)"
      using Cons.prems linked_suffix [of ps p "x # as" x bs] by simp
    moreover have "linked ps (Some x) (x # xs)" using Cons.prems by simp
    ultimately have "x # bs = x # xs" by (rule linked_det)
    then show False using xs by simp
  qed
  then show ?case using Cons by auto
qed

lemma linked_upd: "i \<notin> set xs \<Longrightarrow> linked (ps[i := p]) q xs = linked ps q xs"
  by (induction xs arbitrary: q) auto

lemma linked_upd_link:
  assumes "pp_link p = pp_link (ps ! i)"
  shows "linked (ps[i := p]) q xs = linked ps q xs"
proof (induction xs arbitrary: q)
  case Nil
  then show ?case by simp
next
  case (Cons x xs)
  have "x < length ps \<Longrightarrow> pp_link (ps[i := p] ! x) = pp_link (ps ! x)"
    by (cases "x = i") (simp add: assms, simp)
  then show ?case by (simp add: Cons.IH cong: conj_cong)
qed

lemma linked_bound: "linked ps p xs \<Longrightarrow> i \<in> set xs \<Longrightarrow> i < length ps"
  by (induction xs arbitrary: p) auto

text \<open>After page \<open>x\<close>, the last of a list, was linked anew, the rest still leads to it.\<close>

lemma linked_through:
  assumes "linked ps q (as @ [x])" and "x \<notin> set as" and "linked (ps[x := p]) q zs"
  shows "\<exists>ws. zs = as @ ws \<and> linked (ps[x := p]) (Some x) ws"
  using assms
proof (induction as arbitrary: q zs)
  case Nil
  then show ?case by simp
next
  case (Cons a as)
  then obtain zs' where zs: "zs = a # zs'" by (cases zs) auto
  have "linked ps (pp_link (ps ! a)) (as @ [x])" using Cons.prems(1) by simp
  moreover have "linked (ps[x := p]) (pp_link (ps ! a)) zs'" using Cons.prems(2,3) zs by auto
  ultimately obtain ws where "zs' = as @ ws" "linked (ps[x := p]) (Some x) ws"
    using Cons.IH [of "pp_link (ps ! a)" zs'] Cons.prems(2) by auto
  then show ?case using zs by auto
qed

text \<open>
  The allocator's invariant: the free list is \<open>xs\<close>, free pages have no references, pages
  off the list have a null link, and page 0 is never free.
\<close>

definition free_inv :: "'z ks \<Rightarrow> nat list \<Rightarrow> bool" where
  "free_inv s xs \<longleftrightarrow> wf_pages s \<and> linked (pages s) (page_free_list s) xs \<and> 0 \<notin> set xs
     \<and> (\<forall>i < length (pages s). if i \<in> set xs then pp_ref (pages s ! i) = 0
          else pp_link (pages s ! i) = None)"

definition idle_page :: "'z ks \<Rightarrow> nat \<Rightarrow> bool" where
  "idle_page s i \<longleftrightarrow> 0 < i \<and> i < length (pages s) \<and> pages s ! i = \<lparr>pp_link = None, pp_ref = 0\<rparr>"

lemma free_inv_distinct: "free_inv s xs \<Longrightarrow> distinct xs"
  by (auto simp: free_inv_def dest: linked_distinct)

lemma free_inv_bound: "free_inv s xs \<Longrightarrow> i \<in> set xs \<Longrightarrow> i < length (pages s)"
  by (auto simp: free_inv_def dest: linked_bound)

lemma free_inv_wf [dest]: "free_inv s xs \<Longrightarrow> wf_pages s"
  by (simp add: free_inv_def)

lemma free_inv_det: "free_inv s xs \<Longrightarrow> free_inv s ys \<Longrightarrow> xs = ys"
  by (auto simp: free_inv_def dest: linked_det)

text \<open>The state after \<open>page_alloc\<close> handed out page \<open>x\<close>.\<close>

definition alloc_state :: "u32 \<Rightarrow> nat \<Rightarrow> 'z ks \<Rightarrow> 'z ks" where
  "alloc_state flags x s = s\<lparr>
     mem := (if flags \<noteq> 0 then fill (mem s) (page2pa x) 4096 0 else mem s),
     pages := (pages s)[x := (pages s ! x)\<lparr>pp_link := None\<rparr>],
     page_free_list := pp_link (pages s ! x)\<rparr>"

lemma page_alloc_Nil: "free_inv s [] \<Longrightarrow> page_alloc flags s = Inr (None, s)"
  by (simp add: page_alloc_def free_inv_def)

lemma wf_pages_upd [simp]:
  "wf_pages (s\<lparr>pages := (pages s)[i := p], page_free_list := q\<rparr>) = wf_pages s"
  "wf_pages (s\<lparr>pages := (pages s)[i := p]\<rparr>) = wf_pages s"
  "wf_pages (s\<lparr>page_free_list := q\<rparr>) = wf_pages s"
  "wf_pages (s\<lparr>mem := m\<rparr>) = wf_pages s"
  "wf_pages (s\<lparr>tlb := t\<rparr>) = wf_pages s"
  by (simp_all add: wf_pages_def)

lemma page_alloc_Cons:
  assumes "free_inv s (x # xs)"
  shows "page_alloc flags s = Inr (Some x, alloc_state flags x s)"
proof -
  have x: "page_free_list s = Some x" "x < length (pages s)" and wf: "wf_pages s"
    using assms by (auto simp: free_inv_def)
  let ?s = "s\<lparr>page_free_list := pp_link (pages s ! x),
    pages := (pages s)[x := (pages s ! x)\<lparr>pp_link := None\<rparr>]\<rparr>"
  have "page2kva ?s x = Inr (page2pa x + KERNBASE)"
    using wf x(2) by (intro page2kva_Inr) (simp_all add: wf_pages_def)
  moreover have "unat (page2pa x) < 268435456"
    using page2pa_bound [OF wf x(2)] by simp
  ultimately show ?thesis
    using x by (simp add: page_alloc_def get_page_def upd_page_def Let_def ALLOC_ZERO_def
      kmemset_kva PGSIZE_def alloc_state_def)
qed

lemma alloc_state_inv:
  assumes "free_inv s (x # xs)"
  shows "free_inv (alloc_state flags x s) xs" "x \<notin> set xs" "idle_page (alloc_state flags x s) x"
proof -
  show x: "x \<notin> set xs" using free_inv_distinct [OF assms] by simp
  show "free_inv (alloc_state flags x s) xs"
    using assms x by (auto simp: free_inv_def alloc_state_def linked_upd nth_list_update wf_pages_def)
  have "pp_ref (pages s ! x) = 0" "x < length (pages s)" "0 < x"
    using assms by (auto simp: free_inv_def)
  then show "idle_page (alloc_state flags x s) x"
    by (simp add: idle_page_def alloc_state_def)
qed

text \<open>The state after \<open>page_free\<close> took page \<open>x\<close> back.\<close>

definition free_state :: "nat \<Rightarrow> 'z ks \<Rightarrow> 'z ks" where
  "free_state x s = s\<lparr>pages := (pages s)[x := (pages s ! x)\<lparr>pp_link := page_free_list s\<rparr>],
     page_free_list := Some x\<rparr>"

lemma page_free_idle: "idle_page s x \<Longrightarrow> page_free x s = Inr (free_state x s)"
  by (simp add: page_free_def get_page_def upd_page_def idle_page_def free_state_def)

lemma page_free_busy:
  "x < length (pages s) \<Longrightarrow> pp_ref (pages s ! x) \<noteq> 0 \<or> pp_link (pages s ! x) \<noteq> None
     \<Longrightarrow> page_free x s = Inl (Panic (''This page is being used!'' @ [CHR 0x0A]))"
  by (auto simp: page_free_def get_page_def)

lemma free_state_inv:
  assumes "free_inv s xs" and "idle_page s x" and "x \<notin> set xs"
  shows "free_inv (free_state x s) (x # xs)"
  using assms
  by (auto simp: free_inv_def free_state_def idle_page_def linked_upd nth_list_update wf_pages_def)

text \<open>
  The free list's last page has a null link, so \<open>page_free\<close> cannot tell that it is free:
  freeing it again is accepted, and the list becomes a cycle.
\<close>

lemma page_free_again:
  assumes "free_inv s xs" and "x \<in> set xs"
  shows "page_free x s =
    (if x = last xs then Inr (free_state x s) else Inl (Panic (''This page is being used!'' @ [CHR 0x0A])))"
proof -
  obtain as bs where xs: "xs = as @ x # bs" using assms(2) by (auto simp: in_set_conv_decomp)
  have x: "x < length (pages s)" using assms by (rule free_inv_bound)
  then have ref: "pp_ref (pages s ! x) = 0"
    using assms by (auto simp: free_inv_def)
  have link: "linked (pages s) (pp_link (pages s ! x)) bs"
    using assms(1) linked_suffix [of "pages s" _ as x bs] xs by (auto simp: free_inv_def)
  show ?thesis
  proof (cases bs)
    case Nil
    then have "last xs = x" "pp_link (pages s ! x) = None" using xs link by simp_all
    then show ?thesis
      using x ref by (simp add: page_free_def get_page_def upd_page_def free_state_def)
  next
    case (Cons b bs')
    then have "last xs \<noteq> x" using xs free_inv_distinct [OF assms(1)]
      by (metis distinct.simps(2) distinct_append last.simps last_appendR last_in_set list.discI)
    moreover have "pp_link (pages s ! x) \<noteq> None" using Cons link by simp
    ultimately show ?thesis using x page_free_busy by metis
  qed
qed

definition decref_state :: "nat \<Rightarrow> 'z ks \<Rightarrow> 'z ks" where
  "decref_state pp s =
     s\<lparr>pages := (pages s)[pp := (pages s ! pp)\<lparr>pp_ref := pp_ref (pages s ! pp) - 1\<rparr>]\<rparr>"

lemma page_decref_live:
  "pp < length (pages s) \<Longrightarrow> pp_ref (pages s ! pp) \<noteq> 1
     \<Longrightarrow> page_decref pp s = Inr (decref_state pp s)"
  by (simp add: page_decref_def upd_page_def get_page_def decref_state_def)

lemma page_decref_last:
  "pp < length (pages s) \<Longrightarrow> pp_ref (pages s ! pp) = 1 \<Longrightarrow> pp_link (pages s ! pp) = None
     \<Longrightarrow> page_decref pp s = Inr (free_state pp (decref_state pp s))"
  by (simp add: page_decref_def upd_page_def get_page_def decref_state_def page_free_def
    free_state_def)

section \<open>The allocator as a stack of pages\<close>

text \<open>
  What the users of the allocator rely on: \<open>inv s xs\<close> says that \<open>xs\<close> are the free pages,
  next one first; \<open>idle s x\<close> that \<open>x\<close> is handed out and unused.
\<close>

locale page_allocator =
  fixes inv :: "'s \<Rightarrow> nat list \<Rightarrow> bool"
    and alloc :: "'f \<Rightarrow> 's \<Rightarrow> 'e + (nat option \<times> 's)"
    and release :: "nat \<Rightarrow> 's \<Rightarrow> 'e + 's"
    and idle :: "'s \<Rightarrow> nat \<Rightarrow> bool"
  assumes inv_distinct: "inv s xs \<Longrightarrow> distinct xs"
    and alloc_empty: "inv s [] \<Longrightarrow> alloc f s = Inr (None, s)"
    and alloc_next: "inv s (x # xs) \<Longrightarrow> \<exists>s'. alloc f s = Inr (Some x, s') \<and> inv s' xs
      \<and> idle s' x \<and> (\<forall>y. y \<noteq> x \<longrightarrow> idle s y \<longrightarrow> idle s' y)"
    and release_idle: "inv s xs \<Longrightarrow> idle s x \<Longrightarrow> x \<notin> set xs \<Longrightarrow> \<exists>s'. release x s = Inr s'
      \<and> inv s' (x # xs) \<and> (\<forall>y. y \<noteq> x \<longrightarrow> idle s y \<longrightarrow> idle s' y)"

text \<open>Allocating up to \<open>n\<close> pages, stopping when memory runs out.\<close>

fun take_pages :: "('s \<Rightarrow> 'e + (nat option \<times> 's)) \<Rightarrow> nat \<Rightarrow> 's \<Rightarrow> 'e + (nat list \<times> 's)" where
  "take_pages al 0 s = Inr ([], s)"
| "take_pages al (Suc n) s = bindE (al s) (\<lambda>(p, s). case p of
      None \<Rightarrow> Inr ([], s)
    | Some x \<Rightarrow> bindE (take_pages al n s) (\<lambda>(xs, s). Inr (x # xs, s)))"

context page_allocator
begin

lemma take_pages_spec:
  assumes "inv s xs"
  shows "\<exists>s'. take_pages (alloc f) n s = Inr (take n xs, s') \<and> inv s' (drop n xs)
    \<and> (\<forall>x \<in> set (take n xs). idle s' x) \<and> (\<forall>y. y \<notin> set (take n xs) \<longrightarrow> idle s y \<longrightarrow> idle s' y)"
  using assms
proof (induction n arbitrary: s xs)
  case 0
  then show ?case by simp
next
  case (Suc n)
  show ?case
  proof (cases xs)
    case Nil
    then show ?thesis using Suc.prems alloc_empty by simp
  next
    case (Cons x ys)
    then obtain t where t: "alloc f s = Inr (Some x, t)" "inv t ys" "idle t x"
        "\<And>y. y \<noteq> x \<Longrightarrow> idle s y \<Longrightarrow> idle t y"
      using Suc.prems alloc_next [of s x ys f] by auto
    have "x \<notin> set ys" using inv_distinct [OF Suc.prems] Cons by auto
    then have x: "x \<notin> set (take n ys)" by (meson in_set_takeD)
    obtain s' where s': "take_pages (alloc f) n t = Inr (take n ys, s')" "inv s' (drop n ys)"
        "\<forall>x \<in> set (take n ys). idle s' x" "\<And>y. y \<notin> set (take n ys) \<Longrightarrow> idle t y \<Longrightarrow> idle s' y"
      using Suc.IH [OF t(2)] by auto
    then show ?thesis using t x Cons by auto
  qed
qed

lemma release_all_spec:
  assumes "inv s zs" and "\<forall>x \<in> set ys. idle s x" and "distinct (ys @ zs)"
  shows "\<exists>s'. foldE release (rev ys) s = Inr s' \<and> inv s' (ys @ zs)"
  using assms
proof (induction ys arbitrary: s zs rule: rev_induct)
  case Nil
  then show ?case by simp
next
  case (snoc y ys)
  then obtain t where t: "release y s = Inr t" "inv t (y # zs)"
      "\<And>z. z \<noteq> y \<Longrightarrow> idle s z \<Longrightarrow> idle t z"
    using release_idle [of s zs y] by auto
  have "\<forall>x \<in> set ys. idle t x"
  proof
    fix x assume "x \<in> set ys"
    then have "x \<noteq> y" "idle s x" using snoc.prems(2,3) by auto
    then show "idle t x" by (rule t(3))
  qed
  then show ?case using snoc.IH [OF t(2)] snoc.prems(3) t(1) by auto
qed

lemma take_then_release:
  assumes "inv s xs"
  shows "\<exists>s' s''. take_pages (alloc f) n s = Inr (take n xs, s') \<and> inv s' (drop n xs)
    \<and> foldE release (rev (take n xs)) s' = Inr s'' \<and> inv s'' xs"
proof -
  obtain s' where s': "take_pages (alloc f) n s = Inr (take n xs, s')" "inv s' (drop n xs)"
      "\<forall>x \<in> set (take n xs). idle s' x"
    using take_pages_spec [OF assms] by blast
  have "distinct (take n xs @ drop n xs)" using inv_distinct [OF assms] by simp
  from release_all_spec [OF s'(2,3) this] show ?thesis using s' by auto
qed

end

interpretation pa: page_allocator free_inv page_alloc page_free idle_page
proof unfold_locales
  fix s :: "'z ks" and xs x and f :: u32
  show "free_inv s xs \<Longrightarrow> distinct xs" by (rule free_inv_distinct)
  show "free_inv s [] \<Longrightarrow> page_alloc f s = Inr (None, s)" by (rule page_alloc_Nil)
  show "free_inv s (x # xs) \<Longrightarrow> \<exists>s'. page_alloc f s = Inr (Some x, s') \<and> free_inv s' xs
      \<and> idle_page s' x \<and> (\<forall>y. y \<noteq> x \<longrightarrow> idle_page s y \<longrightarrow> idle_page s' y)"
    using page_alloc_Cons [of s x xs f] alloc_state_inv [of s x xs]
    by (auto simp: idle_page_def alloc_state_def)
  show "free_inv s xs \<Longrightarrow> idle_page s x \<Longrightarrow> x \<notin> set xs \<Longrightarrow> \<exists>s'. page_free x s = Inr s'
      \<and> free_inv s' (x # xs) \<and> (\<forall>y. y \<noteq> x \<longrightarrow> idle_page s y \<longrightarrow> idle_page s' y)"
    using page_free_idle [of s x] free_state_inv [of s xs x]
    by (auto simp: idle_page_def free_state_def)
qed

section \<open>Boot-time allocation and initialisation\<close>

text \<open>
  As long as the bump pointer does not run past the end of the address space, the chunk
  \<open>boot_alloc\<close> returns starts on a page boundary and ends below the new pointer, which is
  a page boundary again and wastes less than a page.
\<close>

lemma ROUNDUP_PGSIZE:
  assumes "unat a + 4096 \<le> 2 ^ 32"
  shows "page_aligned (ROUNDUP a PGSIZE)" "unat a \<le> unat (ROUNDUP a PGSIZE)"
    "unat (ROUNDUP a PGSIZE) < unat a + 4096"
  using ROUNDUP_least [of PGSIZE a] assms by (simp_all add: PGSIZE_def page_aligned_dvd)

lemma boot_alloc_chunk:
  assumes "nextfree s \<noteq> 0" and "page_aligned (nextfree s)"
    and "unat (nextfree s) + unat n + 4096 \<le> 2 ^ 32"
  shows "fst (boot_alloc end_sym n s) = nextfree s"
    "page_aligned (nextfree (snd (boot_alloc end_sym n s)))"
    "unat (nextfree s) + unat n \<le> unat (nextfree (snd (boot_alloc end_sym n s)))"
    "unat (nextfree (snd (boot_alloc end_sym n s))) < unat (nextfree s) + unat n + 4096"
proof -
  have sum: "unat (nextfree s + n) = unat (nextfree s) + unat n"
    using assms(3) by (intro unat_less_add) simp
  have nf: "nextfree (snd (boot_alloc end_sym n s)) = ROUNDUP (nextfree s + n) PGSIZE"
    using assms(1) by (simp add: boot_alloc_def Let_def)
  show "fst (boot_alloc end_sym n s) = nextfree s"
    using assms(1) by (simp add: boot_alloc_def Let_def)
  show "page_aligned (nextfree (snd (boot_alloc end_sym n s)))"
    "unat (nextfree s) + unat n \<le> unat (nextfree (snd (boot_alloc end_sym n s)))"
    "unat (nextfree (snd (boot_alloc end_sym n s))) < unat (nextfree s) + unat n + 4096"
    unfolding nf using ROUNDUP_PGSIZE [of "nextfree s + n"] assms(3) by (simp_all only: sum)
qed

text \<open>The pages \<open>page_init\<close> makes available, given the first address after the boot data.\<close>

definition usable_page :: "u32 \<Rightarrow> nat \<Rightarrow> bool" where
  "usable_page ffa i \<longleftrightarrow> i \<noteq> 0 \<and> \<not> (0xA0000 \<le> i * 4096 \<and> i * 4096 \<le> unat ffa)"

text \<open>
  The comment of \<^verbatim>\<open>page_init\<close> reads differently: free are the rest of base memory, as far as
  \<open>npages_basemem\<close> goes, and the extended memory that is not in use, from the first free address on.
\<close>

definition documented_free :: "nat \<Rightarrow> u32 \<Rightarrow> nat \<Rightarrow> bool" where
  "documented_free basemem ffa i \<longleftrightarrow>
     (0 < i \<and> i < basemem \<and> i * 4096 < 0xA0000) \<or> (0x100000 \<le> i * 4096 \<and> unat ffa \<le> i * 4096)"

lemma usable_documented:
  assumes "0x100000 \<le> unat ffa"
  shows "usable_page ffa i \<longleftrightarrow> (documented_free basemem ffa i \<and> i * 4096 \<noteq> unat ffa)
    \<or> (0 < i \<and> basemem \<le> i \<and> i * 4096 < 0xA0000)"
  using assms by (auto simp: usable_page_def documented_free_def)

definition page_frame :: "'z ks \<Rightarrow> 'z ks \<Rightarrow> bool" where
  "page_frame s s' \<longleftrightarrow> (\<exists>ps q. s' = s\<lparr>pages := ps, page_free_list := q\<rparr>)"

lemma page_frame_refl: "page_frame s s"
  unfolding page_frame_def by (rule exI [of _ "pages s"], rule exI [of _ "page_free_list s"]) simp

lemma page_frame_upd:
  "page_frame s t \<Longrightarrow> page_frame s (t\<lparr>pages := ps, page_free_list := q\<rparr>)"
  "page_frame s t \<Longrightarrow> page_frame s (t\<lparr>pages := ps\<rparr>)"
proof -
  assume "page_frame s t"
  then obtain ps' q' where "t = s\<lparr>pages := ps', page_free_list := q'\<rparr>"
    by (auto simp: page_frame_def)
  then have "t\<lparr>pages := ps, page_free_list := q\<rparr> = s\<lparr>pages := ps, page_free_list := q\<rparr>"
    "t\<lparr>pages := ps\<rparr> = s\<lparr>pages := ps, page_free_list := q'\<rparr>" by simp_all
  then show "page_frame s (t\<lparr>pages := ps, page_free_list := q\<rparr>)" "page_frame s (t\<lparr>pages := ps\<rparr>)"
    unfolding page_frame_def by blast+
qed

lemma page_frame_fields: "page_frame s t \<Longrightarrow> mem t = mem s \<and> npages t = npages s"
  by (auto simp: page_frame_def)

definition init_pages :: "u32 \<Rightarrow> nat \<Rightarrow> 'z ks \<Rightarrow> 'z ks \<Rightarrow> bool" where
  "init_pages ffa k s s' \<longleftrightarrow>
     page_frame s s' \<and> length (pages s') = length (pages s)
     \<and> linked (pages s') (page_free_list s') (rev (filter (usable_page ffa) [0..<k]))
     \<and> (\<forall>i < length (pages s). pp_ref (pages s' ! i) =
           (if i < k then (if usable_page ffa i then 0 else 1) else 0)
         \<and> (\<not> (i < k \<and> usable_page ffa i) \<longrightarrow> pp_link (pages s' ! i) = None))"

lemma page_info_set:
  "p\<lparr>pp_ref := r, pp_link := l\<rparr> = \<lparr>pp_link = l, pp_ref = r\<rparr>"
  "p\<lparr>pp_link := l, pp_ref := r\<rparr> = \<lparr>pp_link = l, pp_ref = r\<rparr>"
  by (rule page_info.equality; simp)+

lemma page_init_step_usable:
  assumes "i < 65536"
  shows "(i = 0 \<or> (of_nat i * PGSIZE \<ge> IOPHYSMEM \<and> of_nat i * PGSIZE \<le> ffa)) = (\<not> usable_page ffa i)"
proof -
  have "unat (of_nat i * PGSIZE) = i * 4096"
    using assms by (simp add: PGSIZE_def unat_word_ariths unat_of_nat)
  then show ?thesis by (auto simp: usable_page_def word_le_nat_alt IOPHYSMEM_def)
qed

lemma page_init_step_inv:
  assumes "init_pages ffa i s t" and "i < length (pages s)" and "i < 65536"
  shows "\<exists>t'. page_init_step ffa i t = Inr t' \<and> init_pages ffa (Suc i) s t'"
proof (cases "usable_page ffa i")
  case True
  let ?xs = "rev (filter (usable_page ffa) [0..<i])"
  have cond: "\<not> (i = 0 \<or> of_nat i * PGSIZE \<ge> IOPHYSMEM \<and> of_nat i * PGSIZE \<le> ffa)"
    using page_init_step_usable [OF assms(3), of ffa] True by simp
  let ?t = "t\<lparr>pages := (pages t)[i := \<lparr>pp_link = page_free_list t, pp_ref = 0\<rparr>], page_free_list := Some i\<rparr>"
  have len: "length (pages t) = length (pages s)" using assms(1) by (simp add: init_pages_def)
  have "page_init_step ffa i t = Inr ?t"
    using cond assms(2) len by (auto simp: page_init_step_def upd_page_def page_info_set)
  moreover have "i \<notin> set ?xs" by simp
  then have "linked (pages ?t) (page_free_list ?t) (i # ?xs)"
    using assms(1,2) len by (simp add: init_pages_def linked_upd)
  then have "init_pages ffa (Suc i) s ?t"
    using assms(1,2) len True
    by (simp add: init_pages_def nth_list_update less_Suc_eq page_frame_upd)
  ultimately show ?thesis by blast
next
  case False
  have cond: "i = 0 \<or> of_nat i * PGSIZE \<ge> IOPHYSMEM \<and> of_nat i * PGSIZE \<le> ffa"
    using page_init_step_usable [OF assms(3), of ffa] False by simp
  let ?t = "t\<lparr>pages := (pages t)[i := (pages t ! i)\<lparr>pp_ref := 1\<rparr>]\<rparr>"
  have len: "length (pages t) = length (pages s)" using assms(1) by (simp add: init_pages_def)
  have "page_init_step ffa i t = Inr ?t"
    using cond assms(2) len by (auto simp: page_init_step_def upd_page_def)
  moreover have "linked (pages ?t) (page_free_list ?t) (rev (filter (usable_page ffa) [0..<i]))"
    using assms(1) by (simp add: init_pages_def linked_upd)
  then have "init_pages ffa (Suc i) s ?t"
    using assms(1) len False
    by (simp add: init_pages_def nth_list_update less_Suc_eq page_frame_upd)
  ultimately show ?thesis by blast
qed

lemma page_init_loop:
  assumes "page_free_list s = None" and "\<forall>p \<in> set (pages s). p = \<lparr>pp_link = None, pp_ref = 0\<rparr>"
    and "k \<le> length (pages s)" and "k \<le> 65536"
  shows "\<exists>t. foldE (page_init_step ffa) [0..<k] s = Inr t \<and> init_pages ffa k s t"
  using assms(3,4)
proof (induction k)
  case 0
  have "\<forall>i < length (pages s). pages s ! i = \<lparr>pp_link = None, pp_ref = 0\<rparr>"
    using assms(2) nth_mem by blast
  then show ?case using assms(1) by (simp add: init_pages_def page_frame_refl)
next
  case (Suc k)
  then obtain t where t: "foldE (page_init_step ffa) [0..<k] s = Inr t" "init_pages ffa k s t"
    by auto
  from page_init_step_inv [OF t(2)] Suc.prems obtain t' where
    "page_init_step ffa k t = Inr t'" "init_pages ffa (Suc k) s t'" by auto
  then show ?case using t(1) by (simp add: foldE_append)
qed

lemma page_init_spec:
  fixes s :: "'z ks"
  assumes wf: "wf_pages s" and zero: "\<forall>p \<in> set (pages s). p = \<lparr>pp_link = None, pp_ref = 0\<rparr>"
    and ffa: "PADDR (fst (boot_alloc end_sym 0 s)) = Inr ffa"
  shows "\<exists>s'. page_init end_sym s = Inr s'
    \<and> free_inv s' (rev (filter (usable_page ffa) [0..<unat (npages s)]))
    \<and> (\<forall>i < unat (npages s). pp_ref (pages s' ! i) = (if usable_page ffa i then 0 else 1))
    \<and> mem s' = mem s \<and> npages s' = npages s"
proof -
  obtain kva s1 where b: "boot_alloc end_sym 0 (s\<lparr>page_free_list := None\<rparr>) = (kva, s1)"
    by fastforce
  have kv: "kva = fst (boot_alloc end_sym 0 s)"
    using b by (auto simp: boot_alloc_def Let_def split: if_splits)
  have s1: "page_free_list s1 = None" "pages s1 = pages s" "npages s1 = npages s" "mem s1 = mem s"
    using b by (auto simp: boot_alloc_def Let_def)
  have n: "unat (npages s) = length (pages s1)" "unat (npages s) \<le> 65536"
    using wf s1 by (simp_all add: wf_pages_def)
  obtain t where t: "foldE (page_init_step ffa) [0..<unat (npages s)] s1 = Inr t"
      "init_pages ffa (unat (npages s)) s1 t"
    using page_init_loop [of s1 "unat (npages s)" ffa] s1 zero n by auto
  then have t_fields: "mem t = mem s1" "npages t = npages s1"
    by (simp_all add: init_pages_def page_frame_fields)
  have "page_init end_sym s = Inr t"
    using b t(1) ffa kv s1 by (simp add: page_init_def Let_def)
  moreover have "free_inv t (rev (filter (usable_page ffa) [0..<unat (npages s)]))"
    using t(2) n s1 t_fields by (auto simp: init_pages_def free_inv_def wf_pages_def usable_page_def)
  moreover have "\<forall>i < unat (npages s). pp_ref (pages t ! i) = (if usable_page ffa i then 0 else 1)"
    using t(2) n by (simp add: init_pages_def)
  ultimately show ?thesis using t_fields s1 by auto
qed

section \<open>A small machine\<close>

text \<open>
  Five pages: page 0 reserved, page 1 in use, page 2 handed out and unused, pages 3 and 4
  free.
\<close>

definition demo :: kstate where
  "demo = \<lparr>mem = (\<lambda>_. 0), npages = 5, npages_basemem = 5, kern_pgdir = 0, pages_kva = 0,
     pages = [\<lparr>pp_link = None, pp_ref = 1\<rparr>, \<lparr>pp_link = None, pp_ref = 1\<rparr>,
       \<lparr>pp_link = None, pp_ref = 0\<rparr>, \<lparr>pp_link = Some 4, pp_ref = 0\<rparr>, \<lparr>pp_link = None, pp_ref = 0\<rparr>],
     page_free_list = Some 3, nextfree = 0, tlb = (\<lambda>_. None), cr3 = 0\<rparr>"

lemma demo_free: "free_inv demo [3, 4]"
  by (auto simp: demo_def free_inv_def wf_pages_def less_Suc_eq)

text \<open>A machine before \<open>page_init\<close>: the page array is cleared and nothing is free yet.\<close>

definition boot_demo :: kstate where
  "boot_demo = demo\<lparr>npages := 0x110, pages := replicate 0x110 \<lparr>pp_link = None, pp_ref = 0\<rparr>,
     page_free_list := None, nextfree := 0xF0105000\<rparr>"

section \<open>Contracts\<close>

text \<open>C17: \<open>page_init\<close> on a cleared page array builds a well-formed free list that holds, in
  decreasing order, every page except page 0 and the pages from the I/O hole up to and
  including the one that starts at the first address after the boot data; exactly the
  pages left out have reference count 1, and memory is not touched. This differs from what the
  comment asks for (\<open>documented_free\<close>) in two ways: the page that starts at the first free
  address is left out, and \<open>npages_basemem\<close> is ignored, so that the pages below the I/O hole
  that the base memory does not have are handed out as well.\<close>

theorem page_init_contract:
  fixes s :: "'z ks"
  assumes "wf_pages s" and "\<forall>p \<in> set (pages s). p = \<lparr>pp_link = None, pp_ref = 0\<rparr>"
    and "PADDR (fst (boot_alloc end_sym 0 s)) = Inr ffa"
  shows "\<exists>s'. page_init end_sym s = Inr s'
    \<and> free_inv s' (rev (filter (usable_page ffa) [0..<unat (npages s)]))
    \<and> (\<forall>i < unat (npages s). pp_ref (pages s' ! i) = (if usable_page ffa i then 0 else 1))
    \<and> (0x100000 \<le> unat ffa \<longrightarrow> (\<forall>i < unat (npages s). pp_ref (pages s' ! i) = 0 \<longleftrightarrow>
          (documented_free (unat (npages_basemem s)) ffa i \<and> i * 4096 \<noteq> unat ffa)
          \<or> (0 < i \<and> unat (npages_basemem s) \<le> i \<and> i * 4096 < 0xA0000)))
    \<and> mem s' = mem s \<and> npages s' = npages s"
proof -
  obtain s' where s': "page_init end_sym s = Inr s'"
    "free_inv s' (rev (filter (usable_page ffa) [0..<unat (npages s)]))"
    "\<forall>i < unat (npages s). pp_ref (pages s' ! i) = (if usable_page ffa i then 0 else 1)"
    "mem s' = mem s" "npages s' = npages s"
    using page_init_spec [OF assms] by blast
  then have "pp_ref (pages s' ! i) = 0 \<longleftrightarrow> usable_page ffa i" if "i < unat (npages s)" for i
    using that by simp
  then show ?thesis using s' usable_documented [of ffa _ "unat (npages_basemem s)"]
    by (intro exI [of _ s']) simp
qed

lemma page_init_contract_witness:
  "\<exists>s'. page_init 0 boot_demo = Inr s' \<and> pp_ref (pages s' ! 0x105) = 1 \<and> pp_ref (pages s' ! 0x106) = 0
    \<and> documented_free (unat (npages_basemem boot_demo)) 0x105000 0x105"
proof -
  have "PADDR (fst (boot_alloc 0 0 boot_demo)) = Inr 0x105000"
    by (simp add: boot_alloc_def boot_demo_def PADDR_def KERNBASE_def)
  moreover have n: "unat (npages boot_demo) = 272" by (simp add: boot_demo_def)
  moreover have "length (pages boot_demo) = 272" unfolding boot_demo_def by simp
  then have "wf_pages boot_demo" by (simp add: wf_pages_def n)
  moreover have "\<forall>p \<in> set (pages boot_demo). p = \<lparr>pp_link = None, pp_ref = 0\<rparr>"
  proof -
    have "pages boot_demo = replicate 0x110 \<lparr>pp_link = None, pp_ref = 0\<rparr>" unfolding boot_demo_def by simp
    then show ?thesis by (simp only: set_replicate_conv_if split: if_split) simp
  qed
  ultimately obtain s' where s': "page_init 0 boot_demo = Inr s'"
    "\<forall>i < 272. pp_ref (pages s' ! i) = (if usable_page 0x105000 i then 0 else 1)"
    using page_init_contract [of boot_demo 0 "0x105000"] by metis
  then show ?thesis using spec [OF s'(2), of 261] spec [OF s'(2), of 262] by (simp add: usable_page_def documented_free_def)
qed

text \<open>C9: \<open>page_alloc\<close> returns null and changes nothing when no page is free, and otherwise
  returns the first free page, with no references and a null link, off the free list and,
  for a nonzero flag, cleared in memory without touching another page; \<open>page_free\<close> puts it
  back so that the free list is the one before.\<close>

theorem page_alloc_free_contract:
  assumes "free_inv s xs"
  shows "case xs of [] \<Rightarrow> page_alloc flags s = Inr (None, s)
    | x # ys \<Rightarrow> \<exists>s' s''. page_alloc flags s = Inr (Some x, s') \<and> free_inv s' ys \<and> x \<notin> set ys
        \<and> pages s' ! x = \<lparr>pp_link = None, pp_ref = 0\<rparr>
        \<and> mem s' = (if flags \<noteq> 0 then fill (mem s) (page2pa x) 4096 0 else mem s)
        \<and> page_free x s' = Inr s'' \<and> free_inv s'' xs \<and> mem s'' = mem s'"
proof (cases xs)
  case Nil
  then show ?thesis using page_alloc_Nil [of s flags] assms by simp
next
  case (Cons x ys)
  let ?s = "alloc_state flags x s"
  note inv = assms [unfolded Cons]
  have idle: "idle_page ?s x" by (rule alloc_state_inv(3) [OF inv])
  have "free_inv (free_state x ?s) xs"
    using free_state_inv [OF alloc_state_inv(1) [OF inv] idle alloc_state_inv(2) [OF inv]] Cons by simp
  then show ?thesis
    using Cons page_alloc_Cons [OF inv, of flags] alloc_state_inv [OF inv] idle page_free_idle [OF idle]
    by (simp add: idle_page_def) (simp add: alloc_state_def free_state_def)
qed

lemma page_alloc_free_contract_witness:
  "\<exists>s' s''. page_alloc 1 demo = Inr (Some 3, s') \<and> free_inv s' [4] \<and> page_free 3 s' = Inr s''
     \<and> free_inv s'' [3, 4]"
  using page_alloc_free_contract [OF demo_free, of 1] by auto

text \<open>Taking any number of pages and releasing them in the opposite order leaves the
  free list as it was: the pages handed out are distinct, in free-list order, and stop
  where memory runs out.\<close>

theorem take_release_round_trip:
  fixes s :: "'z ks"
  assumes "free_inv s xs"
  shows "\<exists>s' s''. take_pages (page_alloc flags) n s = Inr (take n xs, s') \<and> free_inv s' (drop n xs)
    \<and> foldE page_free (rev (take n xs)) s' = Inr s'' \<and> free_inv s'' xs"
  by (rule pa.take_then_release [OF assms])

lemma take_release_round_trip_witness:
  "\<exists>s' s''. take_pages (page_alloc 0) 5 demo = Inr ([3, 4], s')
     \<and> foldE page_free [4, 3] s' = Inr s'' \<and> free_inv s'' [3, 4]"
  using take_release_round_trip [OF demo_free, of 0 5] by auto

text \<open>Freeing a page that is already free is caught by the panic of \<open>page_free\<close> for
  every page of the free list but the last one: that one is accepted again and from then
  on the list does not end.\<close>

theorem page_double_free:
  assumes "free_inv s xs" and "x \<in> set xs"
  shows "if x = last xs
    then \<exists>s'. page_free x s = Inr s' \<and> page_free_list s' = Some x
      \<and> (\<nexists>ys. linked (pages s') (page_free_list s') ys)
    else page_free x s = Inl (Panic (''This page is being used!'' @ [CHR 0x0A]))"
proof (cases "x = last xs")
  case False
  then show ?thesis using page_free_again [OF assms] by simp
next
  case True
  let ?s = "free_state x s"
  obtain as where as: "xs = as @ [x]"
    using True assms(2) by (metis append_butlast_last_id empty_iff empty_set)
  have x: "x < length (pages s)" using free_inv_bound [OF assms] .
  have "linked (pages s) (page_free_list s) (as @ [x])" "x \<notin> set as"
    using assms(1) as free_inv_distinct [OF assms(1)] by (simp_all add: free_inv_def)
  note through = linked_through [OF this]
  have "\<not> linked (pages ?s) (page_free_list ?s) ys" for ys
  proof
    assume l: "linked (pages ?s) (page_free_list ?s) ys"
    then obtain ys' where ys: "ys = x # ys'" by (cases ys) (auto simp: free_state_def)
    then have "linked (pages ?s) (page_free_list s) ys'" using l x by (simp add: free_state_def)
    then obtain ws where "ys' = as @ ws" "linked (pages ?s) (Some x) ws"
      using through by (auto simp: free_state_def)
    then show False using linked_det [OF l, of ws] ys by (simp add: free_state_def)
  qed
  moreover have "page_free_list ?s = Some x" by (simp add: free_state_def)
  ultimately show ?thesis using True page_free_again [OF assms] by auto
qed

lemma page_double_free_witness:
  "\<exists>s'. page_free 4 demo = Inr s' \<and> page_free_list s' = Some 4"
  using page_double_free [OF demo_free, of 4] by auto

text \<open>Successive chunks of \<open>boot_alloc\<close> are page-aligned, at least as large as asked for
  and do not overlap, as long as the pointer stays below the end of the address space.\<close>

theorem boot_alloc_disjoint:
  assumes "nextfree s \<noteq> 0" and "page_aligned (nextfree s)"
    and "unat (nextfree s) + unat n + unat k + 8192 \<le> 2 ^ 32"
    and "boot_alloc end_sym n s = (a, s1)" and "boot_alloc end_sym k s1 = (b, s2)"
  shows "page_aligned a \<and> page_aligned b \<and> unat a + unat n \<le> unat b
    \<and> unat b + unat k \<le> unat (nextfree s2) \<and> unat b < unat a + unat n + 4096"
proof -
  note one = boot_alloc_chunk [OF assms(1,2), of n end_sym]
  have s1: "page_aligned (nextfree s1)" "unat (nextfree s) + unat n \<le> unat (nextfree s1)"
    "unat (nextfree s1) < unat (nextfree s) + unat n + 4096" "a = nextfree s"
    using one assms(3,4) by simp_all
  have nz: "nextfree s1 \<noteq> 0" using s1(2) assms(1) by (auto simp: unat_eq_0)
  have "unat (nextfree s1) + unat k + 4096 \<le> 2 ^ 32" using s1(3) assms(3) by linarith
  note two = boot_alloc_chunk [OF nz s1(1) this, of end_sym]
  have "b = nextfree s1" "unat (nextfree s1) + unat k \<le> unat (nextfree s2)"
    using two(1,3) assms(5) by simp_all
  then show ?thesis using s1 assms(2) by simp
qed

lemma boot_alloc_disjoint_witness:
  "\<exists>a b s1 s2. boot_alloc 0 5000 boot_demo = (a, s1) \<and> boot_alloc 0 1 s1 = (b, s2) \<and> unat a + 5000 \<le> unat b"
proof -
  have "nextfree boot_demo \<noteq> 0" "page_aligned (nextfree boot_demo)"
    "unat (nextfree boot_demo) + unat (5000 :: u32) + unat (1 :: u32) + 8192 \<le> 2 ^ 32"
    by (simp_all add: boot_demo_def)
  note h = this
  obtain a s1 where a: "boot_alloc 0 5000 boot_demo = (a, s1)" by fastforce
  obtain b s2 where b: "boot_alloc 0 1 s1 = (b, s2)" by fastforce
  show ?thesis using boot_alloc_disjoint [OF h a b] a b by auto
qed

end
