(* ===== verification/PageTable.thy ===== *)
theory PageTable
  imports PageAlloc
begin

text \<open>
  The two-level page tables of \<^verbatim>\<open>kern/pmap.c\<close>: \<open>pgdir_walk\<close>, \<open>boot_map_region\<close>,
  \<open>page_lookup\<close>, \<open>page_remove\<close>, \<open>page_insert\<close>, \<open>tlb_invalidate\<close> and \<open>check_va2pa\<close>, as the
  code has them, on raw physical memory; then the view of that memory as an array of
  page-table entries indexed by frame and slot, which the correctness proofs use.
\<close>

section \<open>The operations\<close>

definition E_UNSPECIFIED :: int where "E_UNSPECIFIED = 1"
definition E_BAD_ENV :: int where "E_BAD_ENV = 2"
definition E_INVAL :: int where "E_INVAL = 3"
definition E_NO_MEM :: int where "E_NO_MEM = 4"
definition E_NO_FREE_ENV :: int where "E_NO_FREE_ENV = 5"
definition E_FAULT :: int where "E_FAULT = 6"
definition MAXERROR :: int where "MAXERROR = 7"

text \<open>A \<^verbatim>\<open>pte_t *\<close> is a kernel virtual address, 0 the null pointer.\<close>

definition pgdir_walk :: "u32 \<Rightarrow> u32 \<Rightarrow> bool \<Rightarrow> 'z ks \<Rightarrow> kerr + (u32 \<times> 'z ks)" where
  "pgdir_walk pgdir va create s =
     (let pdx = PDX va; ptx = PTX va; page_dir_entry = pgdir + 4 * pdx in
      bindE (kload s page_dir_entry) (\<lambda>pde.
      if present pde then
        bindE (KADDR s (PTE_ADDR pde)) (\<lambda>page_table_entry. Inr (page_table_entry + 4 * ptx, s))
      else if \<not> create then Inr (0, s)
      else bindE (page_alloc 1 s) (\<lambda>(pp, s). case pp of
          None \<Rightarrow> Inr (0, s)
        | Some pp \<Rightarrow>
            bindE (page2kva s pp) (\<lambda>page_table_entry.
            bindE (upd_page pp (\<lambda>p. p\<lparr>pp_ref := pp_ref p + 1\<rparr>) s) (\<lambda>s.
            bindE (PADDR page_table_entry) (\<lambda>pa.
            bindE (kstore page_dir_entry (pa OR PTE_P OR PTE_W OR PTE_U) s) (\<lambda>s.
            Inr (page_table_entry + 4 * ptx, s))))))))"

fun boot_map_loop :: "nat \<Rightarrow> u32 \<Rightarrow> u32 \<Rightarrow> u32 \<Rightarrow> u32 \<Rightarrow> 'z ks \<Rightarrow> kerr + 'z ks" where
  "boot_map_loop 0 pgdir va pa perm s = Inr s"
| "boot_map_loop (Suc k) pgdir va pa perm s =
     bindE (pgdir_walk pgdir va True s) (\<lambda>(pte, s).
     if pte = 0 then Inl (Panic (''boot_map_region:out ouf memory!'' @ [CHR 0x0A]))
     else bindE (kstore pte (pa OR PTE_P OR perm) s) (\<lambda>s.
          boot_map_loop k pgdir (va + PGSIZE) (pa + PGSIZE) perm s))"

definition boot_map_region ::
    "u32 \<Rightarrow> u32 \<Rightarrow> u32 \<Rightarrow> u32 \<Rightarrow> u32 \<Rightarrow> 'z ks \<Rightarrow> kerr + 'z ks" where
  "boot_map_region pgdir va sz pa perm s =
     (let numpage = sz div PGSIZE;
          numpage = (if sz mod PGSIZE \<noteq> 0 then numpage + 1 else numpage)
      in boot_map_loop (unat numpage) pgdir va pa perm s)"

text \<open>
  \<open>page_lookup\<close> returns the page and the address it stores through \<^verbatim>\<open>pte_store\<close>; \<open>None\<close>
  is the null result, with nothing stored.
\<close>

definition page_lookup :: "u32 \<Rightarrow> u32 \<Rightarrow> 'z ks \<Rightarrow> kerr + ((nat \<times> u32) option \<times> 'z ks)" where
  "page_lookup pgdir va s =
     bindE (pgdir_walk pgdir va False s) (\<lambda>(pt, s).
     if pt = 0 then Inr (None, s)
     else bindE (kload s pt) (\<lambda>pte.
          bindE (pa2page s (PTE_ADDR pte)) (\<lambda>pp. Inr (Some (pp, pt), s))))"

text \<open>The instruction \<^verbatim>\<open>invlpg\<close> drops the cached translation of one page.\<close>

definition invlpg :: "u32 \<Rightarrow> 'z ks \<Rightarrow> 'z ks" where
  "invlpg addr s = s\<lparr>tlb := (tlb s)(PGNUM addr := None)\<rparr>"

definition tlb_invalidate :: "u32 \<Rightarrow> u32 \<Rightarrow> 'z ks \<Rightarrow> 'z ks" where
  "tlb_invalidate pgdir va s = invlpg va s"

definition page_remove :: "u32 \<Rightarrow> u32 \<Rightarrow> 'z ks \<Rightarrow> kerr + 'z ks" where
  "page_remove pgdir va s =
     bindE (page_lookup pgdir va s) (\<lambda>(r, s). case r of
       None \<Rightarrow> Inr s
     | Some (pageinfo, pt) \<Rightarrow>
         bindE (page_decref pageinfo s) (\<lambda>s.
         bindE (kstore pt 0 s) (\<lambda>s.
         Inr (tlb_invalidate pgdir va s))))"

definition page_insert :: "u32 \<Rightarrow> nat \<Rightarrow> u32 \<Rightarrow> u32 \<Rightarrow> 'z ks \<Rightarrow> kerr + (int \<times> 'z ks)" where
  "page_insert pgdir pp va perm s =
     bindE (pgdir_walk pgdir va True s) (\<lambda>(pt, s).
     if pt = 0 then Inr (- E_NO_MEM, s)
     else bindE (upd_page pp (\<lambda>p. p\<lparr>pp_ref := pp_ref p + 1\<rparr>) s) (\<lambda>s.
          bindE (kload s pt) (\<lambda>pte.
          bindE (if present pte then page_remove pgdir va s else Inr s) (\<lambda>s.
          bindE (kstore pt (page2pa pp OR perm OR PTE_P) s) (\<lambda>s.
          Inr (0, s))))))"

definition check_va2pa :: "u32 \<Rightarrow> u32 \<Rightarrow> 'z ks \<Rightarrow> kerr + u32" where
  "check_va2pa pgdir va s =
     bindE (kload s (pgdir + 4 * PDX va)) (\<lambda>pde.
     if \<not> present pde then Inr (NOT 0)
     else bindE (KADDR s (PTE_ADDR pde)) (\<lambda>p.
          bindE (kload s (p + 4 * PTX va)) (\<lambda>pte.
          if \<not> present pte then Inr (NOT 0) else Inr (PTE_ADDR pte))))"

section \<open>Memory as frames of entries\<close>

definition entry :: "memory \<Rightarrow> nat \<Rightarrow> nat \<Rightarrow> u32" where
  "entry m f i = load32 m (page2pa f + 4 * of_nat i)"

definition set_entry :: "nat \<Rightarrow> nat \<Rightarrow> u32 \<Rightarrow> memory \<Rightarrow> memory" where
  "set_entry f i v m = store32 m (page2pa f + 4 * of_nat i) v"

lemma unat_slot:
  assumes "f < 2 ^ 20" and "i < 1024" and "j < 4"
  shows "unat (page2pa f + 4 * of_nat i + of_nat j) = f * 4096 + 4 * i + j"
proof -
  have *: "page2pa f + 4 * of_nat i + of_nat j = (of_nat (f * 4096 + 4 * i + j) :: u32)"
    by (simp add: page2pa_def push_bit_eq_mult mult.commute)
  have "f * 4096 + 4 * i + j < 2 ^ 32" using assms by simp
  then show ?thesis unfolding * by (intro unat_of_nat_small) simp
qed

lemma slot_eq:
  assumes "f < 2 ^ 20" "i < 1024" "j < 4" "g < 2 ^ 20" "k < 1024" "l < 4"
  shows "page2pa f + 4 * of_nat i + of_nat j = (page2pa g + 4 * of_nat k + of_nat l :: u32)
    \<longleftrightarrow> f = g \<and> i = k \<and> j = l"
proof
  assume "page2pa f + 4 * of_nat i + of_nat j = (page2pa g + 4 * of_nat k + of_nat l :: u32)"
  then have "unat (page2pa f + 4 * of_nat i + of_nat j :: u32)
      = unat (page2pa g + 4 * of_nat k + of_nat l :: u32)" by (rule arg_cong)
  then have e: "f * 4096 + (4 * i + j) = g * 4096 + (4 * k + l)"
    using assms by (simp add: unat_slot)
  have "4 * i + j < 4096" "4 * k + l < 4096" using assms by simp_all
  then have "f = (f * 4096 + (4 * i + j)) div 4096" "g = (g * 4096 + (4 * k + l)) div 4096"
    by simp_all
  then have fg: "f = g" using e by simp
  with e have r: "4 * i + j = 4 * k + l" by simp
  have "i = (4 * i + j) div 4" "k = (4 * k + l) div 4" using assms(3,6) by simp_all
  then have "i = k" using r by simp
  then show "f = g \<and> i = k \<and> j = l" using fg r by simp
qed simp

lemma entry_set_entry:
  assumes "f < 2 ^ 20" "i < 1024" "g < 2 ^ 20" "k < 1024"
  shows "entry (set_entry f i v m) g k = (if f = g \<and> i = k then v else entry m g k)"
proof (cases "f = g \<and> i = k")
  case True
  then show ?thesis by (simp add: entry_def set_entry_def)
next
  case False
  have "store32 m (page2pa f + 4 * of_nat i) v (page2pa g + 4 * of_nat k + of_nat l)
      = m (page2pa g + 4 * of_nat k + of_nat l)" if "l < 4" for l
  proof (rule store32_outside)
    have "page2pa g + 4 * of_nat k + of_nat l \<noteq> (page2pa f + 4 * of_nat i + of_nat j :: u32)"
      if "j < 4" for j
      using slot_eq [OF assms(3,4) \<open>l < 4\<close> assms(1,2) that] False by auto
    from this [of 0] this [of 1] this [of 2] this [of 3]
    show "\<not> in_range (page2pa f + 4 * of_nat i) 4 (page2pa g + 4 * of_nat k + of_nat l)"
      by (simp add: in_range_4)
  qed
  from this [of 0] this [of 1] this [of 2] this [of 3] show ?thesis
    using False unfolding entry_def set_entry_def
    by (subst if_not_P) (auto intro: load32_cong)
qed

lemma in_frame:
  assumes "f < 2 ^ 20" "g < 2 ^ 20" "k < 1024" "l < 4"
  shows "in_range (page2pa f) 4096 (page2pa g + 4 * of_nat k + of_nat l) \<longleftrightarrow> f = g"
proof (cases "f = g")
  case True
  have "unat (4 * of_nat k + of_nat l :: u32) = 4 * k + l"
    using assms(3,4) unat_slot [of 0 k l] by (simp add: page2pa_def)
  then show ?thesis using True assms(3,4) by (simp add: in_range_def)
next
  case False
  have a: "unat (page2pa g + 4 * of_nat k + of_nat l :: u32) = g * 4096 + 4 * k + l"
    using assms(2-4) by (rule unat_slot)
  have b: "unat (page2pa f) = f * 4096" using assms(1) by (rule unat_page2pa)
  have "\<not> in_range (page2pa f) 4096 (page2pa g + 4 * of_nat k + of_nat l)"
    using False assms
    by (simp add: in_range_def unat_sub_if_size a b word_size not_less) linarith
  then show ?thesis using False by simp
qed

lemma entry_fill:
  assumes "f < 2 ^ 20" "g < 2 ^ 20" "k < 1024"
  shows "entry (fill m (page2pa f) 4096 0) g k = (if f = g then 0 else entry m g k)"
    "f \<noteq> g \<Longrightarrow> entry (fill m (page2pa f) 4096 c) g k = entry m g k"
  using in_frame [OF assms, of 0] in_frame [OF assms, of 1] in_frame [OF assms, of 2] in_frame [OF assms, of 3]
  by (simp_all add: entry_def load32_def fill_def)

end
