(* ===== verification/AddressSpace.thy ===== *)
theory AddressSpace
  imports PageTable
begin

text \<open>
  Correctness of the page-table operations. \<open>pte_at m pd d t\<close> is the entry the processor
  finds when it walks the directory in frame \<open>pd\<close> with directory index \<open>d\<close> and table index
  \<open>t\<close>. \<open>wf_pd\<close> says that the page tables of a directory are frames of their own;
  \<open>vm_inv\<close> adds that every reference count is the number of entries that hold the page,
  plus the references held elsewhere. The lemmas give each operation's effect on
  \<open>pte_at\<close>, on the counts and on the TLB.
\<close>

section \<open>The processor's view of a page directory\<close>

definition frame_of :: "u32 \<Rightarrow> nat" where "frame_of e = unat (PGNUM e)"

definition UVPT_D :: nat where "UVPT_D = 957"
definition UTOP_D :: nat where "UTOP_D = 955"

abbreviation pdi :: "u32 \<Rightarrow> nat" where "pdi va \<equiv> unat (PDX va)"
abbreviation pti :: "u32 \<Rightarrow> nat" where "pti va \<equiv> unat (PTX va)"
abbreviation kva :: "nat \<Rightarrow> u32" where "kva f \<equiv> page2pa f + KERNBASE"

lemma UVPT_D_eq: "UVPT_D = pdi UVPT" and UTOP_D_eq: "UTOP_D = pdi UTOP"
  by (simp_all add: UVPT_D_def UTOP_D_def unat_PDX layout)

definition pte_at :: "memory \<Rightarrow> nat \<Rightarrow> nat \<Rightarrow> nat \<Rightarrow> u32" where
  "pte_at m pd d t = (let e = entry m pd d in if present e then entry m (frame_of e) t else 0)"

definition wf_pd :: "'z ks \<Rightarrow> nat list \<Rightarrow> nat \<Rightarrow> bool" where
  "wf_pd s xs pd \<longleftrightarrow> free_inv s xs \<and> pd < length (pages s) \<and> pd \<notin> set xs
     \<and> (\<forall>d < 1024. present (entry (mem s) pd d) \<longrightarrow>
          frame_of (entry (mem s) pd d) < length (pages s)
          \<and> frame_of (entry (mem s) pd d) \<notin> set xs
          \<and> (d = UVPT_D \<longleftrightarrow> frame_of (entry (mem s) pd d) = pd))
     \<and> (\<forall>d < 1024. \<forall>d' < 1024. d \<noteq> d' \<longrightarrow> d \<noteq> UVPT_D \<longrightarrow> d' \<noteq> UVPT_D
          \<longrightarrow> present (entry (mem s) pd d) \<longrightarrow> present (entry (mem s) pd d')
          \<longrightarrow> frame_of (entry (mem s) pd d) \<noteq> frame_of (entry (mem s) pd d'))"

lemma PGNUM_PTE_ADDR [simp]: "PGNUM (PTE_ADDR e) = PGNUM e"
  by (rule bit_word_eqI)
    (auto simp: PGNUM_def PTE_ADDR_def word_mask_numerals bit_simps dest: bit_imp_le_length)

lemma page2pa_frame_of: "page2pa (frame_of e) = PTE_ADDR e"
  using page2pa_PGNUM [of "PTE_ADDR e"] by (simp add: frame_of_def)

lemma frame_of_page: "f < 4096 \<Longrightarrow> pp < 2 ^ 20 \<Longrightarrow> frame_of (page2pa pp OR f) = pp"
  by (metis PGNUM_PTE_ADDR PGNUM_page2pa PTE_ADDR_or frame_of_def page2pa_aligned)

lemma wf_pages_lt: "wf_pages s \<Longrightarrow> i < length (pages s) \<Longrightarrow> i < 65536"
  by (simp add: wf_pages_def)

lemma KADDR_frame:
  "wf_pages s \<Longrightarrow> frame_of e < length (pages s) \<Longrightarrow> KADDR s (PTE_ADDR e) = Inr (kva (frame_of e))"
  by (simp add: KADDR_def page2pa_frame_of, simp add: frame_of_def wf_pages_def word_le_nat_alt)

lemma pa2page_frame:
  "wf_pages s \<Longrightarrow> frame_of e < length (pages s) \<Longrightarrow> pa2page s (PTE_ADDR e) = Inr (frame_of e)"
  by (simp add: pa2page_def frame_of_def wf_pages_def word_le_nat_alt)

lemma unat_entry_addr:
  "f < 65536 \<Longrightarrow> i < 1024 \<Longrightarrow> unat (page2pa f + 4 * of_nat i) < 268435456"
  using unat_slot [of f i 0] by simp

lemma kload_entry:
  "f < 65536 \<Longrightarrow> i < 1024 \<Longrightarrow> kload s (kva f + 4 * of_nat i) = Inr (entry (mem s) f i)"
  using kload_kva [OF unat_entry_addr, of f i s] by (simp add: entry_def algebra_simps)

lemma kstore_entry:
  "f < 65536 \<Longrightarrow> i < 1024 \<Longrightarrow>
     kstore (kva f + 4 * of_nat i) v s = Inr (s\<lparr>mem := set_entry f i v (mem s)\<rparr>)"
  using kstore_kva [OF unat_entry_addr, of f i v s] by (simp add: set_entry_def algebra_simps)

lemma slot_nonzero:
  assumes "f < 65536" and "i < 1024"
  shows "kva f + 4 * of_nat i \<noteq> 0"
proof
  assume "kva f + 4 * of_nat i = 0"
  then have "(page2pa f + 4 * of_nat i) + KERNBASE = 0" by (simp add: algebra_simps)
  then show False using kva_above [OF unat_entry_addr [OF assms]] by (simp add: KERNBASE_def)
qed

section \<open>Walking\<close>

text \<open>The state after \<open>pgdir_walk\<close> put the fresh page \<open>x\<close> in directory slot \<open>d\<close>.\<close>

definition walk_state :: "nat \<Rightarrow> nat \<Rightarrow> nat \<Rightarrow> 'z ks \<Rightarrow> 'z ks" where
  "walk_state x pd d s = s\<lparr>
     mem := set_entry pd d (page2pa x OR PTE_P OR PTE_W OR PTE_U) (fill (mem s) (page2pa x) 4096 0),
     pages := (pages s)[x := \<lparr>pp_link = None, pp_ref = 1\<rparr>],
     page_free_list := pp_link (pages s ! x)\<rparr>"

lemma walk_present:
  assumes "wf_pd s xs pd" and "present (entry (mem s) pd (pdi va))"
  shows "pgdir_walk (kva pd) va create s
    = Inr (kva (frame_of (entry (mem s) pd (pdi va))) + 4 * of_nat (pti va), s)"
proof -
  have wf: "wf_pages s" and pd: "pd < 65536"
    using assms(1) wf_pages_lt by (auto simp: wf_pd_def)
  have "kload s (kva pd + 4 * PDX va) = Inr (entry (mem s) pd (pdi va))"
    using kload_entry [OF pd PDX_bound, of s va] by simp
  moreover have "frame_of (entry (mem s) pd (pdi va)) < length (pages s)"
    using assms PDX_bound by (simp add: wf_pd_def)
  ultimately show ?thesis using wf assms(2) by (simp add: pgdir_walk_def KADDR_frame)
qed

lemma walk_absent_no_create:
  assumes "wf_pd s xs pd" and "\<not> present (entry (mem s) pd (pdi va))"
  shows "pgdir_walk (kva pd) va False s = Inr (0, s)"
proof -
  have "pd < 65536" using assms(1) wf_pages_lt by (auto simp: wf_pd_def)
  from kload_entry [OF this PDX_bound, of s va] show ?thesis
    using assms(2) by (simp add: pgdir_walk_def)
qed

lemma walk_no_memory:
  assumes "wf_pd s [] pd" and "\<not> present (entry (mem s) pd (pdi va))"
  shows "pgdir_walk (kva pd) va True s = Inr (0, s)"
proof -
  have "pd < 65536" and "free_inv s []" using assms(1) wf_pages_lt by (auto simp: wf_pd_def)
  with kload_entry [OF this(1) PDX_bound, of s va] show ?thesis
    using assms(2) by (simp add: pgdir_walk_def page_alloc_Nil)
qed

lemma walk_create:
  assumes "wf_pd s (x # xs) pd" and "\<not> present (entry (mem s) pd (pdi va))"
  shows "pgdir_walk (kva pd) va True s
    = Inr (kva x + 4 * of_nat (pti va), walk_state x pd (pdi va) s)"
proof -
  have pd: "pd < 65536" and inv: "free_inv s (x # xs)"
    using assms(1) wf_pages_lt by (auto simp: wf_pd_def)
  let ?a = "alloc_state 1 x s"
  have x: "x < length (pages s)" using free_inv_bound [OF inv] by simp
  have wfa: "wf_pages ?a" "x < length (pages ?a)"
    using inv x by (auto simp: free_inv_def alloc_state_def wf_pages_def)
  have x16: "x < 65536" using wf_pages_lt [OF wfa] .
  have ref0: "pp_ref (pages s ! x) = 0" using inv by (auto simp: free_inv_def)
  have load: "kload s (kva pd + 4 * PDX va) = Inr (entry (mem s) pd (pdi va))"
    using kload_entry [OF pd PDX_bound, of s va] by simp
  have store: "kstore (kva pd + 4 * PDX va) v t = Inr (t\<lparr>mem := set_entry pd (pdi va) v (mem t)\<rparr>)"
    for v and t :: "'a ks"
    using kstore_entry [OF pd PDX_bound, of va v t] by simp
  have pad: "PADDR (kva x) = Inr (page2pa x)"
    using page2pa_bound [OF wfa] by (intro PADDR_kva) simp
  show ?thesis
    using load assms(2) x wfa page_alloc_Cons [OF inv, of 1] page2kva_Inr [OF wfa]
    by (simp add: pgdir_walk_def upd_page_def pad store Let_def)
      (simp add: walk_state_def alloc_state_def ref0 or.assoc page_info_set)
qed

section \<open>Effects on entries\<close>

abbreviation new_pde :: "nat \<Rightarrow> u32" where
  "new_pde x \<equiv> page2pa x OR PTE_P OR PTE_W OR PTE_U"

lemma new_pde: "present (new_pde x)" "x < 65536 \<Longrightarrow> frame_of (new_pde x) = x"
proof -
  show "present (new_pde x)" unfolding present_iff_bit by (simp add: PTE_P_def bit_simps)
  have "new_pde x = page2pa x OR 7" by (simp add: layout or.assoc)
  then show "x < 65536 \<Longrightarrow> frame_of (new_pde x) = x" by (simp add: frame_of_page)
qed

lemma wf_pdD:
  assumes "wf_pd s xs pd"
  shows "free_inv s xs" "wf_pages s" "pd < length (pages s)" "pd < 65536" "pd \<notin> set xs"
    and "\<And>d. d < 1024 \<Longrightarrow> present (entry (mem s) pd d) \<Longrightarrow> frame_of (entry (mem s) pd d) < 65536"
    and "\<And>d. d < 1024 \<Longrightarrow> present (entry (mem s) pd d) \<Longrightarrow>
      frame_of (entry (mem s) pd d) < length (pages s)"
    and "\<And>d. d < 1024 \<Longrightarrow> present (entry (mem s) pd d) \<Longrightarrow> frame_of (entry (mem s) pd d) \<notin> set xs"
    and "\<And>d. d < 1024 \<Longrightarrow> d \<noteq> UVPT_D \<Longrightarrow> present (entry (mem s) pd d) \<Longrightarrow>
      frame_of (entry (mem s) pd d) \<noteq> pd"
    and "\<And>d d'. d < 1024 \<Longrightarrow> d' < 1024 \<Longrightarrow> d \<noteq> d' \<Longrightarrow> d \<noteq> UVPT_D \<Longrightarrow> d' \<noteq> UVPT_D
      \<Longrightarrow> present (entry (mem s) pd d) \<Longrightarrow> present (entry (mem s) pd d')
      \<Longrightarrow> frame_of (entry (mem s) pd d) \<noteq> frame_of (entry (mem s) pd d')"
    and "present (entry (mem s) pd UVPT_D) \<Longrightarrow> frame_of (entry (mem s) pd UVPT_D) = pd"
proof -
  have *: "free_inv s xs" "pd < length (pages s)" "pd \<notin> set xs"
    "\<And>d. d < 1024 \<Longrightarrow> present (entry (mem s) pd d) \<Longrightarrow>
      frame_of (entry (mem s) pd d) < length (pages s)
      \<and> frame_of (entry (mem s) pd d) \<notin> set xs
      \<and> (d = UVPT_D \<longleftrightarrow> frame_of (entry (mem s) pd d) = pd)"
    using assms unfolding wf_pd_def by blast+
  then show inv: "free_inv s xs" and wf: "wf_pages s" and pd: "pd < length (pages s)"
    and "pd \<notin> set xs" by (simp_all add: free_inv_def)
  show "pd < 65536" using wf_pages_lt [OF wf pd] .
  show "frame_of (entry (mem s) pd d) < 65536" if "d < 1024" "present (entry (mem s) pd d)" for d
    using wf_pages_lt [OF wf] *(4) [OF that] by blast
  show "frame_of (entry (mem s) pd d) < length (pages s)" "frame_of (entry (mem s) pd d) \<notin> set xs"
    if "d < 1024" "present (entry (mem s) pd d)" for d
    using *(4) [OF that] by blast+
  show "frame_of (entry (mem s) pd d) \<noteq> pd"
    if "d < 1024" "d \<noteq> UVPT_D" "present (entry (mem s) pd d)" for d
    using *(4) [OF that(1,3)] that(2) by blast
  show "frame_of (entry (mem s) pd UVPT_D) = pd" if "present (entry (mem s) pd UVPT_D)"
  proof -
    have "UVPT_D < 1024" by (simp add: UVPT_D_def)
    from *(4) [OF this that] show ?thesis by blast
  qed
  show "frame_of (entry (mem s) pd d) \<noteq> frame_of (entry (mem s) pd d')"
    if "d < 1024" "d' < 1024" "d \<noteq> d'" "d \<noteq> UVPT_D" "d' \<noteq> UVPT_D"
      "present (entry (mem s) pd d)" "present (entry (mem s) pd d')" for d d'
    using assms that unfolding wf_pd_def by blast
qed

lemma wf_pd_head:
  assumes "wf_pd s (x # xs) pd"
  shows "x < length (pages s)" "x < 65536" "x \<notin> set xs" "x \<noteq> pd" "0 < x"
proof -
  note D = wf_pdD [OF assms]
  show len: "x < length (pages s)" using free_inv_bound [OF D(1)] by simp
  show "x < 65536" using wf_pages_lt [OF D(2) len] .
  show "x \<notin> set xs" using free_inv_distinct [OF D(1)] by simp
  show "x \<noteq> pd" using D(5) by auto
  show "0 < x" using D(1) by (auto simp: free_inv_def)
qed

lemma walk_state_entry:
  assumes "wf_pd s (x # xs) pd" and "d < 1024" and "f < 65536" and "i < 1024"
  shows "entry (mem (walk_state x pd d s)) f i =
    (if f = pd \<and> i = d then new_pde x else if f = x then 0 else entry (mem s) f i)"
  using wf_pd_head [OF assms(1)] wf_pdD(4) [OF assms(1)] assms(2-)
  by (auto simp: walk_state_def entry_set_entry entry_fill)

lemma walk_state_free_inv:
  assumes "free_inv s (x # xs)"
  shows "free_inv (walk_state x pd d s) xs"
proof -
  have "x \<notin> set xs" using free_inv_distinct [OF assms] by simp
  then show ?thesis
    using assms by (auto simp: free_inv_def walk_state_def linked_upd nth_list_update wf_pages_def)
qed

lemma walk_state_wf:
  assumes "wf_pd s (x # xs) pd" and "d < 1024" and "\<not> present (entry (mem s) pd d)"
    and "d \<noteq> UVPT_D"
  shows "wf_pd (walk_state x pd d s) xs pd"
proof -
  note D = wf_pdD [OF assms(1)]
  note x = wf_pd_head [OF assms(1)]
  have ent: "entry (mem (walk_state x pd d s)) pd i = (if i = d then new_pde x else entry (mem s) pd i)"
    if "i < 1024" for i
    using walk_state_entry [OF assms(1,2) D(4) that] x by simp
  have len: "length (pages (walk_state x pd d s)) = length (pages s)"
    by (simp add: walk_state_def)
  show ?thesis
    unfolding wf_pd_def len
    using walk_state_free_inv [OF D(1)] D(3,5) x D(7) D(8) D(10) D(11) assms(4)
    by (auto simp: ent new_pde) (use D(9) in blast)
qed

lemma walk_state_pte:
  assumes "wf_pd s (x # xs) pd" and "d < 1024" and "\<not> present (entry (mem s) pd d)"
    and "d' < 1024" and "t < 1024" and "d' \<noteq> UVPT_D"
  shows "pte_at (mem (walk_state x pd d s)) pd d' t = pte_at (mem s) pd d' t"
proof -
  note D = wf_pdD [OF assms(1)]
  note x = wf_pd_head(2,4) [OF assms(1)]
  show ?thesis
  proof (cases "d' = d")
    case True
    have "entry (mem (walk_state x pd d s)) pd d' = new_pde x"
      using walk_state_entry [OF assms(1,2) D(4) assms(4)] True by simp
    moreover have "entry (mem (walk_state x pd d s)) x t = 0"
      using walk_state_entry [OF assms(1,2) x(1) assms(5)] x(2) by simp
    ultimately show ?thesis
      using True assms(3) x(1) by (simp add: pte_at_def new_pde Let_def)
  next
    case False
    have e: "entry (mem (walk_state x pd d s)) pd d' = entry (mem s) pd d'"
      using walk_state_entry [OF assms(1,2) D(4) assms(4)] x False by simp
    show ?thesis
    proof (cases "present (entry (mem s) pd d')")
      case True
      let ?f = "frame_of (entry (mem s) pd d')"
      have "?f < 65536" "?f \<noteq> x" "?f \<noteq> pd"
        using D(6) [OF assms(4) True] D(8) [OF assms(4) True] D(9) [OF assms(4,6) True] by auto
      then have "entry (mem (walk_state x pd d s)) ?f t = entry (mem s) ?f t"
        using walk_state_entry [OF assms(1,2) _ assms(5)] by simp
      then show ?thesis by (simp add: pte_at_def e Let_def)
    qed (simp add: pte_at_def e Let_def)
  qed
qed

text \<open>Writing a slot of a page table.\<close>

lemma table_store_entry:
  assumes "wf_pd s xs pd" and "d < 1024" and "d \<noteq> UVPT_D" and "present (entry (mem s) pd d)"
    and "t < 1024" and "i < 1024"
  shows "entry (set_entry (frame_of (entry (mem s) pd d)) t v (mem s)) pd i = entry (mem s) pd i"
proof -
  have "frame_of (entry (mem s) pd d) < 65536" "frame_of (entry (mem s) pd d) \<noteq> pd" "pd < 65536"
    using wf_pdD(4) [OF assms(1)] wf_pdD(6,9) [OF assms(1)] assms(2-4) by blast+
  then show ?thesis using assms(5,6) by (simp add: entry_set_entry)
qed

lemma table_store_wf:
  assumes "wf_pd s xs pd" and "d < 1024" and "d \<noteq> UVPT_D" and "present (entry (mem s) pd d)"
    and "t < 1024"
  shows "wf_pd (s\<lparr>mem := set_entry (frame_of (entry (mem s) pd d)) t v (mem s)\<rparr>) xs pd"
proof -
  have "free_inv (s\<lparr>mem := m\<rparr>) xs = free_inv s xs" for m by (simp add: free_inv_def)
  then show ?thesis
    using assms(1) by (auto simp: wf_pd_def table_store_entry [OF assms])
qed

lemma table_store_pte:
  assumes "wf_pd s xs pd" and "d < 1024" and "d \<noteq> UVPT_D" and "present (entry (mem s) pd d)"
    and "t < 1024" and "d' < 1024" and "t' < 1024" and "d' \<noteq> UVPT_D"
  shows "pte_at (set_entry (frame_of (entry (mem s) pd d)) t v (mem s)) pd d' t'
    = (if d' = d \<and> t' = t then v else pte_at (mem s) pd d' t')"
proof (cases "present (entry (mem s) pd d')")
  case True
  note D = wf_pdD [OF assms(1)]
  have "frame_of (entry (mem s) pd d) < 65536" "frame_of (entry (mem s) pd d') < 65536"
    using D(6) assms(2,4,6) True by auto
  moreover have "frame_of (entry (mem s) pd d) = frame_of (entry (mem s) pd d') \<longleftrightarrow> d = d'"
    using D(10) [OF assms(2,6) _ assms(3,8,4) True] by auto
  ultimately show ?thesis
    using True assms by (auto simp: pte_at_def Let_def table_store_entry entry_set_entry)
next
  case False
  then show ?thesis
    using assms by (auto simp: pte_at_def Let_def table_store_entry)
qed

section \<open>Reference counts\<close>

definition user_slots :: "(nat \<times> nat) set" where
  "user_slots = {..<UTOP_D} \<times> {..<1024}"

text \<open>How many user entries map page \<open>i\<close>, and how many directory entries use it as a table.\<close>

definition pte_refs :: "memory \<Rightarrow> nat \<Rightarrow> nat \<Rightarrow> nat" where
  "pte_refs m pd i = card {(d, t) \<in> user_slots.
     present (pte_at m pd d t) \<and> frame_of (pte_at m pd d t) = i}"

definition pt_refs :: "memory \<Rightarrow> nat \<Rightarrow> nat \<Rightarrow> nat" where
  "pt_refs m pd i = card {d \<in> {..<1024} - {UVPT_D}.
     present (entry m pd d) \<and> frame_of (entry m pd d) = i}"

text \<open>
  The invariant of an address space: \<open>ext i\<close> counts the references to page \<open>i\<close> that are
  held elsewhere (by the boot code for page 0, for the directory itself, by other
  directories, by kernel variables).
\<close>

definition vm_inv :: "'z ks \<Rightarrow> nat list \<Rightarrow> nat \<Rightarrow> (nat \<Rightarrow> nat) \<Rightarrow> bool" where
  "vm_inv s xs pd ext \<longleftrightarrow> wf_pd s xs pd \<and> 1 \<le> ext pd \<and> 1 \<le> ext 0
     \<and> (\<forall>(d, t) \<in> user_slots. present (pte_at (mem s) pd d t)
          \<longrightarrow> frame_of (pte_at (mem s) pd d t) < length (pages s))
     \<and> (\<forall>i < length (pages s). unat (pp_ref (pages s ! i))
          = pte_refs (mem s) pd i + pt_refs (mem s) pd i + ext i)"

lemma card_change_one:
  assumes "finite U" and "u0 \<in> U" and "\<And>u. u \<in> U \<Longrightarrow> u \<noteq> u0 \<Longrightarrow> P' u = P u"
  shows "card {u \<in> U. P' u} + (if P u0 then 1 else 0) = card {u \<in> U. P u} + (if P' u0 then 1 else 0)"
proof -
  have split: "{u \<in> U. Q u} = {u \<in> U - {u0}. Q u} \<union> (if Q u0 then {u0} else {})" for Q
    using assms(2) by auto
  have count: "card {u \<in> U. Q u} = card {u \<in> U - {u0}. Q u} + (if Q u0 then 1 else 0)" for Q
    by (subst split, subst card_Un_disjoint) (use assms(1) in auto)
  have "{u \<in> U - {u0}. P' u} = {u \<in> U - {u0}. P u}" using assms(3) by auto
  then have "card {u \<in> U - {u0}. P' u} = card {u \<in> U - {u0}. P u}" by (rule arg_cong)
  with count [of P] count [of P'] show ?thesis by (simp only: add.commute add.left_commute)
qed

lemma finite_user_slots [simp]: "finite user_slots"
  by (simp add: user_slots_def)

lemma user_slotsD: "(d, t) \<in> user_slots \<Longrightarrow> d < UTOP_D \<and> d < 1024 \<and> d \<noteq> UVPT_D \<and> t < 1024"
  by (auto simp: user_slots_def UTOP_D_def UVPT_D_def)

lemma pte_refs_cong:
  assumes "\<And>d t. (d, t) \<in> user_slots \<Longrightarrow> pte_at m' pd d t = pte_at m pd d t"
  shows "pte_refs m' pd i = pte_refs m pd i"
  unfolding pte_refs_def by (rule arg_cong [where f = card]) (use assms in auto)

lemma pte_refs_update:
  assumes "(d, t) \<in> user_slots"
    and "\<And>d' t'. (d', t') \<in> user_slots \<Longrightarrow>
      pte_at m' pd d' t' = (if d' = d \<and> t' = t then v else pte_at m pd d' t')"
  shows "pte_refs m' pd i + (if present (pte_at m pd d t) \<and> frame_of (pte_at m pd d t) = i then 1 else 0)
    = pte_refs m pd i + (if present v \<and> frame_of v = i then 1 else 0)"
proof -
  let ?h = "\<lambda>m u. present (pte_at m pd (fst u) (snd u)) \<and> frame_of (pte_at m pd (fst u) (snd u)) = i"
  have refs: "pte_refs m pd i = card {u \<in> user_slots. ?h m u}" for m
    by (simp add: pte_refs_def case_prod_unfold)
  have "?h m' u = ?h m u" if "u \<in> user_slots" "u \<noteq> (d, t)" for u
    using assms(2) [of "fst u" "snd u"] that by (cases u) auto
  from card_change_one [where P = "?h m" and P' = "?h m'", OF finite_user_slots assms(1) this]
  show ?thesis unfolding refs using assms(2) [OF assms(1)] by simp
qed

lemma pt_refs_pos:
  assumes "d < 1024" and "d \<noteq> UVPT_D" and "present (entry m pd d)"
  shows "1 \<le> pt_refs m pd (frame_of (entry m pd d))"
proof -
  have "{d} \<subseteq> {d' \<in> {..<1024} - {UVPT_D}. present (entry m pd d')
      \<and> frame_of (entry m pd d') = frame_of (entry m pd d)}" using assms by auto
  from card_mono [OF _ this] show ?thesis by (simp add: pt_refs_def)
qed

lemma pte_refs_pos:
  assumes "(d, t) \<in> user_slots" and "present (pte_at m pd d t)"
  shows "1 \<le> pte_refs m pd (frame_of (pte_at m pd d t))"
proof -
  have "{(d, t)} \<subseteq> {(d', t') \<in> user_slots. present (pte_at m pd d' t')
      \<and> frame_of (pte_at m pd d' t') = frame_of (pte_at m pd d t)}" using assms by auto
  from card_mono [OF _ this] show ?thesis
    unfolding pte_refs_def by (simp add: case_prod_unfold)
qed

lemma vm_invD:
  assumes "vm_inv s xs pd ext"
  shows "wf_pd s xs pd" "1 \<le> ext pd" "1 \<le> ext 0"
    and "\<And>d t. (d, t) \<in> user_slots \<Longrightarrow> present (pte_at (mem s) pd d t) \<Longrightarrow>
      frame_of (pte_at (mem s) pd d t) < length (pages s)"
    and "\<And>i. i < length (pages s) \<Longrightarrow> unat (pp_ref (pages s ! i))
      = pte_refs (mem s) pd i + pt_refs (mem s) pd i + ext i"
  using assms unfolding vm_inv_def by blast+

text \<open>A page in use is never on the free list.\<close>

lemma vm_inv_mapped_not_free:
  assumes "vm_inv s xs pd ext" and "(d, t) \<in> user_slots" and "present (pte_at (mem s) pd d t)"
  shows "frame_of (pte_at (mem s) pd d t) \<notin> set xs"
proof
  let ?q = "frame_of (pte_at (mem s) pd d t)"
  assume "?q \<in> set xs"
  moreover have "?q < length (pages s)" using vm_invD(4) [OF assms] .
  ultimately have "pp_ref (pages s ! ?q) = 0"
    using wf_pdD(1) [OF vm_invD(1) [OF assms(1)]] by (auto simp: free_inv_def)
  then show False
    using vm_invD(5) [OF assms(1) \<open>?q < length (pages s)\<close>] pte_refs_pos [OF assms(2,3)] by simp
qed

section \<open>Each step keeps the counts\<close>

lemma walk_state_pt_refs:
  assumes "wf_pd s (x # xs) pd" and "d < 1024" and "d \<noteq> UVPT_D"
    and "\<not> present (entry (mem s) pd d)"
  shows "pt_refs (mem (walk_state x pd d s)) pd i = pt_refs (mem s) pd i + (if i = x then 1 else 0)"
proof -
  let ?m = "mem (walk_state x pd d s)"
  let ?h = "\<lambda>m d. present (entry m pd d) \<and> frame_of (entry m pd d) = i"
  note x = wf_pd_head [OF assms(1)]
  have ent: "entry ?m pd d' = (if d' = d then new_pde x else entry (mem s) pd d')" if "d' < 1024" for d'
    using walk_state_entry [OF assms(1,2) wf_pdD(4) [OF assms(1)] that] x by simp
  have "?h ?m d' = ?h (mem s) d'" if "d' \<in> {..<1024} - {UVPT_D}" "d' \<noteq> d" for d'
    using ent [of d'] that by simp
  moreover have "finite ({..<1024} - {UVPT_D})" "d \<in> {..<1024} - {UVPT_D}"
    using assms(2,3) by simp_all
  ultimately have "card {d \<in> {..<1024} - {UVPT_D}. ?h ?m d} + (if ?h (mem s) d then 1 else 0)
      = card {d \<in> {..<1024} - {UVPT_D}. ?h (mem s) d} + (if ?h ?m d then 1 else 0)"
    by (intro card_change_one)
  moreover have "?h ?m d \<longleftrightarrow> i = x"
    using ent [OF assms(2)] new_pde(1) [of x] new_pde(2) [OF x(2)] by auto
  ultimately show ?thesis using assms(4) by (simp add: pt_refs_def)
qed

lemma vm_inv_walk:
  assumes inv: "vm_inv s (x # xs) pd ext" and d: "d < 1024" "d \<noteq> UVPT_D"
    and absent: "\<not> present (entry (mem s) pd d)"
  shows "vm_inv (walk_state x pd d s) xs pd ext"
proof -
  let ?s = "walk_state x pd d s"
  note wf = vm_invD(1) [OF inv]
  note x = wf_pd_head [OF wf]
  have len: "length (pages ?s) = length (pages s)" by (simp add: walk_state_def)
  have pte: "pte_at (mem ?s) pd d' t = pte_at (mem s) pd d' t" if "(d', t) \<in> user_slots" for d' t
    using walk_state_pte [OF wf d(1) absent] user_slotsD [OF that] by simp
  have ref0: "pp_ref (pages s ! x) = 0" using wf_pdD(1) [OF wf] by (auto simp: free_inv_def)
  have "unat (pp_ref (pages ?s ! i)) = pte_refs (mem ?s) pd i + pt_refs (mem ?s) pd i + ext i"
    if "i < length (pages s)" for i
    using vm_invD(5) [OF inv that] vm_invD(5) [OF inv x(1)] ref0 x(1)
      walk_state_pt_refs [OF wf d absent, of i] pte_refs_cong [OF pte, of i]
    by (auto simp: walk_state_def nth_list_update)
  then show ?thesis
    unfolding vm_inv_def using walk_state_wf [OF wf d(1) absent d(2)] vm_invD(2-4) [OF inv] pte len
    by auto
qed

definition incref_state :: "nat \<Rightarrow> 'z ks \<Rightarrow> 'z ks" where
  "incref_state pp s =
     s\<lparr>pages := (pages s)[pp := (pages s ! pp)\<lparr>pp_ref := pp_ref (pages s ! pp) + 1\<rparr>]\<rparr>"

lemma wf_pd_pages:
  assumes "wf_pd s xs pd" and "free_inv (s\<lparr>pages := ps\<rparr>) xs" and "length ps = length (pages s)"
  shows "wf_pd (s\<lparr>pages := ps\<rparr>) xs pd"
  using assms by (simp add: wf_pd_def)

lemma vm_inv_incref:
  assumes inv: "vm_inv s xs pd ext" and pp: "pp < length (pages s)" "pp \<notin> set xs"
    and room: "unat (pp_ref (pages s ! pp)) < 65535"
  shows "vm_inv (incref_state pp s) xs pd (ext(pp := ext pp + 1))"
proof -
  let ?s = "incref_state pp s"
  note wf = vm_invD(1) [OF inv]
  have "free_inv ?s xs"
    using wf_pdD(1) [OF wf] pp
    by (auto simp: free_inv_def incref_state_def linked_upd nth_list_update wf_pages_def)
  then have "wf_pd ?s xs pd" using wf_pd_pages [OF wf] by (simp add: incref_state_def)
  moreover have "unat (pp_ref (pages s ! pp) + 1) = unat (pp_ref (pages s ! pp)) + 1"
    using room unat_less_add [of "pp_ref (pages s ! pp)" 1] by simp
  then have "unat (pp_ref (pages ?s ! i))
      = pte_refs (mem ?s) pd i + pt_refs (mem ?s) pd i + (ext(pp := ext pp + 1)) i"
    if "i < length (pages s)" for i
    using vm_invD(5) [OF inv that] pp(1) that
    by (cases "i = pp") (simp_all add: incref_state_def)
  ultimately show ?thesis
    unfolding vm_inv_def using vm_invD(2-4) [OF inv] by (auto simp: incref_state_def)
qed

text \<open>Writing an entry that holds a counted reference into an empty slot.\<close>

lemma vm_inv_install:
  assumes inv: "vm_inv s xs pd (ext(pp := ext pp + 1))" and slot: "(d, t) \<in> user_slots"
    and pde: "present (entry (mem s) pd d)" and empty: "\<not> present (pte_at (mem s) pd d t)"
    and v: "present v" "frame_of v = pp" and pp: "pp < length (pages s)"
    and ext: "1 \<le> ext pd" "1 \<le> ext 0"
  shows "vm_inv (s\<lparr>mem := set_entry (frame_of (entry (mem s) pd d)) t v (mem s)\<rparr>) xs pd ext"
proof -
  let ?m = "set_entry (frame_of (entry (mem s) pd d)) t v (mem s)"
  note wf = vm_invD(1) [OF inv] and dt = user_slotsD [OF slot]
  have pte: "pte_at ?m pd d' t' = (if d' = d \<and> t' = t then v else pte_at (mem s) pd d' t')"
    if "(d', t') \<in> user_slots" for d' t'
    using table_store_pte [OF wf _ _ pde] dt user_slotsD [OF that] by simp
  have ent: "pt_refs ?m pd i = pt_refs (mem s) pd i" for i
    unfolding pt_refs_def
    by (rule arg_cong [where f = card]) (use table_store_entry [OF wf _ _ pde] dt in auto)
  have "unat (pp_ref (pages s ! i)) = pte_refs ?m pd i + pt_refs ?m pd i + ext i"
    if "i < length (pages s)" for i
    using vm_invD(5) [OF inv that] pte_refs_update [OF slot pte, where i = i] ent [of i] empty v
    by (cases "i = pp") (auto split: if_splits)
  then show ?thesis
    unfolding vm_inv_def using table_store_wf [OF wf _ _ pde] dt ext vm_invD(4) [OF inv] pte v pp
    by (auto split: if_splits)
qed

section \<open>Looking a page up\<close>

lemma page_lookup_absent:
  assumes "wf_pd s xs pd" and "\<not> present (entry (mem s) pd (pdi va))"
  shows "page_lookup (kva pd) va s = Inr (None, s)"
  using walk_absent_no_create [OF assms] by (simp add: page_lookup_def)

text \<open>Where the page table exists, the entry is used whether it is present or not.\<close>

lemma page_lookup_table:
  assumes "wf_pd s xs pd" and "present (entry (mem s) pd (pdi va))"
    and "frame_of (pte_at (mem s) pd (pdi va) (pti va)) < length (pages s)"
  shows "page_lookup (kva pd) va s = Inr (Some (frame_of (pte_at (mem s) pd (pdi va) (pti va)),
    kva (frame_of (entry (mem s) pd (pdi va))) + 4 * of_nat (pti va)), s)"
proof -
  note D = wf_pdD [OF assms(1)]
  have f: "frame_of (entry (mem s) pd (pdi va)) < 65536"
    using D(6) [OF PDX_bound assms(2)] .
  have pte: "pte_at (mem s) pd (pdi va) (pti va) = entry (mem s) (frame_of (entry (mem s) pd (pdi va))) (pti va)"
    using assms(2) by (simp add: pte_at_def)
  show ?thesis
    using walk_present [OF assms(1,2), of False] slot_nonzero [OF f PTX_bound, of va]
      kload_entry [OF f PTX_bound, of s va] pa2page_frame [OF D(2) assms(3)]
    by (simp add: page_lookup_def pte)
qed

section \<open>Removing a mapping\<close>

lemma wf_pd_transfer:
  assumes "wf_pd s xs pd" and "mem s' = mem s" and "length (pages s') = length (pages s)"
    and "free_inv s' xs'" and "pd \<notin> set xs'"
    and "\<And>d. d < 1024 \<Longrightarrow> present (entry (mem s) pd d) \<Longrightarrow> frame_of (entry (mem s) pd d) \<notin> set xs'"
  shows "wf_pd s' xs' pd"
  using assms by (simp add: wf_pd_def)

lemma wf_pd_tlb [simp]: "wf_pd (s\<lparr>tlb := x\<rparr>) xs pd = wf_pd s xs pd"
  "vm_inv (s\<lparr>tlb := x\<rparr>) xs pd ext = vm_inv s xs pd ext"
  by (simp_all add: wf_pd_def free_inv_def vm_inv_def)

definition drop_ref :: "nat \<Rightarrow> 'z ks \<Rightarrow> 'z ks" where
  "drop_ref q s = (if pp_ref (pages s ! q) = 1 then free_state q (decref_state q s)
     else decref_state q s)"

definition drop_free :: "nat \<Rightarrow> 'z ks \<Rightarrow> nat list \<Rightarrow> nat list" where
  "drop_free q s xs = (if pp_ref (pages s ! q) = 1 then q # xs else xs)"

lemma drop_ref_fields [simp]: "mem (drop_ref q s) = mem s" "tlb (drop_ref q s) = tlb s"
  "length (pages (drop_ref q s)) = length (pages s)" "npages (drop_ref q s) = npages s"
  by (simp_all add: drop_ref_def free_state_def decref_state_def)

lemma drop_ref_ref:
  "i < length (pages s) \<Longrightarrow> pp_ref (pages (drop_ref q s) ! i)
     = (if i = q then pp_ref (pages s ! q) - 1 else pp_ref (pages s ! i))"
  by (simp add: drop_ref_def free_state_def decref_state_def nth_list_update)

lemma page_decref_drop:
  assumes "free_inv s xs" and "q < length (pages s)" and "q \<notin> set xs"
  shows "page_decref q s = Inr (drop_ref q s)"
  using assms page_decref_last [of q s] page_decref_live [of q s]
  by (auto simp: drop_ref_def free_inv_def)

lemma drop_ref_free_inv:
  assumes inv: "free_inv s xs" and q: "q < length (pages s)" "q \<notin> set xs"
    and "pp_ref (pages s ! q) = 1 \<Longrightarrow> 0 < q"
  shows "free_inv (drop_ref q s) (drop_free q s xs)"
proof -
  have d: "free_inv (decref_state q s) xs"
    using inv q by (auto simp: free_inv_def decref_state_def linked_upd nth_list_update wf_pages_def)
  moreover have "idle_page (decref_state q s) q" if "pp_ref (pages s ! q) = 1"
  proof -
    have "pp_link (pages s ! q) = None" using inv q by (simp add: free_inv_def)
    then have "pages s ! q = \<lparr>pp_link = None, pp_ref = 1\<rparr>" using that by simp
    then show ?thesis using q(1) assms(4) that by (simp add: idle_page_def decref_state_def)
  qed
  ultimately show ?thesis
    using free_state_inv [OF d _ q(2)] by (simp add: drop_ref_def drop_free_def)
qed

definition remove_state :: "nat \<Rightarrow> u32 \<Rightarrow> 'z ks \<Rightarrow> 'z ks" where
  "remove_state pd va s =
     (let f = frame_of (entry (mem s) pd (pdi va));
          q = frame_of (entry (mem s) f (pti va))
      in (drop_ref q s)\<lparr>mem := set_entry f (pti va) 0 (mem s), tlb := (tlb s)(PGNUM va := None)\<rparr>)"

lemma page_remove_table:
  assumes wf: "wf_pd s xs pd" and pde: "present (entry (mem s) pd (pdi va))"
    and q: "frame_of (pte_at (mem s) pd (pdi va) (pti va)) < length (pages s)"
      "frame_of (pte_at (mem s) pd (pdi va) (pti va)) \<notin> set xs"
  shows "page_remove (kva pd) va s = Inr (remove_state pd va s)"
proof -
  let ?f = "frame_of (entry (mem s) pd (pdi va))"
  have f: "?f < 65536" using wf_pdD(6) [OF wf PDX_bound pde] .
  have "page_decref (frame_of (pte_at (mem s) pd (pdi va) (pti va))) s
      = Inr (drop_ref (frame_of (pte_at (mem s) pd (pdi va) (pti va))) s)"
    using page_decref_drop [OF wf_pdD(1) [OF wf] q] .
  moreover have "pte_at (mem s) pd (pdi va) (pti va) = entry (mem s) ?f (pti va)"
    using pde by (simp add: pte_at_def)
  ultimately show ?thesis
    using page_lookup_table [OF wf pde q(1)]
      kstore_entry [OF f PTX_bound, of va 0 "drop_ref (frame_of (entry (mem s) ?f (pti va))) s"]
    by (simp add: page_remove_def tlb_invalidate_def invlpg_def remove_state_def Let_def)
qed

text \<open>Dropping a reference keeps the directory well-formed when a last reference is no table's.\<close>

lemma drop_ref_wf:
  assumes wf: "wf_pd s xs pd" and q: "q < length (pages s)" "q \<notin> set xs"
    and last: "pp_ref (pages s ! q) = 1 \<Longrightarrow> 0 < q \<and> q \<noteq> pd \<and> pt_refs (mem s) pd q = 0"
  shows "wf_pd (drop_ref q s) (drop_free q s xs) pd"
proof -
  have fr: "free_inv (drop_ref q s) (drop_free q s xs)"
    using drop_ref_free_inv [OF wf_pdD(1) [OF wf] q] last by blast
  have pd: "pd \<notin> set (drop_free q s xs)"
    using wf_pdD(5) [OF wf] last by (auto simp: drop_free_def)
  have tables: "frame_of (entry (mem s) pd d) \<notin> set (drop_free q s xs)"
    if "d < 1024" "present (entry (mem s) pd d)" for d
  proof (cases "d = UVPT_D")
    case True
    then show ?thesis using wf_pdD(11) [OF wf] that pd by simp
  next
    case False
    then show ?thesis
      using pt_refs_pos [OF that(1) False that(2)] wf_pdD(8) [OF wf that] last
      by (auto simp: drop_free_def)
  qed
  show ?thesis using wf_pd_transfer [OF wf _ _ fr pd tables] by simp
qed

lemma vm_inv_remove:
  assumes inv: "vm_inv s xs pd ext" and slot: "(pdi va, pti va) \<in> user_slots"
    and pres: "present (pte_at (mem s) pd (pdi va) (pti va))"
  defines "q \<equiv> frame_of (pte_at (mem s) pd (pdi va) (pti va))"
  shows "page_remove (kva pd) va s = Inr (remove_state pd va s)"
    and "vm_inv (remove_state pd va s) (drop_free q s xs) pd ext"
proof -
  note wf = vm_invD(1) [OF inv] and dt = user_slotsD [OF slot]
  let ?f = "frame_of (entry (mem s) pd (pdi va))"
  let ?m = "set_entry ?f (pti va) 0 (mem s)"
  have pde: "present (entry (mem s) pd (pdi va))"
    using pres by (auto simp: pte_at_def Let_def split: if_splits)
  have q: "q < length (pages s)" "q \<notin> set xs"
    using vm_invD(4) [OF inv slot pres] vm_inv_mapped_not_free [OF inv slot pres]
    by (simp_all add: q_def)
  have refs: "unat (pp_ref (pages s ! q)) = pte_refs (mem s) pd q + pt_refs (mem s) pd q + ext q"
    using vm_invD(5) [OF inv q(1)] .
  have pos: "1 \<le> pte_refs (mem s) pd q" using pte_refs_pos [OF slot pres] by (simp add: q_def)
  have last: "pt_refs (mem s) pd q = 0 \<and> ext q = 0" if "pp_ref (pages s ! q) = 1"
    using refs pos that by simp
  show rem: "page_remove (kva pd) va s = Inr (remove_state pd va s)"
    using page_remove_table [OF wf pde] q by (simp add: q_def)
  have wf1: "wf_pd (drop_ref q s) (drop_free q s xs) pd"
    by (rule drop_ref_wf [OF wf q]) (use last vm_invD(2,3) [OF inv] in \<open>cases q; auto\<close>)
  have st: "remove_state pd va s = (drop_ref q s)\<lparr>mem := ?m, tlb := (tlb s)(PGNUM va := None)\<rparr>"
    using pde by (simp add: remove_state_def q_def pte_at_def Let_def)
  have wf2: "wf_pd (remove_state pd va s) (drop_free q s xs) pd"
    unfolding st using table_store_wf [OF wf1, of "pdi va" "pti va" 0] pde dt by simp
  have pte: "pte_at ?m pd d' t' = (if d' = pdi va \<and> t' = pti va then 0 else pte_at (mem s) pd d' t')"
    if "(d', t') \<in> user_slots" for d' t'
    using table_store_pte [OF wf _ _ pde] dt user_slotsD [OF that] by simp
  have pt: "pt_refs ?m pd i = pt_refs (mem s) pd i" for i
    unfolding pt_refs_def
    by (rule arg_cong [where f = card]) (use table_store_entry [OF wf _ _ pde] dt in auto)
  have "unat (pp_ref (pages s ! q) - 1) = unat (pp_ref (pages s ! q)) - 1"
    using refs pos by (intro unat_minus_one) auto
  then have "unat (pp_ref (pages (drop_ref q s) ! i)) = pte_refs ?m pd i + pt_refs ?m pd i + ext i"
    if "i < length (pages s)" for i
    using vm_invD(5) [OF inv that] refs pos pte_refs_update [OF slot pte, where i = i] pres
      drop_ref_ref [OF that, of q]
    by (cases "i = q") (auto simp: q_def pt)
  moreover have "present (pte_at ?m pd d t) \<longrightarrow> frame_of (pte_at ?m pd d t) < length (pages s)"
    if "(d, t) \<in> user_slots" for d t
    using pte [OF that] vm_invD(4) [OF inv that] by simp
  ultimately show "vm_inv (remove_state pd va s) (drop_free q s xs) pd ext"
    unfolding vm_inv_def using wf2 vm_invD(2,3) [OF inv] by (auto simp: st)
qed

end
