(* ===== verification/EntryPgdir.thy ===== *)
theory EntryPgdir
  imports AddressSpace
begin

text \<open>
  The page directory and page table the kernel starts on, \<^verbatim>\<open>kern/entrypgdir.c\<close>, and what
  they map.
\<close>

text \<open>The source lists the 1024 entries \<^verbatim>\<open>0x000000 | PTE_P | PTE_W\<close> to \<^verbatim>\<open>0x3ff000 | PTE_P | PTE_W\<close>.\<close>

definition entry_pgtable :: "u32 list" where
  "entry_pgtable = map (\<lambda>i. push_bit 12 (of_nat i) OR PTE_P OR PTE_W) [0..<1024]"

text \<open>\<open>pgtable\<close> is the address of the table above.\<close>

definition entry_pgdir :: "u32 \<Rightarrow> u32 list" where
  "entry_pgdir pgtable = (replicate 1024 0)
     [0 := pgtable - KERNBASE + PTE_P,
      unat (drop_bit 22 KERNBASE) := pgtable - KERNBASE + PTE_P + PTE_W]"

text \<open>Laying a table out in a frame of memory.\<close>

definition place :: "nat \<Rightarrow> u32 list \<Rightarrow> memory \<Rightarrow> memory" where
  "place f es m = fold (\<lambda>i. set_entry f i (es ! i)) [0..<length es] m"

lemma place_entry:
  assumes "f < 2 ^ 20" and "g < 2 ^ 20" and "length es \<le> 1024" and "k < 1024"
  shows "entry (place f es m) g k = (if f = g \<and> k < length es then es ! k else entry m g k)"
proof -
  have "entry (fold (\<lambda>i. set_entry f i (es ! i)) [0..<n] m) g k = (if f = g \<and> k < n then es ! k else entry m g k)"
    if "n \<le> 1024" for n
    using that assms by (induction n) (auto simp: entry_set_entry less_Suc_eq)
  then show ?thesis using assms(3) by (simp add: place_def)
qed

lemma entry_pgtable_nth: "length entry_pgtable = 1024" "i < 1024 \<Longrightarrow> entry_pgtable ! i = page2pa i OR PTE_P OR PTE_W"
  by (simp_all add: entry_pgtable_def page2pa_def del: upt_rec_numeral upt_conv_Cons)

lemma entry_pgdir_nth:
  assumes "pt < 65536" and "d < 1024"
  shows "entry_pgdir (kva pt) ! d = (if d = 0 then page2pa pt OR PTE_P
    else if d = 960 then page2pa pt OR PTE_P OR PTE_W else 0)"
proof -
  have slot: "unat (drop_bit 22 KERNBASE) = 960" by code_simp
  have low: "\<not> bit (page2pa pt) n" if "n < 2" for n using that by (simp add: page2pa_def bit_simps)
  have add: "page2pa pt + mask k = page2pa pt OR mask k" if "k \<le> 2" for k
    by (rule disjunctive_add) (use low that in \<open>auto simp: bit_simps\<close>)
  have m: "(1 :: u32) = mask 1" "(3 :: u32) = mask 2" by (simp_all add: mask_eq_exp_minus_1)
  have p: "page2pa pt + PTE_P = page2pa pt OR PTE_P"
    unfolding PTE_P_def m by (rule add) simp
  have "page2pa pt + PTE_P + PTE_W = page2pa pt + 3" by (simp add: PTE_P_def PTE_W_def)
  also have "\<dots> = page2pa pt OR 3" unfolding m by (rule add) simp
  also have "\<dots> = page2pa pt OR PTE_P OR PTE_W" by (simp add: PTE_P_def PTE_W_def or.assoc)
  finally have pw: "page2pa pt + PTE_P + PTE_W = page2pa pt OR PTE_P OR PTE_W" .
  show ?thesis using assms p pw by (simp add: entry_pgdir_def slot nth_list_update)
qed

lemma entry_tables_present:
  "present (page2pa i OR PTE_P OR PTE_W)" "present (page2pa i OR PTE_P)"
  "i < 65536 \<Longrightarrow> frame_of (page2pa i OR PTE_P OR PTE_W) = i" "i < 65536 \<Longrightarrow> frame_of (page2pa i OR PTE_P) = i"
proof -
  show "present (page2pa i OR PTE_P OR PTE_W)" "present (page2pa i OR PTE_P)"
    by (rule present_or) (use present_or(1) [of "page2pa i" 0] in simp)
  show "frame_of (page2pa i OR PTE_P OR PTE_W) = i" "frame_of (page2pa i OR PTE_P) = i" if "i < 65536"
    using frame_of_page [of "PTE_P OR PTE_W" i] frame_of_page [of PTE_P i] that
    by (simp_all add: PTE_P_def PTE_W_def or.assoc)
qed

text \<open>C32: With the two tables in memory, the processor finds exactly the pages of
  \<open>[0, 4MB)\<close> and \<open>[KERNBASE, KERNBASE + 4MB)\<close> mapped, both to the first four megabytes of
  physical memory in order; every other address is unmapped, and the low copy is not writable
  through its directory entry.\<close>

theorem entry_tables_map_4MB:
  assumes "pd < 65536" and "pt < 65536"
    and "\<And>i. i < 1024 \<Longrightarrow> entry m pd i = entry_pgdir (kva pt) ! i"
    and "\<And>i. i < 1024 \<Longrightarrow> entry m pt i = entry_pgtable ! i"
  shows "pte_at m pd (pdi va) (pti va) =
      (if unat va < 4 * 1048576 \<or> unat KERNBASE \<le> unat va \<and> unat va < unat KERNBASE + 4 * 1048576
       then page2pa (unat va div 4096 mod 1024) OR PTE_P OR PTE_W else 0)
    \<and> (entry m pd 0 AND PTE_W = 0) \<and> entry m pd 960 AND PTE_W \<noteq> 0"
proof -
  have d: "pdi va < 1024" and t: "pti va < 1024" by (rule PDX_bound, rule PTX_bound)
  have pde: "entry m pd (pdi va) = (if pdi va = 0 then page2pa pt OR PTE_P
      else if pdi va = 960 then page2pa pt OR PTE_P OR PTE_W else 0)"
    using assms(3) [OF d] entry_pgdir_nth [OF assms(2) d] by simp
  have low: "pdi va = 0 \<longleftrightarrow> unat va < 4 * 1048576" by (simp add: unat_PDX div_eq_0_iff)
  have high: "pdi va = 960 \<longleftrightarrow> unat KERNBASE \<le> unat va \<and> unat va < unat KERNBASE + 4 * 1048576"
    by (auto simp: unat_PDX KERNBASE_def)
  have pte: "entry m pt (pti va) = page2pa (unat va div 4096 mod 1024) OR PTE_P OR PTE_W"
    using assms(4) [OF t] entry_pgtable_nth(2) [OF t] by (simp add: unat_PTX)
  have one: "pte_at m pd (pdi va) (pti va) =
      (if pdi va = 0 \<or> pdi va = 960 then page2pa (unat va div 4096 mod 1024) OR PTE_P OR PTE_W else 0)"
    using pte entry_tables_present [of pt] assms(2) by (simp add: pte_at_def pde Let_def)
  have w: "page2pa pt AND PTE_W = 0"
  proof -
    have "(page2pa pt AND 0xFFF) AND PTE_W = page2pa pt AND PTE_W"
      unfolding and.assoc by (simp add: PTE_W_def)
    then show ?thesis by simp
  qed
  have zero: "entry m pd 0 = page2pa pt OR PTE_P" "entry m pd 960 = page2pa pt OR PTE_P OR PTE_W"
    using assms(3) entry_pgdir_nth [OF assms(2)] by simp_all
  have "entry m pd 0 AND PTE_W = 0" unfolding zero bit.conj_disj_distrib2 w by (simp add: PTE_P_def PTE_W_def)
  moreover have "entry m pd 960 AND PTE_W \<noteq> 0"
    unfolding zero bit.conj_disj_distrib2 w by (simp add: PTE_P_def PTE_W_def)
  ultimately show ?thesis using one low high by simp
qed

lemma entry_tables_map_4MB_witness:
  "pte_at (place 8 (entry_pgdir (kva 9)) (place 9 entry_pgtable (\<lambda>_. 0))) 8 (pdi 0xF0105000) (pti 0xF0105000)
     = page2pa 261 OR PTE_P OR PTE_W"
proof -
  let ?m = "place 8 (entry_pgdir (kva 9)) (place 9 entry_pgtable (\<lambda>_. 0))"
  have "length (entry_pgdir (kva 9)) = 1024" by (simp add: entry_pgdir_def)
  then have "entry ?m 8 i = entry_pgdir (kva 9) ! i" "entry ?m 9 i = entry_pgtable ! i" if "i < 1024" for i
    using that entry_pgtable_nth(1) by (simp_all add: place_entry)
  from entry_tables_map_4MB [of 8 9, OF _ _ this, of "0xF0105000"] show ?thesis by (simp add: KERNBASE_def)
qed

end
