(* ===== verification/Strings.thy ===== *)
theory Strings
  imports MemOps
begin

text \<open>
  The string routines of \<^verbatim>\<open>lib/string.c\<close> on byte-addressed memory. A loop that scans for
  the terminator runs forever when there is none, so the scanning loops are partial
  functions and \<open>None\<close> is "does not return"; the lemmas show that on a terminated string
  every routine returns, and what. \<open>cstr m a xs\<close> says that the bytes \<open>xs\<close> and then the
  terminator are at \<open>a\<close>. Lengths are the \<^verbatim>\<open>int\<close> or \<^verbatim>\<open>size_t\<close> of the code, as 32-bit words.
\<close>

section \<open>The routines\<close>

partial_function (option) strlen_loop :: "memory \<Rightarrow> u32 \<Rightarrow> u32 \<Rightarrow> u32 option" where
  "strlen_loop m s n = (if m s \<noteq> 0 then strlen_loop m (s + 1) (n + 1) else Some n)"

definition strlen :: "memory \<Rightarrow> u32 \<Rightarrow> u32 option" where
  "strlen m s = strlen_loop m s 0"

fun strnlen_loop :: "nat \<Rightarrow> memory \<Rightarrow> u32 \<Rightarrow> u32 \<Rightarrow> u32" where
  "strnlen_loop 0 m s n = n"
| "strnlen_loop (Suc k) m s n = (if m s \<noteq> 0 then strnlen_loop k m (s + 1) (n + 1) else n)"

definition strnlen :: "memory \<Rightarrow> u32 \<Rightarrow> u32 \<Rightarrow> u32" where
  "strnlen m s sz = strnlen_loop (unat sz) m s 0"

text \<open>The routines that write return the memory; the C result is the argument \<open>dst\<close>.\<close>

partial_function (option) strcpy :: "memory \<Rightarrow> u32 \<Rightarrow> u32 \<Rightarrow> memory option" where
  "strcpy m dst src =
     (let c = m src; m = m(dst := c) in if c \<noteq> 0 then strcpy m (dst + 1) (src + 1) else Some m)"

definition strcat :: "memory \<Rightarrow> u32 \<Rightarrow> u32 \<Rightarrow> memory option" where
  "strcat m dst src = (case strlen m dst of None \<Rightarrow> None | Some len \<Rightarrow> strcpy m (dst + len) src)"

fun strncpy_loop :: "nat \<Rightarrow> memory \<Rightarrow> u32 \<Rightarrow> u32 \<Rightarrow> memory" where
  "strncpy_loop 0 m dst src = m"
| "strncpy_loop (Suc k) m dst src =
     (let m = m(dst := m src) in strncpy_loop k m (dst + 1) (if m src \<noteq> 0 then src + 1 else src))"

definition strncpy :: "memory \<Rightarrow> u32 \<Rightarrow> u32 \<Rightarrow> u32 \<Rightarrow> memory" where
  "strncpy m dst src sz = strncpy_loop (unat sz) m dst src"

text \<open>\<open>strlcpy_loop\<close> has \<open>size\<close> after the decrement; it returns the final \<open>dst\<close>.\<close>

fun strlcpy_loop :: "nat \<Rightarrow> memory \<Rightarrow> u32 \<Rightarrow> u32 \<Rightarrow> memory \<times> u32" where
  "strlcpy_loop 0 m dst src = (m, dst)"
| "strlcpy_loop (Suc k) m dst src =
     (if m src \<noteq> 0 then strlcpy_loop k (m(dst := m src)) (dst + 1) (src + 1) else (m, dst))"

definition strlcpy :: "memory \<Rightarrow> u32 \<Rightarrow> u32 \<Rightarrow> u32 \<Rightarrow> memory \<times> u32" where
  "strlcpy m dst src sz =
     (let dst_in = dst in
      if sz > 0 then
        (let (m, dst) = strlcpy_loop (unat sz - 1) m dst src in (m(dst := 0), dst - dst_in))
      else (m, dst - dst_in))"

partial_function (option) strcmp :: "memory \<Rightarrow> u32 \<Rightarrow> u32 \<Rightarrow> int option" where
  "strcmp m p q =
     (if m p \<noteq> 0 \<and> m p = m q then strcmp m (p + 1) (q + 1)
      else Some (uint (m p) - uint (m q)))"

fun strncmp_loop :: "nat \<Rightarrow> memory \<Rightarrow> u32 \<Rightarrow> u32 \<Rightarrow> int" where
  "strncmp_loop 0 m p q = 0"
| "strncmp_loop (Suc n) m p q =
     (if m p \<noteq> 0 \<and> m p = m q then strncmp_loop n m (p + 1) (q + 1)
      else uint (m p) - uint (m q))"

definition strncmp :: "memory \<Rightarrow> u32 \<Rightarrow> u32 \<Rightarrow> u32 \<Rightarrow> int" where
  "strncmp m p q n = strncmp_loop (unat n) m p q"

partial_function (option) strchr :: "memory \<Rightarrow> u32 \<Rightarrow> u8 \<Rightarrow> u32 option" where
  "strchr m s c =
     (if m s \<noteq> 0 then (if m s = c then Some s else strchr m (s + 1) c) else Some 0)"

partial_function (option) strfind :: "memory \<Rightarrow> u32 \<Rightarrow> u8 \<Rightarrow> u32 option" where
  "strfind m s c =
     (if m s \<noteq> 0 then (if m s = c then Some s else strfind m (s + 1) c) else Some s)"

text \<open>\<open>strtol\<close>: \<^verbatim>\<open>long\<close> is 32 bits wide and the accumulation wraps.\<close>

partial_function (option) skip_blanks :: "memory \<Rightarrow> u32 \<Rightarrow> u32 option" where
  "skip_blanks m s =
     (if m s = chr CHR '' '' \<or> m s = chr CHR 0x09 then skip_blanks m (s + 1) else Some s)"

definition digit_of :: "u8 \<Rightarrow> int option" where
  "digit_of c =
     (if c \<ge> chr CHR ''0'' \<and> c \<le> chr CHR ''9'' then Some (uint c - uint (chr CHR ''0''))
      else if c \<ge> chr CHR ''a'' \<and> c \<le> chr CHR ''z'' then Some (uint c - uint (chr CHR ''a'') + 10)
      else if c \<ge> chr CHR ''A'' \<and> c \<le> chr CHR ''Z'' then Some (uint c - uint (chr CHR ''A'') + 10)
      else None)"

partial_function (option) strtol_digits ::
    "memory \<Rightarrow> int \<Rightarrow> u32 \<Rightarrow> u32 \<Rightarrow> (u32 \<times> u32) option" where
  "strtol_digits m base s val =
     (case digit_of (m s) of
        None \<Rightarrow> Some (s, val)
      | Some dig \<Rightarrow> if dig \<ge> base then Some (s, val)
          else strtol_digits m base (s + 1) (val * of_int base + of_int dig))"

text \<open>The result is the value and the pointer stored through \<^verbatim>\<open>endptr\<close>.\<close>

definition strtol :: "memory \<Rightarrow> u32 \<Rightarrow> int \<Rightarrow> (u32 \<times> u32) option" where
  "strtol m s base =
     (case skip_blanks m s of None \<Rightarrow> None | Some s \<Rightarrow>
      let (s, neg) = (if m s = chr CHR ''+'' then (s + 1, False)
                      else if m s = chr CHR ''-'' then (s + 1, True) else (s, False));
          (s, base) =
            (if (base = 0 \<or> base = 16) \<and> m s = chr CHR ''0'' \<and> m (s + 1) = chr CHR ''x''
             then (s + 2, 16)
             else if base = 0 \<and> m s = chr CHR ''0'' then (s + 1, 8)
             else if base = 0 then (s, 10) else (s, base))
      in case strtol_digits m base s 0 of None \<Rightarrow> None
         | Some (s, val) \<Rightarrow> Some (if neg then - val else val, s))"

section \<open>Terminated strings\<close>

fun bytes_at :: "memory \<Rightarrow> u32 \<Rightarrow> u8 list \<Rightarrow> bool" where
  "bytes_at m a [] \<longleftrightarrow> True"
| "bytes_at m a (x # xs) \<longleftrightarrow> m a = x \<and> bytes_at m (a + 1) xs"

definition cstr :: "memory \<Rightarrow> u32 \<Rightarrow> u8 list \<Rightarrow> bool" where
  "cstr m a xs \<longleftrightarrow> 0 \<notin> set xs \<and> bytes_at m a (xs @ [0])"

lemma cstr_Nil [simp]: "cstr m a [] \<longleftrightarrow> m a = 0"
  by (simp add: cstr_def)

lemma cstr_Cons [simp]: "cstr m a (x # xs) \<longleftrightarrow> x \<noteq> 0 \<and> m a = x \<and> cstr m (a + 1) xs"
  by (auto simp: cstr_def)

lemma bytes_at_nth: "bytes_at m a xs \<longleftrightarrow> (\<forall>i < length xs. m (a + of_nat i) = xs ! i)"
proof (induction xs arbitrary: a)
  case (Cons x xs)
  show ?case
    unfolding bytes_at.simps Cons.IH
    by (auto simp: less_Suc_eq_0_disj algebra_simps)
qed simp

lemma cstr_bytes: "cstr m a xs \<longleftrightarrow> 0 \<notin> set xs \<and> bytes_at m a xs \<and> m (a + of_nat (length xs)) = 0"
proof (induction xs arbitrary: a)
  case (Cons x xs)
  then show ?case by (auto simp: algebra_simps)
qed simp

text \<open>A string below \<open>2 ^ 32\<close> bytes long is at one length only.\<close>

lemma cstr_det: "cstr m a xs \<Longrightarrow> cstr m a ys \<Longrightarrow> xs = ys"
proof (induction xs arbitrary: a ys)
  case Nil
  then show ?case by (cases ys) auto
next
  case (Cons x xs)
  then show ?case by (cases ys) auto
qed

lemma strlen_loop_cstr: "cstr m a xs \<Longrightarrow> strlen_loop m a n = Some (n + of_nat (length xs))"
  by (induction xs arbitrary: a n) (subst strlen_loop.simps, simp)+

lemma strlen_cstr: "cstr m a xs \<Longrightarrow> strlen m a = Some (of_nat (length xs))"
  by (simp add: strlen_def strlen_loop_cstr)

lemma strnlen_cstr:
  assumes "cstr m a xs"
  shows "strnlen m a sz = of_nat (min (unat sz) (length xs))"
proof -
  have "strnlen_loop k m a n = n + of_nat (min k (length xs))" for k n
    using assms
  proof (induction xs arbitrary: a k n)
    case Nil
    then show ?case by (cases k) auto
  next
    case (Cons x xs)
    then show ?case by (cases k) (auto simp: algebra_simps)
  qed
  then show ?thesis by (simp add: strnlen_def)
qed

text \<open>Comparison, and searching.\<close>

lemma strcmp_cstr:
  assumes "cstr m p xs" and "cstr m q ys"
  shows "\<exists>r. strcmp m p q = Some r \<and> (r = 0 \<longleftrightarrow> xs = ys)
    \<and> (r < 0 \<longleftrightarrow> (xs, ys) \<in> lexord {(a, b). a < b})"
  using assms
proof (induction xs arbitrary: p q ys)
  case Nil
  show ?case
  proof (cases ys)
    case Nil': Nil
    then show ?thesis using Nil.prems by (subst strcmp.simps) simp
  next
    case (Cons y ys')
    have "0 < uint y" using Cons Nil.prems(2) by (simp add: uint_pos)
    then show ?thesis using Cons Nil.prems by (subst strcmp.simps) simp
  qed
next
  case (Cons x xs)
  have x: "0 < uint x" using Cons.prems(1) by (simp add: uint_pos)
  show ?case
  proof (cases ys)
    case Nil
    then show ?thesis using Cons.prems x by (subst strcmp.simps) simp
  next
    case ys: (Cons y ys')
    show ?thesis
    proof (cases "x = y")
      case True
      then have "strcmp m p q = strcmp m (p + 1) (q + 1)"
        using Cons.prems ys by (subst strcmp.simps) simp
      moreover obtain r where "strcmp m (p + 1) (q + 1) = Some r" "r = 0 \<longleftrightarrow> xs = ys'"
        "r < 0 \<longleftrightarrow> (xs, ys') \<in> lexord {(a, b). a < b}"
        using Cons.IH [of "p + 1" "q + 1" ys'] Cons.prems ys by auto
      ultimately show ?thesis using True ys by simp
    next
      case False
      then have "uint x \<noteq> uint y" by (simp add: word_uint_eq_iff)
      moreover have "strcmp m p q = Some (uint x - uint y)"
        using Cons.prems ys False by (subst strcmp.simps) simp
      ultimately show ?thesis using False ys by (auto simp: word_less_def)
    qed
  qed
qed

lemma strfind_cstr:
  assumes "cstr m a xs" and "c \<noteq> 0"
  shows "strfind m a c = Some (a + of_nat (length (takeWhile (\<lambda>x. x \<noteq> c) xs)))"
  using assms(1)
proof (induction xs arbitrary: a)
  case Nil
  then show ?case by (subst strfind.simps) simp
next
  case (Cons x xs)
  then show ?case by (subst strfind.simps) (auto simp: algebra_simps)
qed

lemma strchr_cstr:
  assumes "cstr m a xs" and "c \<noteq> 0"
  shows "strchr m a c = (if c \<in> set xs
    then Some (a + of_nat (length (takeWhile (\<lambda>x. x \<noteq> c) xs))) else Some 0)"
  using assms(1)
proof (induction xs arbitrary: a)
  case Nil
  then show ?case by (subst strchr.simps) simp
next
  case (Cons x xs)
  then show ?case by (subst strchr.simps) (auto simp: algebra_simps)
qed

section \<open>Copying\<close>

text \<open>The memory with the bytes \<open>xs\<close> stored from \<open>a\<close> on.\<close>

definition put_bytes :: "memory \<Rightarrow> u32 \<Rightarrow> u8 list \<Rightarrow> memory" where
  "put_bytes m a xs = (\<lambda>x. if in_range a (length xs) x then xs ! unat (x - a) else m x)"

lemma put_bytes_Nil [simp]: "put_bytes m a [] = m"
  by (simp add: put_bytes_def)

lemma put_bytes_Cons:
  assumes "length xs < 2 ^ 32"
  shows "put_bytes m a (x # xs) = put_bytes (m(a := x)) (a + 1) xs"
proof
  fix b
  have shift: "in_range (a + 1) (length xs) b \<longleftrightarrow> 1 \<le> unat (b - a) \<and> unat (b - a) < 1 + length xs"
    using in_range_shift [of 1 "length xs" a b] assms by simp
  show "put_bytes m a (x # xs) b = put_bytes (m(a := x)) (a + 1) xs b"
  proof (cases "b = a")
    case True
    then show ?thesis using shift by (simp add: put_bytes_def in_range_def)
  next
    case False
    then have "b - a \<noteq> 0" by simp
    then have pos: "unat (b - a) \<noteq> 0" by (simp only: unat_eq_0) simp
    moreover have "unat (b - (a + 1)) = unat (b - a) - 1"
      using pos unat_minus_one [of "b - a"] \<open>b - a \<noteq> 0\<close> by (simp add: algebra_simps)
    ultimately show ?thesis
      using False shift by (auto simp: put_bytes_def in_range_def nth_Cons')
  qed
qed

lemma put_bytes_outside: "\<not> in_range a (length xs) x \<Longrightarrow> put_bytes m a xs x = m x"
  by (simp add: put_bytes_def)

lemma in_range_offset: "k \<le> 2 ^ 32 \<Longrightarrow> in_range a k x \<longleftrightarrow> (\<exists>i < k. x = a + of_nat i)"
proof
  assume "in_range a k x"
  then show "\<exists>i < k. x = a + of_nat i"
    by (intro exI [of _ "unat (x - a)"]) (simp add: in_range_def)
next
  assume "k \<le> 2 ^ 32" and "\<exists>i < k. x = a + of_nat i"
  then obtain i where "i < k" "x = a + of_nat i" "i < 2 ^ 32" by auto
  then show "in_range a k x" by (simp add: in_range_def unat_of_nat_small)
qed

lemma bytes_at_put:
  "length xs \<le> 2 ^ 32 \<Longrightarrow> bytes_at (put_bytes m a xs) a xs"
  by (simp add: bytes_at_nth put_bytes_def in_range_def unat_of_nat_small)

lemma bytes_at_put_zero:
  assumes "length xs < 2 ^ 32"
  shows "bytes_at (put_bytes (\<lambda>_. 0) a xs) a (xs @ [0])"
proof -
  have u: "unat (of_nat i :: u32) = i" if "i < Suc (length xs)" for i
    using assms that by (intro unat_of_nat_small) simp
  show ?thesis by (auto simp: bytes_at_nth nth_append put_bytes_def in_range_def u)
qed

lemma cstr_put: "0 \<notin> set xs \<Longrightarrow> length xs < 2 ^ 32 \<Longrightarrow> cstr (put_bytes m a (xs @ [0])) a xs"
  unfolding cstr_def using bytes_at_put [of "xs @ [0]"] by simp

lemma cstr_cong:
  assumes "\<And>i. i \<le> length xs \<Longrightarrow> m' (a + of_nat i) = m (a + of_nat i)"
  shows "cstr m' a xs = cstr m a xs"
  unfolding cstr_bytes bytes_at_nth using assms by auto

lemma cstr_upd:
  assumes "\<And>j. j < Suc (length xs) \<Longrightarrow> d \<noteq> a + of_nat j"
  shows "cstr (m(d := x)) a xs = cstr m a xs"
proof (rule cstr_cong)
  fix i
  assume "i \<le> length xs"
  then have "a + of_nat i \<noteq> d" using assms [of i] by auto
  then show "(m(d := x)) (a + of_nat i) = m (a + of_nat i)" by simp
qed

text \<open>The destination and the source do not overlap.\<close>

definition apart :: "u32 \<Rightarrow> nat \<Rightarrow> u32 \<Rightarrow> nat \<Rightarrow> bool" where
  "apart d k s n \<longleftrightarrow> (\<forall>i < k. \<forall>j < n. d + of_nat i \<noteq> s + of_nat j)"

lemma apart_Suc:
  assumes "apart d (Suc k) s (Suc n)"
  shows "apart (d + 1) k (s + 1) n" "apart (d + 1) k s (Suc n)"
    "\<And>j. j \<le> n \<Longrightarrow> d \<noteq> s + of_nat j" "\<And>j. j < n \<Longrightarrow> d \<noteq> s + 1 + of_nat j"
proof -
  have h: "d + of_nat i \<noteq> s + of_nat j" if "i < Suc k" "j < Suc n" for i j
    using assms that unfolding apart_def by blast
  show "apart (d + 1) k (s + 1) n" unfolding apart_def
    using h [of "Suc i" "Suc j" for i j] by (simp add: algebra_simps)
  show "apart (d + 1) k s (Suc n)" unfolding apart_def
    using h [of "Suc i" j for i j] by (simp add: algebra_simps)
  show "d \<noteq> s + of_nat j" if "j \<le> n" for j using h [of 0 j] that by simp
  show "d \<noteq> s + 1 + of_nat j" if "j < n" for j
    using h [of 0 "Suc j"] that by (simp add: algebra_simps)
qed

lemma strcpy_cstr:
  assumes "cstr m src xs" and "apart dst (Suc (length xs)) src (Suc (length xs))"
    and "length xs < 2 ^ 32"
  shows "strcpy m dst src = Some (put_bytes m dst (xs @ [0]))"
  using assms
proof (induction xs arbitrary: m dst src)
  case Nil
  then show ?case by (subst strcpy.simps) (simp add: put_bytes_Cons)
next
  case (Cons x xs)
  let ?m = "m(dst := x)"
  note ap = apart_Suc [OF Cons.prems(2) [unfolded list.size add_Suc_right add_0_right]]
  have "cstr ?m (src + 1) xs = cstr m (src + 1) xs"
    by (rule cstr_upd) (use ap(4) in simp)
  then have "strcpy ?m (dst + 1) (src + 1) = Some (put_bytes ?m (dst + 1) (xs @ [0]))"
    by (intro Cons.IH) (use Cons.prems(1,3) ap(1) in \<open>simp_all add: fun_upd_def\<close>)
  then show ?case
    using Cons.prems by (subst strcpy.simps) (simp add: put_bytes_Cons)
qed

lemma strncpy_loop_cstr:
  assumes "cstr m src xs" and "apart dst k src (Suc (length xs))" and "k \<le> 2 ^ 32"
  shows "strncpy_loop k m dst src = put_bytes m dst (take k (xs @ replicate k 0))"
  using assms
proof (induction k arbitrary: m dst src xs)
  case 0
  then show ?case by simp
next
  case (Suc k)
  note ap = apart_Suc [OF Suc.prems(2)]
  show ?case
  proof (cases xs)
    case Nil
    then have "cstr (m(dst := 0)) src []" using Suc.prems(1) by simp
    from Suc.IH [OF this, of "dst + 1"] ap(2) Nil Suc.prems(3)
    have "strncpy_loop k (m(dst := 0)) (dst + 1) src = put_bytes (m(dst := 0)) (dst + 1) (replicate k 0)"
      by (simp add: fun_upd_def)
    then show ?thesis using Nil Suc.prems by (auto simp: put_bytes_Cons)
  next
    case (Cons x xs')
    let ?m = "m(dst := x)"
    have "cstr ?m (src + 1) xs' = cstr m (src + 1) xs'"
      by (rule cstr_upd) (use ap(4) Cons in simp)
    then have "strncpy_loop k ?m (dst + 1) (src + 1) = put_bytes ?m (dst + 1) (take k (xs' @ replicate k 0))"
      by (intro Suc.IH) (use Suc.prems ap(1) Cons in \<open>simp_all add: fun_upd_def\<close>)
    moreover have "take k (xs' @ replicate (Suc k) 0) = take k (xs' @ replicate k 0)"
      by (simp add: take_Cons' replicate_app_Cons_same [symmetric] del: replicate.simps)
    moreover have "dst \<noteq> src" using ap(3) [of 0] by simp
    ultimately show ?thesis using Suc.prems Cons by (simp add: put_bytes_Cons)
  qed
qed

lemma strlcpy_loop_cstr:
  assumes "cstr m src xs" and "apart dst k src (Suc (length xs))" and "k < 2 ^ 32"
  shows "strlcpy_loop k m dst src
    = (put_bytes m dst (take k xs), dst + of_nat (min k (length xs)))"
  using assms
proof (induction k arbitrary: m dst src xs)
  case 0
  then show ?case by simp
next
  case (Suc k)
  note ap = apart_Suc [OF Suc.prems(2)]
  show ?case
  proof (cases xs)
    case Nil
    then show ?thesis using Suc.prems(1) by simp
  next
    case (Cons x xs')
    let ?m = "m(dst := x)"
    have "cstr ?m (src + 1) xs' = cstr m (src + 1) xs'"
      by (rule cstr_upd) (use ap(4) Cons in simp)
    then have "strlcpy_loop k ?m (dst + 1) (src + 1)
        = (put_bytes ?m (dst + 1) (take k xs'), dst + 1 + of_nat (min k (length xs')))"
      by (intro Suc.IH) (use Suc.prems ap(1) Cons in \<open>simp_all add: fun_upd_def\<close>)
    then show ?thesis using Suc.prems Cons by (simp add: put_bytes_Cons algebra_simps)
  qed
qed

section \<open>Numbers\<close>

lemma bytes_at_append:
  "bytes_at m a (xs @ ys) \<longleftrightarrow> bytes_at m a xs \<and> bytes_at m (a + of_nat (length xs)) ys"
  by (induction xs arbitrary: a) (auto simp: algebra_simps)

abbreviation is_blank :: "u8 \<Rightarrow> bool" where
  "is_blank c \<equiv> c = chr CHR '' '' \<or> c = chr CHR 0x09"

lemma skip_blanks_spec:
  assumes "bytes_at m s bs" and "\<forall>c \<in> set bs. is_blank c" and "\<not> is_blank (m (s + of_nat (length bs)))"
  shows "skip_blanks m s = Some (s + of_nat (length bs))"
  using assms
proof (induction bs arbitrary: s)
  case Nil
  then show ?case by (subst skip_blanks.simps) simp
next
  case (Cons b bs)
  then have "skip_blanks m (s + 1) = Some (s + 1 + of_nat (length bs))"
    by (intro Cons.IH) (auto simp: algebra_simps)
  moreover have "is_blank (m s)" using Cons.prems by simp
  ultimately show ?case by (subst skip_blanks.simps) (simp add: algebra_simps)
qed

definition digits_value :: "int \<Rightarrow> int \<Rightarrow> int list \<Rightarrow> int" where
  "digits_value base v ds = foldl (\<lambda>v d. v * base + d) v ds"

lemma digits_value_simps [simp]:
  "digits_value base v [] = v"
  "digits_value base v (d # ds) = digits_value base (v * base + d) ds"
  "digits_value base v (ds @ [d]) = digits_value base v ds * base + d"
  by (simp_all add: digits_value_def)

definition is_digit :: "int \<Rightarrow> u8 \<Rightarrow> int \<Rightarrow> bool" where
  "is_digit radix c d \<longleftrightarrow> digit_of c = Some d \<and> d < radix"

definition no_digit :: "int \<Rightarrow> u8 \<Rightarrow> bool" where
  "no_digit radix c \<longleftrightarrow> (case digit_of c of None \<Rightarrow> True | Some d \<Rightarrow> radix \<le> d)"

lemma strtol_digits_spec:
  assumes "bytes_at m s (cs @ [t])" and "list_all2 (is_digit radix) cs ds" and "no_digit radix t"
  shows "strtol_digits m radix s (of_int v)
    = Some (s + of_nat (length cs), of_int (digits_value radix v ds))"
  using assms(2,1)
proof (induction cs ds arbitrary: s v rule: list_all2_induct)
  case Nil
  then show ?case
    using assms(3) by (subst strtol_digits.simps) (auto simp: no_digit_def split: option.splits)
next
  case (Cons c cs d ds)
  then have "strtol_digits m radix (s + 1) (of_int (v * radix + d))
      = Some (s + 1 + of_nat (length cs), of_int (digits_value radix (v * radix + d) ds))"
    using Cons.IH [of "s + 1" "v * radix + d"] Cons.prems by simp
  then show ?case
    using Cons.hyps(1) Cons.prems
    by (subst strtol_digits.simps) (simp add: is_digit_def algebra_simps)
qed

text \<open>
  How the base and the text after the sign choose prefix and radix: \<open>rest\<close> is what follows the
  prefix. \<^verbatim>\<open>0x\<close> is a prefix for the bases 0 and 16 only, and \<^verbatim>\<open>0\<close> is one for base 0.
\<close>

definition radix_choice :: "int \<Rightarrow> u8 list \<Rightarrow> u8 list \<Rightarrow> int \<Rightarrow> bool" where
  "radix_choice base prefix rest radix \<longleftrightarrow>
     (prefix = [chr CHR ''0'', chr CHR ''x''] \<and> (base = 0 \<or> base = 16) \<and> radix = 16)
     \<or> (prefix = [] \<and> base = 16 \<and> take 2 rest \<noteq> [chr CHR ''0'', chr CHR ''x''] \<and> radix = 16)
     \<or> (prefix = [] \<and> base \<noteq> 0 \<and> base \<noteq> 16 \<and> radix = base)
     \<or> (prefix = [] \<and> base = 0 \<and> hd rest \<noteq> chr CHR ''0'' \<and> radix = 10)
     \<or> (prefix = [chr CHR ''0''] \<and> base = 0 \<and> hd rest \<noteq> chr CHR ''x'' \<and> radix = 8)"

text \<open>A character after which blanks and signs have ended.\<close>

definition plain_char :: "u8 \<Rightarrow> bool" where
  "plain_char c \<longleftrightarrow> \<not> is_blank c \<and> c \<noteq> chr CHR ''+'' \<and> c \<noteq> chr CHR ''-''"

lemma digit_plain: "is_digit radix c d \<Longrightarrow> plain_char c"
  by (auto simp: plain_char_def is_digit_def digit_of_def)

lemma strtol_spec:
  assumes bytes: "bytes_at m s (blanks @ sign @ prefix @ cs @ [t])"
    and blanks: "\<forall>c \<in> set blanks. is_blank c"
    and sign: "sign \<in> {[], [chr CHR ''+''], [chr CHR ''-'']}"
    and radix: "radix_choice base prefix (cs @ [t]) radix"
    and cs: "list_all2 (is_digit radix) cs ds" and t: "no_digit radix t"
    and end_plain: "sign @ prefix @ cs = [] \<Longrightarrow> plain_char t"
  shows "strtol m s base = Some
    (of_int (if sign = [chr CHR ''-''] then - digits_value radix 0 ds else digits_value radix 0 ds),
     s + of_nat (length blanks + length sign + length prefix + length cs))"
proof -
  let ?s1 = "s + of_nat (length blanks)"
  let ?s2 = "?s1 + of_nat (length sign)"
  let ?s3 = "?s2 + of_nat (length prefix)"
  have at: "bytes_at m s blanks" "bytes_at m ?s1 sign" "bytes_at m ?s2 prefix" "bytes_at m ?s3 (cs @ [t])"
    using bytes by (simp_all add: bytes_at_append add.assoc)
  have head: "m ?s3 = hd (cs @ [t])" using at(4) by (cases cs) simp_all
  have plain_hd: "plain_char (hd (cs @ [t]))" if "sign @ prefix = []"
    using that cs end_plain by (cases cs; cases ds) (auto dest: digit_plain)
  have plain: "plain_char (m ?s2)" if "sign = []"
    using that radix at(3) head plain_hd by (auto simp: radix_choice_def plain_char_def)
  have m1: "\<not> is_blank (m ?s1)"
    using sign at(2) plain by (auto simp: plain_char_def)
  have skip: "skip_blanks m s = Some ?s1" by (rule skip_blanks_spec [OF at(1) blanks m1])
  have sgn: "(if m ?s1 = chr CHR ''+'' then (?s1 + 1, False)
      else if m ?s1 = chr CHR ''-'' then (?s1 + 1, True) else (?s1, False))
      = (?s2, sign = [chr CHR ''-''])"
    using sign at(2) plain by (auto simp: plain_char_def)
  have second: "take 2 (cs @ [t]) = [chr CHR ''0'', chr CHR ''x'']"
    if "prefix = []" "radix = 16" "m ?s2 = chr CHR ''0''" "m (?s2 + 1) = chr CHR ''x''"
  proof (cases cs)
    case Nil
    then show ?thesis using that head t by (simp add: no_digit_def digit_of_def)
  next
    case (Cons c ys)
    then show ?thesis using that at(4) by (cases ys) (auto simp: numeral_2_eq_2)
  qed
  have rdx: "(if (base = 0 \<or> base = 16) \<and> m ?s2 = chr CHR ''0'' \<and> m (?s2 + 1) = chr CHR ''x''
       then (?s2 + 2, 16)
       else if base = 0 \<and> m ?s2 = chr CHR ''0'' then (?s2 + 1, 8)
       else if base = 0 then (?s2, 10) else (?s2, base)) = (?s3, radix)"
    using radix at(3) head second by (auto simp: radix_choice_def)
  have dig: "strtol_digits m radix ?s3 0 = Some (?s3 + of_nat (length cs), of_int (digits_value radix 0 ds))"
    using strtol_digits_spec [OF at(4) cs t, of 0] by simp
  show ?thesis
    unfolding strtol_def skip option.case Let_def sgn rdx prod.case dig
    by (simp add: add.assoc)
qed

section \<open>Contracts\<close>

text \<open>\<open>strcpy\<close> and \<open>strlen\<close> on a terminated source that does not overlap the
  destination: the copy returns, the destination then holds the same string, whose length
  \<open>strlen\<close> reports, and no byte outside the copied range changes.\<close>

theorem strcpy_contract:
  assumes "cstr m src xs" and "apart dst (Suc (length xs)) src (Suc (length xs))"
    and "length xs < 2 ^ 32"
  shows "\<exists>m'. strcpy m dst src = Some m' \<and> cstr m' dst xs \<and> cstr m' src xs
    \<and> strlen m' dst = Some (of_nat (length xs))
    \<and> (\<forall>a. \<not> in_range dst (Suc (length xs)) a \<longrightarrow> m' a = m a)"
proof -
  let ?m = "put_bytes m dst (xs @ [0])"
  have dst: "cstr ?m dst xs" using assms(1,3) by (intro cstr_put) (auto simp: cstr_def)
  have "cstr ?m src xs = cstr m src xs"
  proof (rule cstr_cong)
    fix i
    assume i: "i \<le> length xs"
    have "\<not> in_range dst (length (xs @ [0])) (src + of_nat i)"
    proof
      assume "in_range dst (length (xs @ [0])) (src + of_nat i)"
      then obtain k where "k < Suc (length xs)" "src + of_nat i = dst + of_nat k"
        using in_range_offset [of "Suc (length xs)" dst "src + of_nat i"] assms(3) by auto
      then show False using assms(2) i unfolding apart_def by (metis le_imp_less_Suc)
    qed
    then show "?m (src + of_nat i) = m (src + of_nat i)" by (rule put_bytes_outside)
  qed
  then show ?thesis
    using strcpy_cstr [OF assms] dst strlen_cstr [OF dst] put_bytes_outside [of dst "xs @ [0]" _ m] assms(1)
    by simp
qed

lemma strcpy_contract_witness:
  "\<exists>m'. strcpy ((\<lambda>_. 0)(100 := 65, 101 := 66)) 200 100 = Some m' \<and> m' 200 = 65 \<and> m' 201 = 66 \<and> m' 202 = 0"
proof -
  have "cstr ((\<lambda>_. 0)(100 := 65, 101 := 66)) 100 [65, 66]" by simp
  moreover have "apart 200 (Suc (length [65 :: u8, 66])) 100 (Suc (length [65 :: u8, 66]))"
    by (auto simp: apart_def less_Suc_eq)
  ultimately obtain m' where "strcpy ((\<lambda>_. 0)(100 := 65, 101 := 66)) 200 100 = Some m'"
    "cstr m' 200 [65, 66]"
    using strcpy_contract [of "(\<lambda>_. 0)(100 := 65, 101 := 66)" 100 "[65, 66]" 200] by auto
  then show ?thesis by simp
qed

text \<open>C20: \<open>strtol\<close> skips blanks, takes one sign, chooses the radix from \<^verbatim>\<open>base\<close> and the
  prefix, accumulates the digits up to the first character that is not a digit of the
  radix, and leaves \<^verbatim>\<open>endptr\<close> on that character; the value is the number modulo
  \<open>2 ^ 32\<close>, as overflow is not detected. The text may have no digit at all, and every base is
  covered: 16 with and without its prefix, 0 with each of its three readings, and the others.\<close>

theorem strtol_parses:
  assumes "bytes_at m s (blanks @ sign @ prefix @ cs @ [t])"
    and "\<forall>c \<in> set blanks. is_blank c"
    and "sign \<in> {[], [chr CHR ''+''], [chr CHR ''-'']}"
    and "radix_choice base prefix (cs @ [t]) radix"
    and "list_all2 (is_digit radix) cs ds" and "no_digit radix t"
    and "sign @ prefix @ cs = [] \<Longrightarrow> plain_char t"
  shows "strtol m s base = Some
    (of_int (if sign = [chr CHR ''-''] then - digits_value radix 0 ds else digits_value radix 0 ds),
     s + of_nat (length blanks + length sign + length prefix + length cs))"
  using strtol_spec [OF assms] .

text \<open>The text \<^verbatim>\<open>" -0x1f"\<close> read in base 0, \<^verbatim>\<open>"1F"\<close> in base 16, and a lone \<^verbatim>\<open>"0"\<close> in base 0.\<close>

lemma strtol_parses_witness:
  "strtol ((\<lambda>_. 0)(10 := 32, 11 := 45, 12 := 48, 13 := 120, 14 := 49, 15 := 102)) 10 0
     = Some (- 31, 16)
   \<and> strtol ((\<lambda>_. 0)(10 := 49, 11 := 70)) 10 16 = Some (31, 12)
   \<and> strtol ((\<lambda>_. 0)(10 := 48)) 10 0 = Some (0, 11)"
  using strtol_parses [of "(\<lambda>_. 0)(10 := 32, 11 := 45, 12 := 48, 13 := 120, 14 := 49, 15 := 102)" 10
      "[32]" "[chr CHR ''-'']" "[chr CHR ''0'', chr CHR ''x'']" "[49, 102]" 0 0 16 "[1, 15]"]
    strtol_parses [of "(\<lambda>_. 0)(10 := 49, 11 := 70)" 10 "[]" "[]" "[]" "[49, 70]" 0 16 16 "[1, 15]"]
    strtol_parses [of "(\<lambda>_. 0)(10 := 48)" 10 "[]" "[]" "[chr CHR ''0'']" "[]" 0 0 8 "[]"]
  by (simp add: radix_choice_def is_digit_def digit_of_def no_digit_def)

end
