(* ===== verification/Printf.thy ===== *)
theory Printf
  imports Strings PageTable
begin

text \<open>
  The formatter of \<^verbatim>\<open>lib/printfmt.c\<close>: \<open>printnum\<close>, \<open>getuint\<close>, \<open>getint\<close>, \<open>vprintfmt\<close> with
  all its flags and conversions, \<open>vsnprintf\<close> and its \<open>sprintputch\<close>.

  \<^item> \<^verbatim>\<open>putch\<close> and \<^verbatim>\<open>putdat\<close> are a function \<open>int \<Rightarrow> 's \<Rightarrow> 's\<close> on the output state.
  \<^item> The variable arguments are the 32-bit stack slots \<open>ap 0, ap 1, \<dots>\<close>; \<open>n\<close> is the next
    one. A \<^verbatim>\<open>long long\<close> takes two slots, low half first.
  \<^item> \<open>m\<close> is the memory the \<^verbatim>\<open>%s\<close> arguments point into, \<open>fm\<close> the memory the format string
    is in; they differ only in the formatter's calls of itself, whose strings are literals.
    The strings are not in the buffer the output is written to.
  \<^item> \<open>None\<close> is a call that has no defined outcome: it runs forever on an unterminated string,
    or reads a table out of its bounds.
  \<^item> \<^verbatim>\<open>width\<close> and \<^verbatim>\<open>precision\<close> are integers: C leaves their overflow undefined.
\<close>

section \<open>Literals\<close>

definition LIT :: u32 where "LIT = 4096"

definition lit_mem :: "string \<Rightarrow> memory" where
  "lit_mem cs a = (if a \<ge> LIT \<and> unat (a - LIT) < length cs then chr (cs ! unat (a - LIT)) else 0)"

definition error_string :: "string option list" where
  "error_string = [None, Some ''unspecified error'', Some ''bad environment'',
     Some ''invalid parameter'', Some ''out of memory'', Some ''out of environments'',
     Some ''segmentation fault'']"

section \<open>Numbers\<close>

fun putch_times :: "(int \<Rightarrow> 's \<Rightarrow> 's) \<Rightarrow> int \<Rightarrow> nat \<Rightarrow> 's \<Rightarrow> 's" where
  "putch_times putch c 0 s = s"
| "putch_times putch c (Suc k) s = putch_times putch c k (putch c s)"

definition digit_char :: "u64 \<Rightarrow> int option" where
  "digit_char i = (if unat i < 16 then Some (chi (''0123456789abcdef'' ! unat i))
     else if unat i = 16 then Some 0 else None)"

partial_function (option) printnum ::
    "(int \<Rightarrow> 's \<Rightarrow> 's) \<Rightarrow> u64 \<Rightarrow> u32 \<Rightarrow> int \<Rightarrow> int \<Rightarrow> 's \<Rightarrow> 's option" where
  "printnum putch num base width padc s =
     Option.bind
       (if num \<ge> ucast base then printnum putch (num div ucast base) base (width - 1) padc s
        else Some (putch_times putch padc (nat (width - 1)) s))
       (\<lambda>s. Option.bind (digit_char (num mod ucast base)) (\<lambda>c. Some (putch c s)))"

definition getuint :: "(nat \<Rightarrow> u32) \<Rightarrow> nat \<Rightarrow> int \<Rightarrow> u64 \<times> nat" where
  "getuint ap n lflag =
     (if lflag \<ge> 2 then (ucast (ap n) OR push_bit 32 (ucast (ap (n + 1))), n + 2)
      else (ucast (ap n), n + 1))"

definition getint :: "(nat \<Rightarrow> u32) \<Rightarrow> nat \<Rightarrow> int \<Rightarrow> u64 \<times> nat" where
  "getint ap n lflag =
     (if lflag \<ge> 2 then (ucast (ap n) OR push_bit 32 (ucast (ap (n + 1))), n + 2)
      else (scast (ap n), n + 1))"

section \<open>The formatter\<close>

record pfspec =
  pf_padc :: int
  pf_width :: int
  pf_precision :: int
  pf_lflag :: int
  pf_altflag :: bool

definition pf_init :: pfspec where
  "pf_init = \<lparr>pf_padc = chi CHR '' '', pf_width = - 1, pf_precision = - 1, pf_lflag = 0,
     pf_altflag = False\<rparr>"

definition process_precision :: "int \<Rightarrow> pfspec \<Rightarrow> pfspec" where
  "process_precision prec f =
     (if pf_width f < 0 then f\<lparr>pf_width := prec, pf_precision := - 1\<rparr> else f\<lparr>pf_precision := prec\<rparr>)"

text \<open>The digits of a width or precision; returns the number and the position after it.\<close>

partial_function (option) read_precision :: "memory \<Rightarrow> u8 \<Rightarrow> u32 \<Rightarrow> int \<Rightarrow> (int \<times> u32) option" where
  "read_precision fm ch fmt prec =
     (let prec = prec * 10 + uint ch - chi CHR ''0''; ch = fm fmt in
      if ch < chr CHR ''0'' \<or> ch > chr CHR ''9'' then Some (prec, fmt)
      else read_precision fm ch (fmt + 1) prec)"

text \<open>The characters of \<^verbatim>\<open>%s\<close>; returns the width that is left. A \<^verbatim>\<open>char\<close> is signed.\<close>

partial_function (option) put_string ::
    "(int \<Rightarrow> 's \<Rightarrow> 's) \<Rightarrow> memory \<Rightarrow> u32 \<Rightarrow> int \<Rightarrow> int \<Rightarrow> bool \<Rightarrow> 's \<Rightarrow> ('s \<times> int) option" where
  "put_string putch m p prec width alt s =
     (if m p \<noteq> 0 \<and> (prec < 0 \<or> prec - 1 \<ge> 0) then
        let ch = sint (m p);
            c = (if alt \<and> (ch < chi CHR '' '' \<or> ch > chi CHR ''~'') then chi CHR ''?'' else ch)
        in put_string putch m (p + 1) (if prec < 0 then prec else prec - 1) (width - 1) alt (putch c s)
      else Some (s, width))"

definition print_string :: "(int \<Rightarrow> 's \<Rightarrow> 's) \<Rightarrow> memory \<Rightarrow> u32 \<Rightarrow> pfspec \<Rightarrow> 's \<Rightarrow> 's option" where
  "print_string putch m p f s =
     (let (m, p) = (if p = 0 then (lit_mem ''(null)'', LIT) else (m, p));
          (s, width) =
            (if pf_width f > 0 \<and> pf_padc f \<noteq> chi CHR ''-'' then
               let width = pf_width f - sint (strnlen m p (of_int (pf_precision f)))
               in (putch_times putch (pf_padc f) (nat width) s, min width 0)
             else (s, pf_width f))
      in Option.bind (put_string putch m p (pf_precision f) width (pf_altflag f) s) (\<lambda>(s, width).
         Some (putch_times putch (chi CHR '' '') (nat width) s)))"

text \<open>Back to the character after the \<^verbatim>\<open>%\<close>.\<close>

partial_function (option) back_up :: "memory \<Rightarrow> u32 \<Rightarrow> u32 option" where
  "back_up fm fmt = (if fm (fmt - 1) \<noteq> chr CHR ''%'' then back_up fm (fmt - 1) else Some fmt)"

text \<open>
  One pass of the code from a character of the format to the next: \<open>md\<close> is \<open>None\<close> between
  conversions and the flags read so far inside one, a \<^verbatim>\<open>goto reswitch\<close> continues with the
  changed flags. \<open>Return\<close> is the end of the format, \<open>Go\<close> goes on, \<open>Error\<close> formats an
  error message with \<^verbatim>\<open>printfmt\<close> and goes on after it.
\<close>

datatype 's pfnext =
    Return 's
  | Go "pfspec option" u32 nat 's
  | Error memory memory "nat \<Rightarrow> u32" u32 nat 's

definition number ::
    "(int \<Rightarrow> 's \<Rightarrow> 's) \<Rightarrow> u64 \<Rightarrow> u32 \<Rightarrow> pfspec \<Rightarrow> u32 \<Rightarrow> nat \<Rightarrow> 's \<Rightarrow> 's pfnext option" where
  "number putch num base f fmt n s =
     map_option (\<lambda>s. Go None fmt n s) (printnum putch num base (pf_width f) (pf_padc f) s)"

definition text_step ::
    "(int \<Rightarrow> 's \<Rightarrow> 's) \<Rightarrow> memory \<Rightarrow> u32 \<Rightarrow> nat \<Rightarrow> 's \<Rightarrow> 's pfnext" where
  "text_step putch fm fmt n s =
     (let ch = fm fmt; fmt = fmt + 1 in
      if ch = chr CHR ''%'' then Go (Some pf_init) fmt n s
      else if ch = 0 then Return s
      else Go None fmt n (putch (uint ch) s))"

definition error_step :: "u32 \<Rightarrow> memory \<Rightarrow> u32 \<Rightarrow> nat \<Rightarrow> 's \<Rightarrow> 's pfnext option" where
  "error_step arg m fmt n s =
     (let err = arg; err = (if sint err < 0 then - err else err) in
      if sint err < 0 then None
      else Some
        (if sint err \<ge> MAXERROR \<or> error_string ! unat err = None
         then Error m (lit_mem ''error %d'') (\<lambda>_. err) fmt n s
         else Error (lit_mem (the (error_string ! unat err))) (lit_mem ''%s'') (\<lambda>_. LIT) fmt n s))"

definition conv_step ::
    "(int \<Rightarrow> 's \<Rightarrow> 's) \<Rightarrow> memory \<Rightarrow> memory \<Rightarrow> pfspec \<Rightarrow> u32 \<Rightarrow> (nat \<Rightarrow> u32) \<Rightarrow> nat \<Rightarrow> 's \<Rightarrow> 's pfnext option"
where
  "conv_step putch m fm f fmt ap n s =
    (let ch = fm fmt; fmt = fmt + 1 in
     if ch = chr CHR ''-'' then Some (Go (Some (f\<lparr>pf_padc := chi CHR ''-''\<rparr>)) fmt n s)
     else if ch = chr CHR ''0'' then Some (Go (Some (f\<lparr>pf_padc := chi CHR ''0''\<rparr>)) fmt n s)
     else if ch \<ge> chr CHR ''1'' \<and> ch \<le> chr CHR ''9'' then
       map_option (\<lambda>(prec, fmt). Go (Some (process_precision prec f)) fmt n s)
         (read_precision fm ch fmt 0)
     else if ch = chr CHR ''*'' then
       Some (Go (Some (process_precision (sint (ap n)) f)) fmt (n + 1) s)
     else if ch = chr CHR ''.'' then
       Some (Go (Some (if pf_width f < 0 then f\<lparr>pf_width := 0\<rparr> else f)) fmt n s)
     else if ch = chr CHR ''#'' then Some (Go (Some (f\<lparr>pf_altflag := True\<rparr>)) fmt n s)
     else if ch = chr CHR ''l'' then
       Some (Go (Some (f\<lparr>pf_lflag := pf_lflag f + 1\<rparr>)) fmt n s)
     else if ch = chr CHR ''c'' then Some (Go None fmt (n + 1) (putch (sint (ap n)) s))
     else if ch = chr CHR ''e'' then error_step (ap n) m fmt (n + 1) s
     else if ch = chr CHR ''s'' then
       map_option (\<lambda>s. Go None fmt (n + 1) s) (print_string putch m (ap n) f s)
     else if ch = chr CHR ''d'' then
       (let (num, n) = getint ap n (pf_lflag f);
            (num, s) = (if sint num < 0 then (- num, putch (chi CHR ''-'') s) else (num, s))
        in number putch num 10 f fmt n s)
     else if ch = chr CHR ''u'' then
       (let (num, n) = getuint ap n (pf_lflag f) in number putch num 10 f fmt n s)
     else if ch = chr CHR ''o'' then
       (let (num, n) = getuint ap n (pf_lflag f) in number putch num 8 f fmt n s)
     else if ch = chr CHR ''p'' then
       number putch (ucast (ap n)) 16 f fmt (n + 1) (putch (chi CHR ''x'') (putch (chi CHR ''0'') s))
     else if ch = chr CHR ''x'' then
       (let (num, n) = getuint ap n (pf_lflag f) in number putch num 16 f fmt n s)
     else if ch = chr CHR ''%'' then Some (Go None fmt n (putch (chi CHR ''%'') s))
     else map_option (\<lambda>fmt. Go None fmt n (putch (chi CHR ''%'') s)) (back_up fm (fmt - 1)))"

definition fmt_step ::
    "(int \<Rightarrow> 's \<Rightarrow> 's) \<Rightarrow> memory \<Rightarrow> memory \<Rightarrow> pfspec option \<Rightarrow> u32 \<Rightarrow> (nat \<Rightarrow> u32) \<Rightarrow> nat \<Rightarrow> 's
       \<Rightarrow> 's pfnext option" where
  "fmt_step putch m fm md fmt ap n s =
     (case md of None \<Rightarrow> Some (text_step putch fm fmt n s)
      | Some f \<Rightarrow> conv_step putch m fm f fmt ap n s)"

partial_function (option) vprintfmt_loop ::
    "(int \<Rightarrow> 's \<Rightarrow> 's) \<Rightarrow> memory \<Rightarrow> memory \<Rightarrow> pfspec option \<Rightarrow> u32 \<Rightarrow> (nat \<Rightarrow> u32) \<Rightarrow> nat \<Rightarrow> 's \<Rightarrow> 's option"
where
  "vprintfmt_loop putch m fm md fmt ap n s =
     Option.bind (fmt_step putch m fm md fmt ap n s) (\<lambda>r. case r of
       Return s \<Rightarrow> Some s
     | Go md fmt n s \<Rightarrow> vprintfmt_loop putch m fm md fmt ap n s
     | Error m' fm' ap' fmt n s \<Rightarrow>
         Option.bind (vprintfmt_loop putch m' fm' None LIT ap' 0 s) (\<lambda>s.
           vprintfmt_loop putch m fm None fmt ap n s))"

definition vprintfmt :: "(int \<Rightarrow> 's \<Rightarrow> 's) \<Rightarrow> memory \<Rightarrow> u32 \<Rightarrow> (nat \<Rightarrow> u32) \<Rightarrow> 's \<Rightarrow> 's option" where
  "vprintfmt putch m fmt ap s = vprintfmt_loop putch m m None fmt ap 0 s"

text \<open>\<open>printfmt\<close> starts the arguments at its first variable one and calls \<open>vprintfmt\<close>.\<close>

definition printfmt :: "(int \<Rightarrow> 's \<Rightarrow> 's) \<Rightarrow> memory \<Rightarrow> u32 \<Rightarrow> (nat \<Rightarrow> u32) \<Rightarrow> 's \<Rightarrow> 's option" where
  "printfmt putch m fmt args s = vprintfmt putch m fmt args s"

section \<open>Formatting into a buffer\<close>

record sprintbuf =
  sp_mem :: memory
  sp_buf :: u32
  sp_ebuf :: u32
  sp_cnt :: u32

definition sprintputch :: "int \<Rightarrow> sprintbuf \<Rightarrow> sprintbuf" where
  "sprintputch ch b =
     (let b = b\<lparr>sp_cnt := sp_cnt b + 1\<rparr> in
      if sp_buf b < sp_ebuf b
      then b\<lparr>sp_mem := (sp_mem b)(sp_buf b := of_int ch), sp_buf := sp_buf b + 1\<rparr>
      else b)"

text \<open>\<open>m\<close> holds the strings, \<open>bm\<close> is the memory that is written.\<close>

definition vsnprintf ::
    "memory \<Rightarrow> memory \<Rightarrow> u32 \<Rightarrow> u32 \<Rightarrow> u32 \<Rightarrow> (nat \<Rightarrow> u32) \<Rightarrow> (int \<times> memory) option" where
  "vsnprintf m bm buf n fmt ap =
     (let b = \<lparr>sp_mem = bm, sp_buf = buf, sp_ebuf = buf + n - 1, sp_cnt = 0\<rparr> in
      if buf = 0 \<or> sint n < 1 then Some (- E_INVAL, bm)
      else Option.bind (vprintfmt sprintputch m fmt ap b) (\<lambda>b.
           Some (sint (sp_cnt b), (sp_mem b)(sp_buf b := 0))))"

definition snprintf ::
    "memory \<Rightarrow> memory \<Rightarrow> u32 \<Rightarrow> u32 \<Rightarrow> u32 \<Rightarrow> (nat \<Rightarrow> u32) \<Rightarrow> (int \<times> memory) option" where
  "snprintf m bm buf n fmt args = vsnprintf m bm buf n fmt args"

section \<open>Digits\<close>

text \<open>The digits of \<open>n\<close> in base \<open>b\<close>, most significant first.\<close>

fun to_base :: "nat \<Rightarrow> nat \<Rightarrow> nat list" where
  "to_base b n = (if n < b \<or> b < 2 then [n] else to_base b (n div b) @ [n mod b])"

declare to_base.simps [simp del]

lemma to_base_nonempty [simp]: "to_base b n \<noteq> []"
  by (subst to_base.simps) simp

lemma to_base_bound: "2 \<le> b \<Longrightarrow> d \<in> set (to_base b n) \<Longrightarrow> d < b"
proof (induction b n rule: to_base.induct)
  case (1 b n)
  then show ?case by (subst (asm) (2) to_base.simps) (auto split: if_splits)
qed

lemma to_base_value: "2 \<le> b \<Longrightarrow> digits_value (int b) 0 (map int (to_base b n)) = int n"
proof (induction b n rule: to_base.induct)
  case (1 b n)
  show ?case
  proof (cases "n < b \<or> b < 2")
    case True
    then show ?thesis by (subst to_base.simps) simp
  next
    case False
    then have "digits_value (int b) 0 (map int (to_base b n))
        = int (n div b) * int b + int (n mod b)"
      using "1.IH" "1.prems" by (subst to_base.simps) simp
    also have "\<dots> = int n" by (metis div_mult_mod_eq of_nat_add of_nat_mult)
    finally show ?thesis .
  qed
qed

lemma to_base_hd: "2 \<le> b \<Longrightarrow> 0 < n \<Longrightarrow> 0 < hd (to_base b n)"
proof (induction b n rule: to_base.induct)
  case (1 b n)
  show ?case
  proof (cases "n < b \<or> b < 2")
    case True
    then show ?thesis using "1.prems" by (subst to_base.simps) simp
  next
    case False
    then have "0 < n div b" using "1.prems" by (simp add: div_greater_zero_iff)
    then show ?thesis using False "1.IH" "1.prems" by (subst to_base.simps) simp
  qed
qed

definition hex_digit :: "nat \<Rightarrow> int" where
  "hex_digit d = chi (''0123456789abcdef'' ! d)"

text \<open>What a conversion prints: padding, then the digits.\<close>

definition padded :: "int \<Rightarrow> int \<Rightarrow> int list \<Rightarrow> int list" where
  "padded width padc cs = replicate (nat (width - int (length cs))) padc @ cs"

definition digits :: "nat \<Rightarrow> nat \<Rightarrow> int list" where
  "digits b n = map hex_digit (to_base b n)"

lemma putch_times_fold: "putch_times putch c k s = fold putch (replicate k c) s"
  by (induction k arbitrary: s) simp_all

lemma digit_char_small: "unat i < 16 \<Longrightarrow> digit_char i = Some (hex_digit (unat i))"
  by (simp add: digit_char_def hex_digit_def)

lemma printnum_digits:
  assumes base: "2 \<le> unat base" "unat base \<le> 16"
  shows "printnum putch num base width padc s
    = Some (fold putch (padded width padc (digits (unat base) (unat num))) s)"
proof (induction "unat num" arbitrary: num width s rule: less_induct)
  case less
  have b: "unat (ucast base :: u64) = unat base"
    using u32_bound [of base] by (simp add: unsigned_ucast_eq take_bit_nat_eq_self)
  have ge: "num \<ge> ucast base \<longleftrightarrow> \<not> unat num < unat base" by (simp add: word_le_nat_alt b not_less)
  have d: "unat (num div ucast base) = unat num div unat base"
    "unat (num mod ucast base) = unat num mod unat base"
    by (simp_all add: unat_div_distrib unat_mod_distrib b)
  have "unat num mod unat base < unat base" using base by (intro mod_less_divisor) simp
  then have m: "unat num mod unat base < 16" using base(2) by (rule less_le_trans)
  have dc: "digit_char (num mod ucast base) = Some (hex_digit (unat num mod unat base))"
    using digit_char_small [of "num mod ucast base"] d(2) m by simp
  show ?case
  proof (cases "unat num < unat base")
    case True
    then have "digits (unat base) (unat num) = [hex_digit (unat num)]"
      by (simp add: digits_def to_base.simps)
    then show ?thesis
      using True ge dc by (subst printnum.simps) (simp add: padded_def putch_times_fold)
  next
    case False
    then have "unat num div unat base < unat num" using base by (intro div_less_dividend) auto
    from less.hyps [of "num div ucast base", unfolded d, OF this, of "width - 1" s]
    have "printnum putch (num div ucast base) base (width - 1) padc s
        = Some (fold putch (padded (width - 1) padc (digits (unat base) (unat num div unat base))) s)"
      by simp
    moreover have "padded width padc (digits (unat base) (unat num))
        = padded (width - 1) padc (digits (unat base) (unat num div unat base))
          @ [hex_digit (unat num mod unat base)]"
      using False base by (simp add: padded_def digits_def to_base.simps [of _ "unat num"] algebra_simps)
    ultimately show ?thesis
      using False ge dc by (subst printnum.simps) simp
  qed
qed

section \<open>The formatter only sends characters\<close>

text \<open>
  Formatting into two outputs whose states correspond keeps them corresponding: control
  never depends on the output state.
\<close>

lemma fold_sim:
  assumes "\<And>c s t. R s t \<Longrightarrow> R (p1 c s) (p2 c t)"
  shows "R s t \<Longrightarrow> R (fold p1 cs s) (fold p2 cs t)"
  by (induction cs arbitrary: s t) (auto intro: assms)

lemma putch_times_sim:
  assumes "\<And>c s t. R s t \<Longrightarrow> R (p1 c s) (p2 c t)"
  shows "R s t \<Longrightarrow> R (putch_times p1 c k s) (putch_times p2 c k t)"
  by (induction k arbitrary: s t) (auto intro: assms)

lemma rel_option_intro:
  assumes "\<And>r. x = Some r \<Longrightarrow> \<exists>r'. y = Some r' \<and> Q r r'" and "\<And>r'. y = Some r' \<Longrightarrow> x \<noteq> None"
  shows "rel_option Q x y"
  using assms by (cases x; cases y) auto

lemma put_string_sim:
  assumes "put_string p1 m p prec width alt s = Some r"
  shows "(\<forall>c s t. R s t \<longrightarrow> R (p1 c s) (p2 c t)) \<longrightarrow> (\<forall>t. R s t \<longrightarrow>
    (\<exists>t'. put_string p2 m p prec width alt t = Some (t', snd r) \<and> R (fst r) t'))"
  using assms
proof (induction rule: put_string.raw_induct [rotated 1, consumes 1, case_names step])
  case (step ps p1 m p prec width alt s r)
  show ?case
  proof (intro impI allI)
    fix t
    assume sim: "\<forall>c s t. R s t \<longrightarrow> R (p1 c s) (p2 c t)" and st: "R s t"
    let ?c = "if alt \<and> (sint (m p) < chi CHR '' '' \<or> sint (m p) > chi CHR ''~'') then chi CHR ''?''
        else sint (m p)"
    show "\<exists>t'. put_string p2 m p prec width alt t = Some (t', snd r) \<and> R (fst r) t'"
    proof (cases "m p \<noteq> 0 \<and> (prec < 0 \<or> prec - 1 \<ge> 0)")
      case True
      have "ps p1 m (p + 1) (if prec < 0 then prec else prec - 1) (width - 1) alt (p1 ?c s) = Some r"
        by (rule step(2) [unfolded if_P [OF True] Let_def])
      from step(1) [OF this] sim st obtain t' where
        "put_string p2 m (p + 1) (if prec < 0 then prec else prec - 1) (width - 1) alt (p2 ?c t) = Some (t', snd r)"
        "R (fst r) t'"
        by blast
      then show ?thesis 
        by (subst put_string.simps) (unfold if_P [OF True] Let_def, blast)
    next
      case False
      then have "r = (s, width)" using step(2) unfolding if_not_P [OF False] by simp
      then show ?thesis
        using st by (subst put_string.simps) (unfold if_not_P [OF False], simp)
    qed
  qed
qed

lemma put_string_rel:
  assumes "\<And>c s t. R s t \<Longrightarrow> R (p1 c s) (p2 c t)" and "R s t"
  shows "rel_option (rel_prod R (=)) (put_string p1 m p prec width alt s) (put_string p2 m p prec width alt t)"
proof (rule rel_option_intro)
  fix r
  assume "put_string p1 m p prec width alt s = Some r"
  from put_string_sim [OF this, of R p2] assms
  show "\<exists>r'. put_string p2 m p prec width alt t = Some r' \<and> rel_prod R (=) r r'"
    by (cases r) auto
next
  fix r'
  assume "put_string p2 m p prec width alt t = Some r'"
  from put_string_sim [OF this, of "\<lambda>t s. R s t" p1] assms
  show "put_string p1 m p prec width alt s \<noteq> None" by auto
qed

lemma print_string_rel:
  assumes "\<And>c s t. R s t \<Longrightarrow> R (p1 c s) (p2 c t)" and "R s t"
  shows "rel_option R (print_string p1 m p f s) (print_string p2 m p f t)"
proof -
  note times = putch_times_sim [of R p1 p2, OF assms(1)]
  have "rel_option R
      (Option.bind (put_string p1 m p prec width alt s) (\<lambda>(s, width). Some (putch_times p1 c (nat width) s)))
      (Option.bind (put_string p2 m p prec width alt t) (\<lambda>(s, width). Some (putch_times p2 c (nat width) s)))"
    if "R s t" for m p prec width alt c s t
    using put_string_rel [of R p1 p2 s t, OF assms(1) that, of m p prec width alt] times
    by (auto simp: option_rel_Some1 option_rel_Some2 elim!: option.rel_cases split: option.splits)
  then show ?thesis
    using assms(2) times unfolding print_string_def Let_def by (auto split: prod.splits)
qed

lemma number_rel:
  assumes "\<And>c s t. R s t \<Longrightarrow> R (p1 c s) (p2 c t)" and "R s t" and "base \<in> {8, 10, 16}"
  shows "rel_option (rel_pfnext R) (number p1 num base f fmt n s) (number p2 num base f fmt n t)"
proof -
  have "2 \<le> unat base" "unat base \<le> 16" using assms(3) by auto
  then show ?thesis
    using fold_sim [of R p1 p2, OF assms(1)] assms(2) by (simp add: number_def printnum_digits)
qed

lemma if_rel:
  "(b \<Longrightarrow> rel_option Q x x') \<Longrightarrow> (\<not> b \<Longrightarrow> rel_option Q y y')
     \<Longrightarrow> rel_option Q (if b then x else y) (if b then x' else y')"
  by simp

lemma conv_step_rel:
  assumes p: "\<And>c s t. R s t \<Longrightarrow> R (p1 c s) (p2 c t)" and st: "R s t"
  shows "rel_option (rel_pfnext R) (conv_step p1 m fm f fmt ap n s) (conv_step p2 m fm f fmt ap n t)"
proof -
  have num: "rel_option (rel_pfnext R) (number p1 num base f fmt n s) (number p2 num base f fmt n t)"
    if "R s t" "base \<in> {8, 10, 16}" for s t num base fmt n
    by (rule number_rel [of R p1 p2]) (use p that in auto)
  have err: "rel_option (rel_pfnext R) (error_step e m fmt n s) (error_step e m fmt n t)" for e fmt n
    using st by (simp add: error_step_def Let_def)
  have str: "rel_option (rel_pfnext R) (map_option (Go None fmt n) (print_string p1 m a f s))
      (map_option (Go None fmt n) (print_string p2 m a f t))" for fmt n a
    using print_string_rel [of R p1 p2 s t m a f, OF p st]
    by (auto elim!: option.rel_cases)
  show ?thesis
    unfolding conv_step_def Let_def
    apply (intro if_rel)
    subgoal using st by simp
    subgoal using st by simp
    subgoal using st by (cases "read_precision fm (fm fmt) (fmt + 1) 0") auto
    subgoal using st by simp
    subgoal using st by simp
    subgoal using st by simp
    subgoal using st by simp
    subgoal using p st by simp
    subgoal by (rule err)
    subgoal by (rule str)
    subgoal using num [OF st] num [OF p [OF st]] by (auto split: prod.split)
    subgoal using num [OF st] by (auto split: prod.split)
    subgoal using num [OF st] by (auto split: prod.split)
    subgoal using num [of "p1 _ (p1 _ s)" "p2 _ (p2 _ t)"] p st by auto
    subgoal using num [OF st] by (auto split: prod.split)
    subgoal using p st by simp
    subgoal using p st by (cases "back_up fm fmt") auto
    done
qed

lemma fmt_step_rel:
  assumes "\<And>c s t. R s t \<Longrightarrow> R (p1 c s) (p2 c t)" and "R s t"
  shows "rel_option (rel_pfnext R) (fmt_step p1 m fm md fmt ap n s) (fmt_step p2 m fm md fmt ap n t)"
  using conv_step_rel [of R p1 p2 s t, OF assms] assms
  by (auto simp: fmt_step_def text_step_def Let_def split: option.split)

lemma vprintfmt_loop_sim:
  assumes "vprintfmt_loop p1 m fm md fmt ap n s = Some s'"
  shows "(\<forall>c s t. R s t \<longrightarrow> R (p1 c s) (p2 c t)) \<longrightarrow> (\<forall>t. R s t \<longrightarrow>
    (\<exists>t'. vprintfmt_loop p2 m fm md fmt ap n t = Some t' \<and> R s' t'))"
  using assms
proof (induction rule: vprintfmt_loop.raw_induct [rotated 1, consumes 1, case_names step])
  case (step pf p1 m fm md fmt ap n s s')
  show ?case
  proof (intro impI allI)
    fix t
    assume sim: "\<forall>c s t. R s t \<longrightarrow> R (p1 c s) (p2 c t)" and st: "R s t"
    have next_call: "\<exists>t'. vprintfmt_loop p2 m fm md fmt ap n t = Some t' \<and> R s' t'"
      if "pf p1 m fm md fmt ap n s = Some s'" "R s t" for m fm md fmt ap n s s' t
      using step(1) [OF that(1)] that(2) sim by blast
    obtain r where r: "fmt_step p1 m fm md fmt ap n s = Some r"
      using step(2) by (auto simp: Option.bind_eq_Some_conv)
    then obtain r' where r': "fmt_step p2 m fm md fmt ap n t = Some r'" "rel_pfnext R r r'"
      using fmt_step_rel [of R p1 p2 s t m fm md fmt ap n] sim st by (auto simp: option_rel_Some1)
    show "\<exists>t'. vprintfmt_loop p2 m fm md fmt ap n t = Some t' \<and> R s' t'"
    proof (cases r)
      case (Return s1)
      then show ?thesis
        using r r' step(2) by (subst vprintfmt_loop.simps) (auto elim: pfnext.rel_cases)
    next
      case (Go md1 fmt1 n1 s1)
      then obtain t1 where t1: "r' = Go md1 fmt1 n1 t1" "R s1 t1"
        using r'(2) by (auto elim: pfnext.rel_cases)
      have "pf p1 m fm md1 fmt1 ap n1 s1 = Some s'" using step(2) r Go by simp
      from next_call [OF this t1(2)] show ?thesis
        using r'(1) t1(1) by (subst vprintfmt_loop.simps) simp
    next
      case (Error m1 fm1 ap1 fmt1 n1 s1)
      then obtain t1 where t1: "r' = Error m1 fm1 ap1 fmt1 n1 t1" "R s1 t1"
        using r'(2) by (auto elim: pfnext.rel_cases)
      from step(2) r Error obtain s2 where s2: "pf p1 m1 fm1 None LIT ap1 0 s1 = Some s2"
        "pf p1 m fm None fmt1 ap n1 s2 = Some s'"
        by (auto simp: Option.bind_eq_Some_conv)
      from next_call [OF s2(1) t1(2)] obtain t2 where
        t2: "vprintfmt_loop p2 m1 fm1 None LIT ap1 0 t1 = Some t2" "R s2 t2" by blast
      from next_call [OF s2(2) t2(2)] show ?thesis
        using r'(1) t1(1) t2(1) by (subst vprintfmt_loop.simps) simp
    qed
  qed
qed

text \<open>The characters a call prints, independently of where they go.\<close>

definition printed :: "memory \<Rightarrow> u32 \<Rightarrow> (nat \<Rightarrow> u32) \<Rightarrow> int list option" where
  "printed m fmt ap = vprintfmt (\<lambda>c cs. cs @ [c]) m fmt ap []"

lemma vprintfmt_printed:
  "vprintfmt putch m fmt ap s = map_option (\<lambda>cs. fold putch cs s) (printed m fmt ap)"
proof (cases "printed m fmt ap")
  case (Some cs)
  have "\<exists>t'. vprintfmt putch m fmt ap s = Some t' \<and> t' = fold putch cs s"
    using vprintfmt_loop_sim [OF Some [unfolded printed_def vprintfmt_def],
      of "\<lambda>cs t. t = fold putch cs s" putch]
    by (simp add: vprintfmt_def)
  then show ?thesis using Some by simp
next
  case None
  have "vprintfmt putch m fmt ap s \<noteq> Some s'" for s'
  proof
    assume "vprintfmt putch m fmt ap s = Some s'"
    from vprintfmt_loop_sim [OF this [unfolded vprintfmt_def],
      of "\<lambda>_ _. True" "\<lambda>c cs. cs @ [c]"]
    show False using None by (auto simp: printed_def vprintfmt_def dest: spec [of _ "[]"])
  qed
  then show ?thesis using None by (cases "vprintfmt putch m fmt ap s") auto
qed

section \<open>What a format prints\<close>

text \<open>
  A format as a list of items and the characters each prints, to compare with the loop:
  \<open>Num zero width conv\<close> is \<^verbatim>\<open>%\<close>, an optional \<^verbatim>\<open>0\<close> flag, an optional width (0 for none)
  and one of \<^verbatim>\<open>d u o x p\<close>.
\<close>

datatype conv = Dec | Unsigned | Octal | Hex | Pointer

datatype item = Plain u8 | Percent | Num bool nat conv | Str | Chr

fun conv_char :: "conv \<Rightarrow> u8" where
  "conv_char Dec = chr CHR ''d''"
| "conv_char Unsigned = chr CHR ''u''"
| "conv_char Octal = chr CHR ''o''"
| "conv_char Hex = chr CHR ''x''"
| "conv_char Pointer = chr CHR ''p''"

definition dchar :: "nat \<Rightarrow> u8" where "dchar d = chr CHR ''0'' + of_nat d"

fun item_bytes :: "item \<Rightarrow> u8 list" where
  "item_bytes (Plain c) = [c]"
| "item_bytes Percent = [chr CHR ''%'', chr CHR ''%'']"
| "item_bytes (Num zero w k) = chr CHR ''%'' # (if zero then [chr CHR ''0''] else [])
     @ (if w = 0 then [] else map dchar (to_base 10 w)) @ [conv_char k]"
| "item_bytes Str = [chr CHR ''%'', chr CHR ''s'']"
| "item_bytes Chr = [chr CHR ''%'', chr CHR ''c'']"

fun conv_out :: "conv \<Rightarrow> int \<Rightarrow> int \<Rightarrow> u32 \<Rightarrow> int list" where
  "conv_out Dec w c a =
     (if sint a < 0 then chi CHR ''-'' # padded w c (digits 10 (nat (- sint a)))
      else padded w c (digits 10 (nat (sint a))))"
| "conv_out Unsigned w c a = padded w c (digits 10 (unat a))"
| "conv_out Octal w c a = padded w c (digits 8 (unat a))"
| "conv_out Hex w c a = padded w c (digits 16 (unat a))"
| "conv_out Pointer w c a = chi CHR ''0'' # chi CHR ''x'' # padded w c (digits 16 (unat a))"

fun item_prints :: "memory \<Rightarrow> item \<Rightarrow> u32 \<Rightarrow> int list \<Rightarrow> bool" where
  "item_prints m (Plain c) a cs \<longleftrightarrow> c \<noteq> 0 \<and> c \<noteq> chr CHR ''%'' \<and> cs = [uint c]"
| "item_prints m Percent a cs \<longleftrightarrow> cs = [chi CHR ''%'']"
| "item_prints m (Num zero w k) a cs \<longleftrightarrow>
     cs = conv_out k (if w = 0 then - 1 else int w) (if zero then chi CHR ''0'' else chi CHR '' '') a"
| "item_prints m Str a cs \<longleftrightarrow>
     (if a = 0 then cs = map chi ''(null)'' else \<exists>xs. cstr m a xs \<and> cs = map sint xs)"
| "item_prints m Chr a cs \<longleftrightarrow> cs = [sint a]"

fun item_args :: "item \<Rightarrow> nat" where
  "item_args (Plain c) = 0"
| "item_args Percent = 0"
| "item_args (Num zero w k) = 1"
| "item_args Str = 1"
| "item_args Chr = 1"

fun format_prints :: "memory \<Rightarrow> item list \<Rightarrow> (nat \<Rightarrow> u32) \<Rightarrow> nat \<Rightarrow> int list \<Rightarrow> bool" where
  "format_prints m [] ap n cs \<longleftrightarrow> cs = []"
| "format_prints m (it # its) ap n cs \<longleftrightarrow>
     (\<exists>c1 c2. cs = c1 @ c2 \<and> item_prints m it (ap n) c1 \<and> format_prints m its ap (n + item_args it) c2)"

lemma loop_Go:
  "fmt_step putch m fm md fmt ap n s = Some (Go md' fmt' n' s')
     \<Longrightarrow> vprintfmt_loop putch m fm md fmt ap n s = vprintfmt_loop putch m fm md' fmt' ap n' s'"
  by (subst vprintfmt_loop.simps) simp

lemma loop_Return:
  "fmt_step putch m fm md fmt ap n s = Some (Return s') \<Longrightarrow> vprintfmt_loop putch m fm md fmt ap n s = Some s'"
  by (subst vprintfmt_loop.simps) simp

lemma unat_dchar: "d < 10 \<Longrightarrow> unat (dchar d) = 48 + d"
proof -
  assume d: "d < 10"
  then have "unat (of_nat d :: u8) = d" by (intro unat_of_nat_small) simp
  then show ?thesis using d by (simp add: dchar_def unat_less_add)
qed

lemma uint_dchar: "d < 10 \<Longrightarrow> uint (dchar d) = 48 + int d"
  using unat_dchar [of d] by (metis of_nat_add of_nat_numeral uint_nat)

lemma read_precision_spec:
  assumes "bytes_at fm fmt (map dchar ds @ [t])" and "\<forall>d \<in> set (d0 # ds). d < 10"
    and "t < chr CHR ''0'' \<or> t > chr CHR ''9''"
  shows "read_precision fm (dchar d0) fmt prec
    = Some (digits_value 10 prec (map int (d0 # ds)), fmt + of_nat (length ds))"
  using assms(1,2)
proof (induction ds arbitrary: d0 fmt prec)
  case Nil
  have "uint (dchar d0) = 48 + int d0" using Nil.prems(2) by (simp add: uint_dchar)
  then show ?case
    using Nil.prems assms(3) by (subst read_precision.simps) (auto simp: Let_def)
next
  case (Cons d1 ds)
  note u = uint_dchar
  have d: "d0 < 10" "d1 < 10" using Cons.prems(2) by auto
  have "\<not> (dchar d1 < chr CHR ''0'' \<or> dchar d1 > chr CHR ''9'')"
    using u [OF d(2)] d by (simp add: word_less_def)
  moreover have "read_precision fm (dchar d1) (fmt + 1) (prec * 10 + int d0)
      = Some (digits_value 10 (prec * 10 + int d0) (map int (d1 # ds)), fmt + 1 + of_nat (length ds))"
    using Cons.prems by (intro Cons.IH) auto
  ultimately show ?case
    using Cons.prems(1) u [OF d(1)] by (subst read_precision.simps) (auto simp: Let_def add_ac)
qed

lemma put_string_cstr:
  assumes "cstr m p xs"
  shows "put_string putch m p (- 1) width False s
    = Some (fold putch (map sint xs) s, width - int (length xs))"
  using assms
proof (induction xs arbitrary: p width s)
  case Nil
  then show ?case by (subst put_string.simps) simp
next
  case (Cons x xs)
  then show ?case by (subst put_string.simps) (simp add: Let_def algebra_simps)
qed

text \<open>The \<open>n\<close> bytes of memory from \<open>a\<close>.\<close>

definition mem_bytes :: "memory \<Rightarrow> u32 \<Rightarrow> nat \<Rightarrow> u8 list" where
  "mem_bytes m a n = map (\<lambda>i. m (a + of_nat i)) [0..<n]"

lemma mem_bytes_Suc: "mem_bytes m a (Suc n) = m a # mem_bytes m (a + 1) n"
  unfolding mem_bytes_def upt_rec [of 0 "Suc n"] by (simp add: map_Suc_upt [symmetric] add.assoc comp_def del: upt_Suc)

lemma put_string_prec:
  "put_string putch m p (int n) width False s
    = Some (fold putch (map sint (takeWhile (\<lambda>b. b \<noteq> 0) (mem_bytes m p n))) s,
        width - int (length (takeWhile (\<lambda>b. b \<noteq> 0) (mem_bytes m p n))))"
proof (induction n arbitrary: p width s)
  case 0
  then show ?case by (subst put_string.simps) (simp add: mem_bytes_def)
next
  case (Suc n)
  then show ?case by (subst put_string.simps) (simp add: Let_def mem_bytes_Suc algebra_simps)
qed

lemma lit_mem_bytes:
  assumes "length cs < 2 ^ 31"
  shows "bytes_at (lit_mem cs) LIT (map chr cs)" "lit_mem cs (LIT + of_nat (length cs)) = 0"
proof -
  have off: "LIT + of_nat i \<ge> LIT" "unat (of_nat i :: u32) = i" if "i < 2 ^ 31" for i
  proof -
    show u: "unat (of_nat i :: u32) = i" using that by (intro unat_of_nat_small) simp
    have "unat (LIT + of_nat i) = 4096 + i"
      using that u by (subst unat_less_add) (simp_all add: LIT_def)
    then show "LIT + of_nat i \<ge> LIT" by (simp add: word_le_nat_alt LIT_def)
  qed
  show "bytes_at (lit_mem cs) LIT (map chr cs)"
    using assms off by (simp add: bytes_at_nth lit_mem_def)
  show "lit_mem cs (LIT + of_nat (length cs)) = 0"
    using assms off by (simp add: lit_mem_def)
qed

lemma lit_mem_cstr:
  "length cs < 2 ^ 31 \<Longrightarrow> 0 \<notin> set (map chr cs) \<Longrightarrow> cstr (lit_mem cs) LIT (map chr cs)"
  using lit_mem_bytes [of cs] by (simp add: cstr_bytes)

lemma loop_text:
  assumes "fm fmt = c" and "c \<noteq> 0" and "c \<noteq> chr CHR ''%''"
  shows "vprintfmt_loop putch m fm None fmt ap n s
    = vprintfmt_loop putch m fm None (fmt + 1) ap n (putch (uint c) s)"
  using assms by (intro loop_Go) (simp add: fmt_step_def text_step_def)

lemma loop_conv:
  assumes "fm fmt = chr CHR ''%''"
  shows "vprintfmt_loop putch m fm None fmt ap n s
    = vprintfmt_loop putch m fm (Some pf_init) (fmt + 1) ap n s"
  using assms by (intro loop_Go) (simp add: fmt_step_def text_step_def)

lemma loop_percent:
  assumes "fm fmt = chr CHR ''%''"
  shows "vprintfmt_loop putch m fm (Some f) fmt ap n s
    = vprintfmt_loop putch m fm None (fmt + 1) ap n (putch (chi CHR ''%'') s)"
  using assms by (intro loop_Go) (simp add: fmt_step_def conv_step_def)

lemma loop_chr:
  assumes "fm fmt = chr CHR ''c''"
  shows "vprintfmt_loop putch m fm (Some f) fmt ap n s
    = vprintfmt_loop putch m fm None (fmt + 1) ap (n + 1) (putch (sint (ap n)) s)"
  using assms by (intro loop_Go) (simp add: fmt_step_def conv_step_def)

lemma loop_str:
  assumes "fm fmt = chr CHR ''s''"
    and "if ap n = 0 then cs = map chi ''(null)'' else \<exists>xs. cstr m (ap n) xs \<and> cs = map sint xs"
  shows "vprintfmt_loop putch m fm (Some pf_init) fmt ap n s
    = vprintfmt_loop putch m fm None (fmt + 1) ap (n + 1) (fold putch cs s)"
proof (rule loop_Go)
  have "print_string putch m (ap n) pf_init s = Some (fold putch cs s)"
  proof (cases "ap n = 0")
    case True
    have "cstr (lit_mem ''(null)'') LIT (map chr ''(null)'')" by (rule lit_mem_cstr) simp_all
    from put_string_cstr [OF this, of putch "- 1" s] show ?thesis
      using True assms(2) by (simp add: print_string_def pf_init_def)
  next
    case False
    then show ?thesis
      using assms(2) by (auto simp: print_string_def pf_init_def put_string_cstr)
  qed
  then show "fmt_step putch m fm (Some pf_init) fmt ap n s = Some (Go None (fmt + 1) (n + 1) (fold putch cs s))"
    using assms(1) by (simp add: fmt_step_def conv_step_def Let_def)
qed

lemma loop_zero:
  assumes "fm fmt = chr CHR ''0''"
  shows "vprintfmt_loop putch m fm (Some f) fmt ap n s
    = vprintfmt_loop putch m fm (Some (f\<lparr>pf_padc := chi CHR ''0''\<rparr>)) (fmt + 1) ap n s"
  using assms by (intro loop_Go) (simp add: fmt_step_def conv_step_def)

lemma loop_width:
  assumes "bytes_at fm fmt (map dchar (to_base 10 w) @ [t])" and "0 < w" and "pf_width f < 0"
    and "t < chr CHR ''0'' \<or> t > chr CHR ''9''"
  shows "vprintfmt_loop putch m fm (Some f) fmt ap n s
    = vprintfmt_loop putch m fm (Some (f\<lparr>pf_width := int w, pf_precision := - 1\<rparr>))
        (fmt + of_nat (length (to_base 10 w))) ap n s"
proof -
  obtain d ds where ds: "to_base 10 w = d # ds" using to_base_nonempty by (cases "to_base 10 w") auto
  have d: "0 < d" using to_base_hd [of 10 w] assms(2) ds by simp
  have all: "\<forall>d \<in> set (d # ds). d < 10" using to_base_bound [of 10 _ w] ds by auto
  have bytes: "fm fmt = dchar d" "bytes_at fm (fmt + 1) (map dchar ds @ [t])"
    using assms(1) by (simp_all add: ds)
  have v: "digits_value 10 0 (map int (d # ds)) = int w"
    using to_base_value [of 10 w] ds by simp
  have r: "read_precision fm (dchar d) (fmt + 1) 0 = Some (int w, fmt + 1 + of_nat (length ds))"
    using read_precision_spec [OF bytes(2) all assms(4), of 0] v by simp
  have u: "uint (dchar d) = 48 + int d" using uint_dchar all by simp
  have c: "dchar d \<noteq> chr CHR ''-''" "dchar d \<noteq> chr CHR ''0''" "dchar d \<ge> chr CHR ''1''" "dchar d \<le> chr CHR ''9''"
    using u d all by (auto simp: word_le_def word_uint_eq_iff)
  have "fmt_step putch m fm (Some f) fmt ap n s
      = Some (Go (Some (process_precision (int w) f)) (fmt + 1 + of_nat (length ds)) n s)"
    unfolding fmt_step_def conv_step_def Let_def option.case bytes(1)
    using c r by simp
  from loop_Go [OF this] show ?thesis using assms(3) by (simp add: process_precision_def ds add_ac)
qed

lemma loop_num:
  assumes "fm fmt = conv_char k" and "pf_lflag f = 0"
  shows "vprintfmt_loop putch m fm (Some f) fmt ap n s
    = vprintfmt_loop putch m fm None (fmt + 1) ap (n + 1)
        (fold putch (conv_out k (pf_width f) (pf_padc f) (ap n)) s)"
proof (rule loop_Go)
  have u: "unat (ucast (ap n) :: u64) = unat (ap n)"
    using u32_bound [of "ap n"] by (simp add: unsigned_ucast_eq take_bit_nat_eq_self)
  show "fmt_step putch m fm (Some f) fmt ap n s
      = Some (Go None (fmt + 1) (n + 1) (fold putch (conv_out k (pf_width f) (pf_padc f) (ap n)) s))"
    using assms u
    by (cases k) (simp_all add: fmt_step_def conv_step_def Let_def getint_def getuint_def number_def
      printnum_digits sint_scast_u64 unat_scast_neg unat_scast_nonneg)
qed

lemma conv_char_nodigit: "conv_char k < chr CHR ''0'' \<or> conv_char k > chr CHR ''9''"
  by (cases k) simp_all

lemma loop_item:
  assumes "bytes_at fm fmt (item_bytes it)" and "item_prints m it (ap n) cs"
  shows "vprintfmt_loop putch m fm None fmt ap n s = vprintfmt_loop putch m fm None
    (fmt + of_nat (length (item_bytes it))) ap (n + item_args it) (fold putch cs s)"
proof (cases it)
  case (Plain c)
  then show ?thesis using assms by (simp add: loop_text)
next
  case Percent
  then show ?thesis using assms by (simp add: loop_conv loop_percent add.assoc)
next
  case Str
  have "if ap n = 0 then cs = map chi ''(null)'' else \<exists>xs. cstr m (ap n) xs \<and> cs = map sint xs"
    using assms(2) Str by simp
  with loop_str [of fm "fmt + 1" ap n cs m putch s] show ?thesis
    using assms(1) Str by (simp add: loop_conv add.assoc)
next
  case Chr
  then show ?thesis using assms by (simp add: loop_conv loop_chr add.assoc)
next
  case (Num zero w k)
  let ?f1 = "if zero then pf_init\<lparr>pf_padc := chi CHR ''0''\<rparr> else pf_init"
  let ?f2 = "if w = 0 then ?f1 else ?f1\<lparr>pf_width := int w, pf_precision := - 1\<rparr>"
  let ?a1 = "fmt + 1" let ?a2 = "?a1 + (if zero then 1 else 0)"
  let ?ds = "if w = 0 then [] else map dchar (to_base 10 w)"
  let ?a3 = "?a2 + of_nat (length ?ds)"
  have b: "fm fmt = chr CHR ''%''" "zero \<Longrightarrow> fm ?a1 = chr CHR ''0''"
    "bytes_at fm ?a2 (?ds @ [conv_char k])" "fm ?a3 = conv_char k"
    using assms(1) Num by (auto simp: bytes_at_append add_ac split: if_splits)
  have "vprintfmt_loop putch m fm None fmt ap n s = vprintfmt_loop putch m fm (Some ?f1) ?a2 ap n s"
    using loop_conv [of fm fmt putch m ap n s, OF b(1)]
      loop_zero [of fm ?a1 putch m pf_init ap n s, OF b(2)] by (cases zero) simp_all
  also have "\<dots> = vprintfmt_loop putch m fm (Some ?f2) ?a3 ap n s"
  proof (cases "w = 0")
    case False
    have neg: "pf_width ?f1 < 0" by (simp add: pf_init_def)
    have "bytes_at fm ?a2 (map dchar (to_base 10 w) @ [conv_char k])" using b(3) False by simp
    from loop_width [of fm ?a2 w _ ?f1 putch m ap n s, OF this _ neg conv_char_nodigit] show ?thesis using False by simp
  qed simp
  also have "\<dots> = vprintfmt_loop putch m fm None (?a3 + 1) ap (n + 1)
      (fold putch (conv_out k (pf_width ?f2) (pf_padc ?f2) (ap n)) s)"
    by (rule loop_num [of fm ?a3, OF b(4)]) (simp add: pf_init_def)
  also have "conv_out k (pf_width ?f2) (pf_padc ?f2) (ap n) = cs"
    using assms(2) Num by (simp add: pf_init_def)
  finally show ?thesis using Num by (simp add: add_ac)
qed

lemma loop_items:
  assumes "bytes_at fm fmt (concat (map item_bytes its) @ [0])" and "format_prints m its ap n cs"
  shows "vprintfmt_loop putch m fm None fmt ap n s = Some (fold putch cs s)"
  using assms
proof (induction its arbitrary: fmt n cs s)
  case Nil
  then show ?case
    by (intro loop_Return) (simp add: fmt_step_def text_step_def)
next
  case (Cons it its)
  then obtain c1 c2 where cs: "cs = c1 @ c2" "item_prints m it (ap n) c1"
    "format_prints m its ap (n + item_args it) c2" by auto
  have "bytes_at fm fmt (item_bytes it)"
    "bytes_at fm (fmt + of_nat (length (item_bytes it))) (concat (map item_bytes its) @ [0])"
    using Cons.prems(1) by (simp_all add: bytes_at_append add.assoc)
  then show ?case
    using loop_item [of fm fmt it m ap n c1 putch s] Cons.IH [of "fmt + of_nat (length (item_bytes it))"
        "n + item_args it" c2] cs by simp
qed

section \<open>The buffer of vsnprintf\<close>

lemma put_bytes_append:
  "length xs + length ys \<le> 2 ^ 32 \<Longrightarrow>
     put_bytes m a (xs @ ys) = put_bytes (put_bytes m a xs) (a + of_nat (length xs)) ys"
  by (induction xs arbitrary: m a) (simp_all add: put_bytes_Cons add_ac)

lemma fold_sprintputch:
  assumes "unat (sp_buf b) + r = unat (sp_ebuf b)"
  shows "fold sprintputch cs b = b\<lparr>
    sp_mem := put_bytes (sp_mem b) (sp_buf b) (take r (map of_int cs)),
    sp_buf := sp_buf b + of_nat (min r (length cs)), sp_cnt := sp_cnt b + of_nat (length cs)\<rparr>"
  using assms
proof (induction cs arbitrary: b r)
  case Nil
  then show ?case by simp
next
  case (Cons c cs)
  show ?case
  proof (cases r)
    case 0
    then have "\<not> sp_buf b < sp_ebuf b" using Cons.prems by (simp add: word_less_nat_alt)
    then have "sprintputch c b = b\<lparr>sp_cnt := sp_cnt b + 1\<rparr>" by (simp add: sprintputch_def)
    moreover have "fold sprintputch cs (b\<lparr>sp_cnt := sp_cnt b + 1\<rparr>)
        = b\<lparr>sp_cnt := sp_cnt b + 1 + of_nat (length cs)\<rparr>"
      using Cons.IH [of "b\<lparr>sp_cnt := sp_cnt b + 1\<rparr>" 0] Cons.prems 0 by simp
    ultimately show ?thesis using 0 by (simp add: add_ac)
  next
    case (Suc r')
    let ?b = "b\<lparr>sp_mem := (sp_mem b)(sp_buf b := of_int c), sp_buf := sp_buf b + 1, sp_cnt := sp_cnt b + 1\<rparr>"
    have "sp_buf b < sp_ebuf b" using Cons.prems Suc by (simp add: word_less_nat_alt)
    then have st: "sprintputch c b = ?b" by (simp add: sprintputch_def)
    have "unat (sp_buf b + 1) = unat (sp_buf b) + 1"
      using Cons.prems Suc u32_bound [of "sp_ebuf b"] by (subst unat_less_add) simp_all
    then have r: "unat (sp_buf ?b) + r' = unat (sp_ebuf ?b)" using Cons.prems Suc by simp
    have "r' < 2 ^ 32" using Cons.prems Suc u32_bound [of "sp_ebuf b"] by simp
    then have "length (take r' (map of_int cs :: u8 list)) < 2 ^ 32" by simp
    from put_bytes_Cons [OF this] show ?thesis
      using Cons.IH [OF r] Suc unfolding fold.simps comp_def st
      by (simp add: add_ac fun_upd_def)
  qed
qed

lemma vsnprintf_bytes:
  assumes "buf \<noteq> 0" and "1 \<le> sint n" and "unat buf + unat n \<le> 2 ^ 32"
    and "printed m fmt ap = Some cs"
  shows "vsnprintf m bm buf n fmt ap = Some (sint (of_nat (length cs) :: u32),
    put_bytes bm buf (take (unat n - 1) (map of_int cs) @ [0]))"
proof -
  let ?b = "\<lparr>sp_mem = bm, sp_buf = buf, sp_ebuf = buf + n - 1, sp_cnt = 0\<rparr>"
  have n: "1 \<le> unat n" using assms(2) by (cases "n = 0") (auto simp: unat_gt_0 Suc_leI)
  have "unat (buf + (n - 1)) = unat buf + unat (n - 1)"
    using n assms(3) by (intro unat_less_add) (simp add: unat_sub word_le_nat_alt)
  moreover have "unat (n - 1) = unat n - 1" using n by (simp add: unat_sub word_le_nat_alt)
  ultimately have r: "unat (sp_buf ?b) + (unat n - 1) = unat (sp_ebuf ?b)"
    by (simp add: algebra_simps)
  let ?xs = "take (unat n - 1) (map of_int cs :: u8 list)"
  have "put_bytes bm buf (?xs @ [0]) = (put_bytes bm buf ?xs)(buf + of_nat (min (unat n - 1) (length cs)) := 0)"
    using u32_bound [of n] by (subst put_bytes_append) (auto simp: put_bytes_Cons min.commute)
  then show ?thesis
    using assms(1,2,4) fold_sprintputch [OF r, of cs]
    by (simp add: vsnprintf_def vprintfmt_printed Let_def)
qed

section \<open>Contracts\<close>

text \<open>C12: \<open>vprintfmt\<close> on a format of plain characters and the conversions \<^verbatim>\<open>%d %u %o %x %p\<close>
  with optional zero flag and width, \<^verbatim>\<open>%s\<close>, \<^verbatim>\<open>%c\<close> and \<^verbatim>\<open>%%\<close> returns and sends to
  \<^verbatim>\<open>putch\<close>, in order, exactly the characters the format denotes: numbers in the right base
  and sign, padded on the left to the width, strings up to their terminator and a null
  pointer as \<^verbatim>\<open>(null)\<close>.\<close>

theorem vprintfmt_prints:
  assumes "bytes_at m fmt (concat (map item_bytes its) @ [0])" and "format_prints m its ap 0 cs"
  shows "vprintfmt putch m fmt ap s = Some (fold putch cs s)"
  using loop_items [OF assms] by (simp add: vprintfmt_def)

lemma vprintfmt_prints_witness:
  "vprintfmt (\<lambda>c cs. cs @ [c]) (put_bytes (\<lambda>_. 0) 100 (map chr ''x=%05d'')) 100 (\<lambda>_. - 42) []
     = Some (map chi ''x=-00042'')"
proof -
  let ?m = "put_bytes (\<lambda>_. 0) 100 (map chr ''x=%05d'')"
  let ?its = "[Plain (chr CHR ''x''), Plain (chr CHR ''=''), Num True 5 Dec]"
  have b: "concat (map item_bytes ?its) @ [0] = map chr ''x=%05d'' @ [0]"
    by (simp add: to_base.simps dchar_def)
  have bytes: "bytes_at ?m 100 (concat (map item_bytes ?its) @ [0])"
    unfolding b by (rule bytes_at_put_zero) simp
  have "digits 10 42 = [52, 50]" by (simp add: digits_def to_base.simps hex_digit_def)
  then have "conv_out Dec 5 48 (- 42) = [45, 48, 48, 48, 52, 50]"
    by (simp add: padded_def numeral_3_eq_3)
  then have prints: "format_prints ?m ?its (\<lambda>_. - 42) 0 (map chi ''x=-00042'')"
    unfolding format_prints.simps item_prints.simps by (simp del: conv_out.simps)
  from vprintfmt_prints [OF bytes prints, of "\<lambda>c cs. cs @ [c]" "[]"] show ?thesis by simp
qed

text \<open>C13: \<open>vsnprintf\<close> with any format and arguments never writes outside the \<open>n\<close> bytes of its
  buffer, leaves a terminated prefix of the characters the format prints there, and
  returns how many characters there were, truncated or not.\<close>

theorem vsnprintf_safe:
  assumes "buf \<noteq> 0" and "1 \<le> sint n" and "unat buf + unat n \<le> 2 ^ 32"
    and "vsnprintf m bm buf n fmt ap = Some (r, bm')"
  shows "\<exists>cs. printed m fmt ap = Some cs \<and> (length cs < 2 ^ 31 \<longrightarrow> r = int (length cs))
    \<and> bytes_at bm' buf (take (unat n - 1) (map of_int cs) @ [0])
    \<and> (\<forall>a. \<not> in_range buf (unat n) a \<longrightarrow> bm' a = bm a)"
proof -
  obtain cs where cs: "printed m fmt ap = Some cs"
    using assms(1,2,4) by (cases "printed m fmt ap") (auto simp: vsnprintf_def vprintfmt_printed Let_def)
  let ?xs = "take (unat n - 1) (map of_int cs :: u8 list) @ [0]"
  have r: "r = sint (of_nat (length cs) :: u32)" and bm': "bm' = put_bytes bm buf ?xs"
    using vsnprintf_bytes [OF assms(1-3) cs] assms(4) by simp_all
  have n: "1 \<le> unat n" using assms(2) by (cases "n = 0") (auto simp: unat_gt_0 Suc_leI)
  then have len: "length ?xs \<le> unat n" "length ?xs \<le> 2 ^ 32" using u32_bound [of n] by auto
  have "length cs < 2 ^ 31 \<Longrightarrow> unat (of_nat (length cs) :: u32) = length cs"
    by (intro unat_of_nat_small) simp
  then have "length cs < 2 ^ 31 \<longrightarrow> r = int (length cs)" unfolding r sint_u32 by simp
  moreover have "bm' a = bm a" if "\<not> in_range buf (unat n) a" for a
    unfolding bm' by (rule put_bytes_outside) (use that len(1) in \<open>auto simp: in_range_def\<close>)
  ultimately show ?thesis using cs bytes_at_put [OF len(2)] bm' by blast
qed

lemma vsnprintf_safe_witness:
  "\<exists>cs. printed (\<lambda>_. 0) 50 (\<lambda>_. 0) = Some cs \<and> bytes_at ((\<lambda>_. 7)(200 := 0)) 200 (take 3 (map of_int cs) @ [0])"
proof -
  have p: "printed (\<lambda>_. 0) 50 (\<lambda>_. 0) = Some []"
    unfolding printed_def vprintfmt_def by (intro loop_Return) (simp add: fmt_step_def text_step_def)
  have "vsnprintf (\<lambda>_. 0) (\<lambda>_. 7) 200 4 50 (\<lambda>_. 0) = Some (0, (\<lambda>_. 7)(200 := 0))"
    by (simp add: vsnprintf_def vprintfmt_printed p)
  from vsnprintf_safe [OF _ _ _ this] show ?thesis by auto
qed

text \<open>The characters of a number, padded with blanks or zeros, are digits for \<open>strtol\<close>.\<close>

lemma hex_digit_read:
  assumes "d < r" "r \<le> 16"
  shows "is_digit (int r) (of_int (hex_digit d)) (int d)"
proof -
  have "d \<in> {0, 1, 2, 3, 4, 5, 6, 7, 8, 9, 10, 11, 12, 13, 14, 15}" using assms by simp presburger
  then show ?thesis using assms(1) by (auto simp: is_digit_def digit_of_def hex_digit_def)
qed

lemma digits_value_zeros: "digits_value r 0 (replicate k 0 @ ds) = digits_value r 0 ds"
  by (induction k) simp_all

lemma not_x: "is_digit radix c d \<Longrightarrow> radix \<le> 16 \<Longrightarrow> c \<noteq> chr CHR ''x''"
  by (auto simp: is_digit_def digit_of_def)

lemma no_prefix:
  assumes "2 \<le> r" "r \<le> 16" "list_all2 (is_digit (int r)) cs ds"
  shows "radix_choice (int r) [] (cs @ [0]) (int r)"
proof -
  have "take 2 (cs @ [0]) \<noteq> [chr CHR ''0'', chr CHR ''x'']"
  proof
    assume two: "take 2 (cs @ [0]) = [chr CHR ''0'', chr CHR ''x'']"
    then obtain c ys where "cs = chr CHR ''0'' # chr CHR ''x'' # ys"
      by (cases cs; cases "tl cs") (simp_all add: take_Cons')
    then obtain d where "is_digit (int r) (chr CHR ''x'') d"
      using assms(3) by (auto simp: list_all2_Cons1)
    then show False using not_x assms(2) by fastforce
  qed
  then show ?thesis using assms(1,2) by (auto simp: radix_choice_def)
qed

lemma strtol_padded:
  assumes r: "2 \<le> r" "r \<le> 16" and small: "\<forall>d \<in> set ds. d < r" and ne: "ds \<noteq> []"
    and at: "bytes_at m s (replicate k (chr c) @ map (of_int \<circ> hex_digit) ds @ [0])"
    and c: "c = CHR '' '' \<or> c = CHR ''0''"
  shows "strtol m s (int r) = Some (of_int (digits_value (int r) 0 (map int ds)), s + of_nat (k + length ds))"
proof -
  let ?hs = "map (of_int \<circ> hex_digit) ds :: u8 list"
  have hs: "list_all2 (is_digit (int r)) ?hs (map int ds)"
    using small hex_digit_read [OF _ r(2)] by (simp add: list_all2_map1 list_all2_map2 list_all2_same)
  have t: "no_digit (int r) 0" by (simp add: no_digit_def digit_of_def)
  from c show ?thesis
  proof
    assume "c = CHR '' ''"
    then show ?thesis
      using strtol_spec [where blanks = "replicate k (chr c)" and sign = "[]" and prefix = "[]", OF _ _ _ no_prefix [OF r hs] hs t] at ne
      by simp
  next
    assume zero: "c = CHR ''0''"
    let ?zs = "replicate k (chr c) @ ?hs"
    have "list_all2 (is_digit (int r)) (replicate k (chr c)) (replicate k 0)"
      using r(1) zero by (simp add: list_all2_conv_all_nth is_digit_def digit_of_def)
    then have zs: "list_all2 (is_digit (int r)) ?zs (replicate k 0 @ map int ds)"
      using hs by (rule list_all2_appendI)
    show ?thesis
      using strtol_spec [where blanks = "[]" and sign = "[]" and prefix = "[]", OF _ _ _ no_prefix [OF r zs] zs t] at ne
      by (simp add: digits_value_zeros)
  qed
qed

text \<open>C19: \<open>strtol\<close> reads back what \<open>printnum\<close> prints: in every base \<open>printnum\<close> supports, 2 to
  16, and at every width, with blanks or zeros as padding, printing a number returns, and a
  terminated string of the characters printed parses in that base to the number, with
  \<^verbatim>\<open>endptr\<close> just behind it. \<open>strtol\<close> has 32 bits, so that of a larger number the low half
  is read.\<close>

theorem printnum_strtol:
  assumes "2 \<le> unat base" and "unat base \<le> 16" and "padc = chi CHR '' '' \<or> padc = chi CHR ''0''"
  shows "\<exists>cs. printnum (\<lambda>c cs. cs @ [c]) num base width padc [] = Some cs
    \<and> (\<forall>m s. bytes_at m s (map of_int cs @ [0])
        \<longrightarrow> strtol m s (int (unat base)) = Some (ucast num, s + of_nat (length cs)))"
proof -
  let ?ds = "to_base (unat base) (unat num)"
  let ?cs = "padded width padc (digits (unat base) (unat num))"
  obtain c where c: "padc = chi c" "c = CHR '' '' \<or> c = CHR ''0''" using assms(3) by blast
  have fold: "fold (\<lambda>c cs. cs @ [c]) xs ys = ys @ xs" for xs ys :: "int list"
    by (induction xs arbitrary: ys) simp_all
  have bytes: "map of_int ?cs = replicate (nat (width - int (length ?ds))) (chr c) @ map (of_int \<circ> hex_digit) ?ds"
    using c(2) by (auto simp: padded_def digits_def c(1))
  have ne: "?ds \<noteq> []" by (subst to_base.simps) simp
  have small: "\<forall>d \<in> set ?ds. d < unat base" using to_base_bound [OF assms(1)] by blast
  have low: "of_nat (unat num) = (ucast num :: u32)" by (rule of_nat_unat)
  have "strtol m s (int (unat base)) = Some (ucast num, s + of_nat (length ?cs))"
    if "bytes_at m s (map of_int ?cs @ [0])" for m s
    using strtol_padded [OF assms(1,2) small ne _ c(2), of m s "nat (width - int (length ?ds))"] that
      to_base_value [OF assms(1), of "unat num"]
    unfolding bytes by (simp add: padded_def digits_def low del: of_nat_unat)
  then show ?thesis by (intro exI [of _ ?cs]) (simp add: printnum_digits [OF assms(1,2)] fold)
qed

lemma printnum_strtol_witness:
  "strtol (put_bytes (\<lambda>_. 0) 100 (map chr ''00beef'' @ [0])) 100 16 = Some (0xbeef, 106)"
proof -
  have p: "printnum (\<lambda>c cs. cs @ [c]) 0xbeef 16 6 (chi CHR ''0'') [] = Some (map chi ''00beef'')"
    using printnum_digits [of 16 "\<lambda>c cs. cs @ [c]" "0xbeef" 6 "chi CHR ''0''" "[]"]
    by (simp add: digits_def to_base.simps padded_def hex_digit_def) (simp add: numeral_2_eq_2)
  have m: "map of_int (map chi ''00beef'') = map chr ''00beef''" by simp
  have "bytes_at (put_bytes (\<lambda>_. 0) 100 (map chr ''00beef'' @ [0])) 100 (map chr ''00beef'' @ [0])"
    by (rule bytes_at_put) simp
  with printnum_strtol [of 16 "chi CHR ''0''" "0xbeef" 6] p m show ?thesis by auto
qed

end
