(* ===== verification/Console.thy ===== *)
theory Console
  imports Prelude
begin

text \<open>
  The console of \<^verbatim>\<open>kern/console.c\<close>: the serial and parallel ports, the text display with its
  cursor and scrolling, the keyboard decoder, and the circular input buffer they feed.

  The devices are the parameter \<open>dev\<close>: \<open>dev p k\<close> is the byte the \<open>k\<close>-th read of port \<open>p\<close>
  returns, and every sequence of bytes is possible. Writes are recorded in order. The
  display memory \<open>crt_buf\<close> is indexed by the 16-bit cursor, so no access leaves it; the
  kernel owns its first \<open>CRT_SIZE\<close> cells. A loop over a device that always has data does
  not return, and is \<open>None\<close>.
\<close>

type_synonym device = "u32 \<Rightarrow> nat \<Rightarrow> u8"

record console =
  reads :: "u32 \<Rightarrow> nat"
  writes :: "(u32 \<times> u8) list"
  serial_exists :: bool
  addr_6845 :: u32
  crt_buf :: "u16 \<Rightarrow> u16"
  crt_pos :: u16
  kbd_shift :: u32
  cons_buf :: "u8 list"
  cons_rpos :: u32
  cons_wpos :: u32

definition inb :: "device \<Rightarrow> u32 \<Rightarrow> console \<Rightarrow> u8 \<times> console" where
  "inb dev p c = (dev p (reads c p), c\<lparr>reads := (reads c)(p := reads c p + 1)\<rparr>)"

definition outb :: "u32 \<Rightarrow> u8 \<Rightarrow> console \<Rightarrow> console" where
  "outb p b c = c\<lparr>writes := writes c @ [(p, b)]\<rparr>"

definition delay :: "device \<Rightarrow> console \<Rightarrow> console" where
  "delay dev c = snd (inb dev 0x84 (snd (inb dev 0x84 (snd (inb dev 0x84 (snd (inb dev 0x84 c)))))))"

section \<open>The serial and parallel ports\<close>

definition COM1 :: u32 where "COM1 = 0x3F8"
definition COM_RX :: u32 where "COM_RX = 0"
definition COM_TX :: u32 where "COM_TX = 0"
definition COM_DLL :: u32 where "COM_DLL = 0"
definition COM_DLM :: u32 where "COM_DLM = 1"
definition COM_IER :: u32 where "COM_IER = 1"
definition COM_IIR :: u32 where "COM_IIR = 2"
definition COM_FCR :: u32 where "COM_FCR = 2"
definition COM_LCR :: u32 where "COM_LCR = 3"
definition COM_MCR :: u32 where "COM_MCR = 4"
definition COM_LSR :: u32 where "COM_LSR = 5"
definition COM_LSR_DATA :: u8 where "COM_LSR_DATA = 0x01"
definition COM_LSR_TXRDY :: u8 where "COM_LSR_TXRDY = 0x20"

definition serial_proc_data :: "device \<Rightarrow> console \<Rightarrow> int \<times> console" where
  "serial_proc_data dev c =
     (let (lsr, c) = inb dev (COM1 + COM_LSR) c in
      if lsr AND COM_LSR_DATA = 0 then (- 1, c)
      else let (b, c) = inb dev (COM1 + COM_RX) c in (uint b, c))"

text \<open>\<open>k\<close> is \<open>12800 - i\<close>.\<close>

fun wait_serial :: "nat \<Rightarrow> device \<Rightarrow> console \<Rightarrow> console" where
  "wait_serial k dev c =
     (let (lsr, c) = inb dev (COM1 + COM_LSR) c in
      if lsr AND COM_LSR_TXRDY = 0 \<and> 0 < k then wait_serial (k - 1) dev (delay dev c) else c)"

declare wait_serial.simps [simp del]

definition serial_putc :: "device \<Rightarrow> u32 \<Rightarrow> console \<Rightarrow> console" where
  "serial_putc dev ch c = outb (COM1 + COM_TX) (ucast ch) (wait_serial 12800 dev c)"

definition serial_init :: "device \<Rightarrow> console \<Rightarrow> console" where
  "serial_init dev c =
     (let c = outb (COM1 + COM_FCR) 0 c;
          c = outb (COM1 + COM_LCR) 0x80 c;
          c = outb (COM1 + COM_DLL) (of_nat (115200 div 9600)) c;
          c = outb (COM1 + COM_DLM) 0 c;
          c = outb (COM1 + COM_LCR) (0x03 AND NOT 0x80) c;
          c = outb (COM1 + COM_MCR) 0 c;
          c = outb (COM1 + COM_IER) 0x01 c;
          (lsr, c) = inb dev (COM1 + COM_LSR) c;
          c = c\<lparr>serial_exists := (lsr \<noteq> 0xFF)\<rparr>;
          (_, c) = inb dev (COM1 + COM_IIR) c;
          (_, c) = inb dev (COM1 + COM_RX) c
      in c)"

fun wait_lpt :: "nat \<Rightarrow> device \<Rightarrow> console \<Rightarrow> console" where
  "wait_lpt k dev c =
     (let (st, c) = inb dev (0x378 + 1) c in
      if st AND 0x80 = 0 \<and> 0 < k then wait_lpt (k - 1) dev (delay dev c) else c)"

declare wait_lpt.simps [simp del]

definition lpt_putc :: "device \<Rightarrow> u32 \<Rightarrow> console \<Rightarrow> console" where
  "lpt_putc dev ch c =
     (let c = wait_lpt 12800 dev c;
          c = outb (0x378 + 0) (ucast ch) c;
          c = outb (0x378 + 2) (0x08 OR 0x04 OR 0x01) c
      in outb (0x378 + 2) 0x08 c)"

section \<open>The display\<close>

definition CRT_ROWS :: u16 where "CRT_ROWS = 25"
definition CRT_COLS :: u16 where "CRT_COLS = 80"
definition CRT_SIZE :: u16 where "CRT_SIZE = CRT_ROWS * CRT_COLS"
definition MONO_BASE :: u32 where "MONO_BASE = 0x3B4"
definition CGA_BASE :: u32 where "CGA_BASE = 0x3D4"

text \<open>
  The two possible display memories are the parameters \<open>cga\<close> and \<open>mda\<close>; \<open>probe\<close> is what
  the first cell of \<open>cga\<close> reads as after \<open>0xA55A\<close> was written to it.
\<close>

definition cga_init :: "device \<Rightarrow> (u16 \<Rightarrow> u16) \<Rightarrow> (u16 \<Rightarrow> u16) \<Rightarrow> u16 \<Rightarrow> console \<Rightarrow> console" where
  "cga_init dev cga mda probe c =
     (let was = cga 0;
          (cp, addr) = (if probe \<noteq> 0xA55A then (mda, MONO_BASE) else (cga(0 := was), CGA_BASE));
          c = c\<lparr>addr_6845 := addr\<rparr>;
          c = outb addr 14 c;
          (hi, c) = inb dev (addr + 1) c;
          c = outb addr 15 c;
          (lo, c) = inb dev (addr + 1) c;
          pos = push_bit 8 (ucast hi :: u32) OR ucast lo
      in c\<lparr>crt_buf := cp, crt_pos := ucast pos\<rparr>)"

definition scroll :: "console \<Rightarrow> console" where
  "scroll c =
     (if crt_pos c \<ge> CRT_SIZE then
        c\<lparr>crt_buf := (\<lambda>i. if i < CRT_SIZE - CRT_COLS then crt_buf c (i + CRT_COLS)
                          else if i < CRT_SIZE then 0x0700 OR 0x20 else crt_buf c i),
          crt_pos := crt_pos c - CRT_COLS\<rparr>
      else c)"

definition move_cursor :: "console \<Rightarrow> console" where
  "move_cursor c =
     (let c = outb (addr_6845 c) 14 c;
          c = outb (addr_6845 c + 1) (ucast (drop_bit 8 (crt_pos c))) c;
          c = outb (addr_6845 c) 15 c
      in outb (addr_6845 c + 1) (ucast (crt_pos c)) c)"

text \<open>The cases of the switch but the tabulator, which prints through \<open>cons_putc\<close>.\<close>

definition put_cell :: "u32 \<Rightarrow> console \<Rightarrow> console" where
  "put_cell ch c =
     (let b = ch AND 0xFF in
      if b = 0x08 then
        (if crt_pos c > 0 then
           let pos = crt_pos c - 1
           in c\<lparr>crt_pos := pos, crt_buf := (crt_buf c)(pos := ucast (ch AND NOT 0xFF OR 0x20))\<rparr>
         else c)
      else if b = 0x0A then
        (let pos = crt_pos c + CRT_COLS in c\<lparr>crt_pos := pos - pos mod CRT_COLS\<rparr>)
      else if b = 0x0D then c\<lparr>crt_pos := crt_pos c - crt_pos c mod CRT_COLS\<rparr>
      else c\<lparr>crt_buf := (crt_buf c)(crt_pos c := ucast ch), crt_pos := crt_pos c + 1\<rparr>)"

lemma attr_low: "(if b then ch OR 0x0700 else ch) AND 0xFF = (ch AND 0xFF :: u32)"
  by (simp add: bit.conj_disj_distrib2)

function cga_putc :: "device \<Rightarrow> u32 \<Rightarrow> console \<Rightarrow> console"
  and cons_putc :: "device \<Rightarrow> u32 \<Rightarrow> console \<Rightarrow> console" where
  "cga_putc dev ch c =
     (let ch = (if ch AND NOT 0xFF = 0 then ch OR 0x0700 else ch);
          c = (if ch AND 0xFF = 0x09 then
                 cons_putc dev 0x20 (cons_putc dev 0x20 (cons_putc dev 0x20
                   (cons_putc dev 0x20 (cons_putc dev 0x20 c))))
               else put_cell ch c)
      in move_cursor (scroll c))"
| "cons_putc dev ch c = cga_putc dev ch (lpt_putc dev ch (serial_putc dev ch c))"
  by pat_completeness auto
termination
proof (relation "measure (\<lambda>x. case x of
    Inl (dev, ch, c) \<Rightarrow> (if ch AND 0xFF = 0x09 then 2 else 0)
  | Inr (dev, ch, c) \<Rightarrow> (if ch AND 0xFF = 0x09 then 3 else 1))", goal_cases)
  case 1
  then show ?case by simp
next
  case (2 dev ch c x)
  then show ?case by (simp add: attr_low)
qed (simp_all add: attr_low)

declare cga_putc.simps [simp del] cons_putc.simps [simp del]

section \<open>The keyboard\<close>

definition KEY_HOME :: u8 where "KEY_HOME = 0xE0"
definition KEY_END :: u8 where "KEY_END = 0xE1"
definition KEY_UP :: u8 where "KEY_UP = 0xE2"
definition KEY_DN :: u8 where "KEY_DN = 0xE3"
definition KEY_LF :: u8 where "KEY_LF = 0xE4"
definition KEY_RT :: u8 where "KEY_RT = 0xE5"
definition KEY_PGUP :: u8 where "KEY_PGUP = 0xE6"
definition KEY_PGDN :: u8 where "KEY_PGDN = 0xE7"
definition KEY_INS :: u8 where "KEY_INS = 0xE8"
definition KEY_DEL :: u8 where "KEY_DEL = 0xE9"

definition SHIFT :: u8 where "SHIFT = 0x01"
definition CTL :: u8 where "CTL = 0x02"
definition ALT :: u8 where "ALT = 0x04"
definition CAPSLOCK :: u8 where "CAPSLOCK = 0x08"
definition NUMLOCK :: u8 where "NUMLOCK = 0x10"
definition SCROLLLOCK :: u8 where "SCROLLLOCK = 0x20"
definition E0ESC :: u8 where "E0ESC = 0x40"

lemmas modifier_defs = SHIFT_def CTL_def ALT_def CAPSLOCK_def NUMLOCK_def SCROLLLOCK_def E0ESC_def

lemmas key_defs = KEY_HOME_def KEY_END_def KEY_UP_def KEY_DN_def KEY_LF_def KEY_RT_def
  KEY_PGUP_def KEY_PGDN_def KEY_INS_def KEY_DEL_def

text \<open>A 256-byte table from its first entries and its designated ones.\<close>

definition table256 :: "u8 list \<Rightarrow> (nat \<times> u8) list \<Rightarrow> u8 list" where
  "table256 base ds = fold (\<lambda>(i, v) xs. xs[i := v]) ds (base @ replicate (256 - length base) 0)"

definition shiftcode :: "u8 list" where
  "shiftcode = table256 [] [(0x1D, CTL), (0x2A, SHIFT), (0x36, SHIFT), (0x38, ALT), (0x9D, CTL),
     (0xB8, ALT)]"

definition togglecode :: "u8 list" where
  "togglecode = table256 [] [(0x3A, CAPSLOCK), (0x45, NUMLOCK), (0x46, SCROLLLOCK)]"

definition special_keys :: "(nat \<times> u8) list" where
  "special_keys = [(0xC7, KEY_HOME), (0x9C, 0x0A), (0xB5, chr CHR ''/''), (0xC8, KEY_UP),
     (0xC9, KEY_PGUP), (0xCB, KEY_LF), (0xCD, KEY_RT), (0xCF, KEY_END), (0xD0, KEY_DN),
     (0xD1, KEY_PGDN), (0xD2, KEY_INS), (0xD3, KEY_DEL)]"

definition normal_base :: "u8 list" where
  "normal_base =
     [0, 0x1B] @ map chr ''123456''
      @ map chr ''7890-='' @ [0x08, 0x09]
      @ map chr ''qwertyui''
      @ map chr ''op[]'' @ [0x0A, 0] @ map chr ''as''
      @ map chr ''dfghjkl;''
      @ [0x27, chr CHR 0x60, 0, 0x5C] @ map chr ''zxcv''
      @ map chr ''bnm,./'' @ [0, chr CHR ''*'']
      @ [0, chr CHR '' '', 0, 0, 0, 0, 0, 0]
      @ [0, 0, 0, 0, 0, 0, 0, chr CHR ''7'']
      @ map chr ''89-456+1''
      @ map chr ''230.'' @ [0, 0, 0, 0]"

definition normalmap :: "u8 list" where
  "normalmap = table256 normal_base special_keys"

definition shift_base :: "u8 list" where
  "shift_base =
     [0, 27] @ map chr ''!@#$%^''
      @ map chr ''&*()_+'' @ [0x08, 0x09]
      @ map chr ''QWERTYUI''
      @ map chr ''OP{}'' @ [0x0A, 0] @ map chr ''AS''
      @ map chr ''DFGHJKL:''
      @ [0x22, chr CHR ''~'', 0, chr CHR ''|''] @ map chr ''ZXCV''
      @ map chr ''BNM<>?'' @ [0, chr CHR ''*'']
      @ [0, chr CHR '' '', 0, 0, 0, 0, 0, 0]
      @ [0, 0, 0, 0, 0, 0, 0, chr CHR ''7'']
      @ map chr ''89-456+1''
      @ map chr ''230.'' @ [0, 0, 0, 0]"

definition shiftmap :: "u8 list" where
  "shiftmap = table256 shift_base special_keys"

definition ctl :: "char \<Rightarrow> u8" where "ctl x = chr x - chr CHR ''@''"

definition ctl_base :: "u8 list" where
  "ctl_base =
     replicate 16 0
      @ map ctl ''QWERTYUI''
      @ map ctl ''OP'' @ [0, 0, 0x0D, 0] @ map ctl ''AS''
      @ map ctl ''DFGHJKL'' @ [0]
      @ [0, 0, 0, ctl CHR 0x5C] @ map ctl ''ZXCV''
      @ map ctl ''BNM'' @ [0, 0, ctl CHR ''/'', 0, 0]"

definition ctlmap :: "u8 list" where
  "ctlmap = table256 ctl_base
     [(0x97, KEY_HOME), (0xB5, ctl CHR ''/''), (0xC8, KEY_UP), (0xC9, KEY_PGUP), (0xCB, KEY_LF),
      (0xCD, KEY_RT), (0xCF, KEY_END), (0xD0, KEY_DN), (0xD1, KEY_PGDN), (0xD2, KEY_INS),
      (0xD3, KEY_DEL)]"

definition charcode :: "u8 list list" where
  "charcode = [normalmap, shiftmap, ctlmap, ctlmap]"

text \<open>Printing a constant string that has no conversions.\<close>

definition cons_puts :: "device \<Rightarrow> string \<Rightarrow> console \<Rightarrow> console" where
  "cons_puts dev str c = fold (\<lambda>x. cons_putc dev (of_char x)) str c"

text \<open>One scan code: the character it completes, 0 for none, and the new shift state.\<close>

definition kbd_decode :: "u32 \<Rightarrow> u8 \<Rightarrow> int \<times> u32" where
  "kbd_decode shift data =
     (if data = 0xE0 then (0, shift OR ucast E0ESC)
      else if data AND 0x80 \<noteq> 0 then
        (let data = (if shift AND ucast E0ESC \<noteq> 0 then data else data AND 0x7F)
         in (0, shift AND NOT (ucast (shiftcode ! unat data) OR ucast E0ESC)))
      else
        (let (data, shift) =
               (if shift AND ucast E0ESC \<noteq> 0 then (data OR 0x80, shift AND NOT (ucast E0ESC))
                else (data, shift));
             shift = shift OR ucast (shiftcode ! unat data);
             shift = shift XOR ucast (togglecode ! unat data);
             c = uint (charcode ! unat (shift AND ucast (CTL OR SHIFT)) ! unat data);
             c = (if shift AND ucast CAPSLOCK \<noteq> 0 then
                    (if 97 \<le> c \<and> c \<le> 122 then c + (65 - 97)
                     else if 65 \<le> c \<and> c \<le> 90 then c + (97 - 65) else c)
                  else c)
         in (c, shift)))"

definition kbd_proc_data :: "device \<Rightarrow> console \<Rightarrow> int \<times> console" where
  "kbd_proc_data dev c =
     (let (stat, c) = inb dev 0x64 c in
      if stat AND 0x01 = 0 then (- 1, c)
      else if stat AND 0x20 \<noteq> 0 then (- 1, c)
      else
        (let (data, c) = inb dev 0x60 c;
             (ch, shift) = kbd_decode (kbd_shift c) data;
             c = c\<lparr>kbd_shift := shift\<rparr>
         in if \<not> (data = 0xE0 \<or> data AND 0x80 \<noteq> 0)
               \<and> NOT shift AND ucast (CTL OR ALT) = 0 \<and> ch = uint KEY_DEL
            then (ch, outb 0x92 0x3 (cons_puts dev (''Rebooting!'' @ [CHR 0x0A]) c))
            else (ch, c)))"

section \<open>The input buffer\<close>

definition CONSBUFSIZE :: u32 where "CONSBUFSIZE = 512"

definition cons_put :: "int \<Rightarrow> console \<Rightarrow> console" where
  "cons_put ch c =
     (let c = c\<lparr>cons_buf := (cons_buf c)[unat (cons_wpos c) := of_int ch], cons_wpos := cons_wpos c + 1\<rparr>
      in if cons_wpos c = CONSBUFSIZE then c\<lparr>cons_wpos := 0\<rparr> else c)"

partial_function (option) cons_intr :: "(console \<Rightarrow> int \<times> console) \<Rightarrow> console \<Rightarrow> console option" where
  "cons_intr proc c =
     (let (ch, c) = proc c in
      if ch \<noteq> - 1 then (if ch = 0 then cons_intr proc c else cons_intr proc (cons_put ch c))
      else Some c)"

definition serial_intr :: "device \<Rightarrow> console \<Rightarrow> console option" where
  "serial_intr dev c = (if serial_exists c then cons_intr (serial_proc_data dev) c else Some c)"

definition kbd_intr :: "device \<Rightarrow> console \<Rightarrow> console option" where
  "kbd_intr dev c = cons_intr (kbd_proc_data dev) c"

definition kbd_init :: "console \<Rightarrow> console" where "kbd_init c = c"

definition cons_take :: "console \<Rightarrow> int \<times> console" where
  "cons_take c =
     (if cons_rpos c \<noteq> cons_wpos c then
        (let ch = uint (cons_buf c ! unat (cons_rpos c));
             c = c\<lparr>cons_rpos := cons_rpos c + 1\<rparr>
         in (ch, if cons_rpos c = CONSBUFSIZE then c\<lparr>cons_rpos := 0\<rparr> else c))
      else (0, c))"

definition cons_getc :: "device \<Rightarrow> console \<Rightarrow> (int \<times> console) option" where
  "cons_getc dev c =
     Option.bind (serial_intr dev c) (\<lambda>c.
     Option.bind (kbd_intr dev c) (\<lambda>c. Some (cons_take c)))"

definition cons_init :: "device \<Rightarrow> (u16 \<Rightarrow> u16) \<Rightarrow> (u16 \<Rightarrow> u16) \<Rightarrow> u16 \<Rightarrow> console \<Rightarrow> console" where
  "cons_init dev cga mda probe c =
     (let c = serial_init dev (kbd_init (cga_init dev cga mda probe c)) in
      if \<not> serial_exists c
      then cons_puts dev (''Serial port does not exist!'' @ [CHR 0x0A]) c else c)"

definition cputchar :: "device \<Rightarrow> u32 \<Rightarrow> console \<Rightarrow> console" where
  "cputchar dev ch c = cons_putc dev ch c"

partial_function (option) getchar :: "device \<Rightarrow> console \<Rightarrow> (int \<times> console) option" where
  "getchar dev c =
     Option.bind (cons_getc dev c) (\<lambda>(ch, c). if ch = 0 then getchar dev c else Some (ch, c))"

definition iscons :: "int \<Rightarrow> int" where "iscons fdnum = 1"

section \<open>The display stays inside its cells\<close>

lemma inb_fields [simp]:
  "crt_pos (snd (inb dev p c)) = crt_pos c" "crt_buf (snd (inb dev p c)) = crt_buf c"
  "cons_buf (snd (inb dev p c)) = cons_buf c" "cons_rpos (snd (inb dev p c)) = cons_rpos c"
  "cons_wpos (snd (inb dev p c)) = cons_wpos c" "kbd_shift (snd (inb dev p c)) = kbd_shift c"
  by (simp_all add: inb_def)

lemma outb_fields [simp]:
  "crt_pos (outb p b c) = crt_pos c" "crt_buf (outb p b c) = crt_buf c"
  "cons_buf (outb p b c) = cons_buf c" "cons_rpos (outb p b c) = cons_rpos c"
  "cons_wpos (outb p b c) = cons_wpos c" "kbd_shift (outb p b c) = kbd_shift c"
  by (simp_all add: outb_def)

text \<open>Two consoles that differ at most in the device traffic.\<close>

definition same_state :: "console \<Rightarrow> console \<Rightarrow> bool" where
  "same_state c c' \<longleftrightarrow> crt_pos c' = crt_pos c \<and> crt_buf c' = crt_buf c \<and> cons_buf c' = cons_buf c
     \<and> cons_rpos c' = cons_rpos c \<and> cons_wpos c' = cons_wpos c \<and> kbd_shift c' = kbd_shift c"

lemma same_state_trans: "same_state a b \<Longrightarrow> same_state b c \<Longrightarrow> same_state a c"
  by (simp add: same_state_def)

lemma same_state_io [simp]: "same_state c (snd (inb dev p c))" "same_state c (outb p b c)"
  by (simp_all add: same_state_def)

lemma same_state_delay: "same_state c (delay dev c)"
  unfolding delay_def by (simp add: same_state_def)

lemma same_state_wait_serial: "same_state c (wait_serial k dev c)"
proof (induction k dev c rule: wait_serial.induct)
  case (1 k dev c)
  show ?case
  proof (cases "fst (inb dev (COM1 + COM_LSR) c) AND COM_LSR_TXRDY = 0 \<and> 0 < k")
    case True
    have "same_state (delay dev (snd (inb dev (COM1 + COM_LSR) c))) (wait_serial k dev c)"
      using "1.IH" [OF refl _ True, of "snd (inb dev (COM1 + COM_LSR) c)"] True
      by (subst wait_serial.simps) (simp add: case_prod_unfold Let_def)
    then show ?thesis
      by (meson same_state_delay same_state_io(1) same_state_trans)
  next
    case False
    then show ?thesis
      by (subst wait_serial.simps) (simp only: case_prod_unfold Let_def if_not_P [OF False], simp)
  qed
qed

lemma same_state_wait_lpt: "same_state c (wait_lpt k dev c)"
proof (induction k dev c rule: wait_lpt.induct)
  case (1 k dev c)
  show ?case
  proof (cases "fst (inb dev (0x378 + 1) c) AND 0x80 = 0 \<and> 0 < k")
    case True
    have "same_state (delay dev (snd (inb dev (0x378 + 1) c))) (wait_lpt k dev c)"
      using "1.IH" [OF refl _ True, of "snd (inb dev (0x378 + 1) c)"] True
      by (subst wait_lpt.simps) (simp add: case_prod_unfold Let_def)
    then show ?thesis
      by (meson same_state_delay same_state_io(1) same_state_trans)
  next
    case False
    then show ?thesis
      by (subst wait_lpt.simps) (simp only: case_prod_unfold Let_def if_not_P [OF False], simp)
  qed
qed

lemma same_state_ports: "same_state c (lpt_putc dev ch (serial_putc dev ch c))"
  using same_state_trans [OF same_state_wait_serial same_state_wait_lpt]
  by (simp add: lpt_putc_def serial_putc_def Let_def)
    (meson same_state_io(2) same_state_trans same_state_wait_lpt same_state_wait_serial)

text \<open>The effect of printing on the display and on everything else.\<close>

definition printed_ok :: "console \<Rightarrow> console \<Rightarrow> bool" where
  "printed_ok c c' \<longleftrightarrow> crt_pos c' < CRT_SIZE \<and> (\<forall>i \<ge> CRT_SIZE. crt_buf c' i = crt_buf c i)
     \<and> cons_buf c' = cons_buf c \<and> cons_rpos c' = cons_rpos c \<and> cons_wpos c' = cons_wpos c
     \<and> kbd_shift c' = kbd_shift c"

lemma printed_ok_trans: "printed_ok a b \<Longrightarrow> printed_ok b c \<Longrightarrow> printed_ok a c"
  by (simp add: printed_ok_def)

lemmas crt_defs = CRT_SIZE_def CRT_ROWS_def CRT_COLS_def

lemma put_cell_pos:
  assumes "crt_pos c < CRT_SIZE"
  shows "unat (crt_pos (put_cell ch c)) < 2080"
    and "i \<ge> CRT_SIZE \<Longrightarrow> crt_buf (put_cell ch c) i = crt_buf c i"
proof -
  let ?p = "crt_pos c"
  have p: "unat ?p < 2000" using assms by (simp add: crt_defs word_less_nat_alt)
  have add: "unat (?p + k) = unat ?p + unat k" if "unat k < 100" for k
    using p that by (intro unat_less_add) simp
  have m: "unat (q - q mod 80) \<le> unat q" for q :: u16
  proof -
    have "q mod 80 \<le> q" by (simp add: word_le_nat_alt unat_mod)
    then show ?thesis by (simp add: unat_sub)
  qed
  have dec: "unat (?p - 1) < 2000" if "0 < ?p"
    using that p by (simp add: unat_minus_one word_greater_zero_iff)
  show "unat (crt_pos (put_cell ch c)) < 2080"
    using p add [of 80] add [of 1] m [of ?p] m [of "?p + 80"] dec
    by (auto simp: put_cell_def Let_def crt_defs)
  show "crt_buf (put_cell ch c) i = crt_buf c i" if "i \<ge> CRT_SIZE"
  proof -
    have "2000 \<le> unat i" using that by (simp add: crt_defs word_le_nat_alt)
    then have "i \<noteq> ?p" "0 < ?p \<Longrightarrow> i \<noteq> ?p - 1" using p dec by auto
    then show ?thesis by (auto simp: put_cell_def Let_def)
  qed
qed

lemma scroll_ok:
  assumes "unat (crt_pos c) < 2080"
  shows "crt_pos (scroll c) < CRT_SIZE" and "i \<ge> CRT_SIZE \<Longrightarrow> crt_buf (scroll c) i = crt_buf c i"
  using assms
  by (auto simp: scroll_def crt_defs word_less_nat_alt word_le_nat_alt unat_sub)

lemma put_cell_fields [simp]:
  "cons_buf (put_cell ch c) = cons_buf c" "cons_rpos (put_cell ch c) = cons_rpos c"
  "cons_wpos (put_cell ch c) = cons_wpos c" "kbd_shift (put_cell ch c) = kbd_shift c"
  by (simp_all add: put_cell_def Let_def)

lemma scroll_fields [simp]:
  "cons_buf (scroll c) = cons_buf c" "cons_rpos (scroll c) = cons_rpos c"
  "cons_wpos (scroll c) = cons_wpos c" "kbd_shift (scroll c) = kbd_shift c"
  by (simp_all add: scroll_def)

lemma move_cursor_fields [simp]:
  "crt_pos (move_cursor c) = crt_pos c" "crt_buf (move_cursor c) = crt_buf c"
  "cons_buf (move_cursor c) = cons_buf c" "cons_rpos (move_cursor c) = cons_rpos c"
  "cons_wpos (move_cursor c) = cons_wpos c" "kbd_shift (move_cursor c) = kbd_shift c"
  by (simp_all add: move_cursor_def Let_def)

lemma putc_ok:
  "crt_pos c < CRT_SIZE \<Longrightarrow> printed_ok c (cga_putc dev ch c)"
  "crt_pos c < CRT_SIZE \<Longrightarrow> printed_ok c (cons_putc dev ch c)"
proof (induction dev ch c and dev ch c rule: cga_putc_cons_putc.induct)
  case (1 dev ch c)
  let ?ch = "if ch AND NOT 0xFF = 0 then ch OR 0x0700 else ch"
  let ?tab = "cons_putc dev 0x20 (cons_putc dev 0x20 (cons_putc dev 0x20
    (cons_putc dev 0x20 (cons_putc dev 0x20 c))))"
  let ?c = "if ?ch AND 0xFF = 0x09 then ?tab else put_cell ?ch c"
  have step: "unat (crt_pos ?c) < 2080 \<and> (\<forall>i \<ge> CRT_SIZE. crt_buf ?c i = crt_buf c i)
      \<and> cons_buf ?c = cons_buf c \<and> cons_rpos ?c = cons_rpos c \<and> cons_wpos ?c = cons_wpos c
      \<and> kbd_shift ?c = kbd_shift c"
  proof (cases "?ch AND 0xFF = 0x09")
    case True
    note ih = "1.IH" [OF refl True]
    have 1: "printed_ok c (cons_putc dev 0x20 c)" using ih(1) "1.prems" by blast
    then have p1: "crt_pos (cons_putc dev 0x20 c) < CRT_SIZE" by (simp add: printed_ok_def)
    have 2: "printed_ok (cons_putc dev 0x20 c) (cons_putc dev 0x20 (cons_putc dev 0x20 c))"
      using ih(2) p1 by blast
    then have p2: "crt_pos (cons_putc dev 0x20 (cons_putc dev 0x20 c)) < CRT_SIZE" by (simp add: printed_ok_def)
    have 3: "printed_ok (cons_putc dev 0x20 (cons_putc dev 0x20 c))
        (cons_putc dev 0x20 (cons_putc dev 0x20 (cons_putc dev 0x20 c)))"
      using ih(3) p2 by blast
    then have p3: "crt_pos (cons_putc dev 0x20 (cons_putc dev 0x20 (cons_putc dev 0x20 c))) < CRT_SIZE"
      by (simp add: printed_ok_def)
    have 4: "printed_ok (cons_putc dev 0x20 (cons_putc dev 0x20 (cons_putc dev 0x20 c)))
        (cons_putc dev 0x20 (cons_putc dev 0x20 (cons_putc dev 0x20 (cons_putc dev 0x20 c))))"
      using ih(4) p3 by blast
    then have p4: "crt_pos (cons_putc dev 0x20 (cons_putc dev 0x20 (cons_putc dev 0x20
        (cons_putc dev 0x20 c)))) < CRT_SIZE"
      by (simp add: printed_ok_def)
    have 5: "printed_ok (cons_putc dev 0x20 (cons_putc dev 0x20 (cons_putc dev 0x20
        (cons_putc dev 0x20 c)))) ?tab"
      using ih(5) p4 by blast
    have "printed_ok c ?tab" using 1 2 3 4 5 printed_ok_trans by blast
    then show ?thesis using True by (simp add: printed_ok_def crt_defs word_less_nat_alt)
  next
    case False
    then show ?thesis using put_cell_pos [OF "1.prems", where ch = ?ch] by simp
  qed
  then have "printed_ok c (move_cursor (scroll ?c))"
    using scroll_ok [of ?c] by (simp add: printed_ok_def)
  then show ?case by (simp only: cga_putc.simps Let_def)
next
  case (2 dev ch c)
  have same: "same_state c (lpt_putc dev ch (serial_putc dev ch c))" by (rule same_state_ports)
  then have "crt_pos (lpt_putc dev ch (serial_putc dev ch c)) < CRT_SIZE"
    using "2.prems" by (simp add: same_state_def)
  then show ?case
    using "2.IH" same by (simp add: cons_putc.simps printed_ok_def same_state_def)
qed

section \<open>A bounded queue that forgets\<close>

text \<open>
  What a circular buffer of \<open>cap\<close> cells with a read and a write index promises: one cell
  fewer than \<open>cap\<close> elements fit, and the one that would fill it makes the buffer empty.
\<close>

locale ring_queue =
  fixes ok :: "'q \<Rightarrow> bool"
    and abs :: "'q \<Rightarrow> 'x list"
    and put :: "'x \<Rightarrow> 'q \<Rightarrow> 'q"
    and get :: "'q \<Rightarrow> ('x option \<times> 'q)"
    and cap :: nat
  assumes cap_pos: "0 < cap"
    and abs_len: "ok q \<Longrightarrow> length (abs q) < cap"
    and put_ok: "ok q \<Longrightarrow> ok (put x q)"
    and put_abs: "ok q \<Longrightarrow> abs (put x q) = (if Suc (length (abs q)) < cap then abs q @ [x] else [])"
    and get_empty: "ok q \<Longrightarrow> abs q = [] \<Longrightarrow> get q = (None, q)"
    and get_next: "ok q \<Longrightarrow> abs q = x # xs \<Longrightarrow> \<exists>q'. get q = (Some x, q') \<and> ok q' \<and> abs q' = xs"

fun get_all :: "('q \<Rightarrow> 'x option \<times> 'q) \<Rightarrow> nat \<Rightarrow> 'q \<Rightarrow> 'x list \<times> 'q" where
  "get_all get 0 q = ([], q)"
| "get_all get (Suc n) q = (case get q of
      (None, q) \<Rightarrow> ([], q)
    | (Some x, q) \<Rightarrow> (let (xs, q) = get_all get n q in (x # xs, q)))"

context ring_queue
begin

text \<open>The newest elements survive: as many as the total modulo the capacity.\<close>

lemma put_newest:
  assumes "ok q" and "abs q = drop (cap * (length zs div cap)) zs"
  shows "abs (put x q) = drop (cap * (length (zs @ [x]) div cap)) (zs @ [x])"
proof -
  have len: "length (abs q) = length zs mod cap"
    using assms(2) by (simp add: minus_mult_div_eq_mod)
  show ?thesis
  proof (cases "Suc (length zs mod cap) < cap")
    case True
    then have "Suc (length zs) div cap = length zs div cap" by (simp add: div_Suc mod_Suc)
    then show ?thesis using True put_abs [OF assms(1)] len assms(2) by simp
  next
    case False
    then have "Suc (length zs mod cap) = cap"
      using mod_less_divisor [OF cap_pos, of "length zs"] by linarith
    then have "Suc (length zs) mod cap = 0" by (simp add: mod_Suc)
    then have "cap * (Suc (length zs) div cap) = Suc (length zs)"
      by (metis add_0_right mult_div_mod_eq)
    then show ?thesis using False put_abs [OF assms(1)] len by simp
  qed
qed

lemma put_all_newest:
  assumes "ok q"
  shows "ok (fold put xs q) \<and> abs (fold put xs q)
    = drop (cap * (length (abs q @ xs) div cap)) (abs q @ xs)"
proof (induction xs rule: rev_induct)
  case Nil
  show ?case using assms abs_len [OF assms] by simp
next
  case (snoc x xs)
  then show ?case
    using put_newest [of "fold put xs q" "abs q @ xs" x] put_ok [of "fold put xs q" x] by simp
qed

lemma get_all_spec:
  "ok q \<Longrightarrow> fst (get_all get n q) = take n (abs q)"
proof (induction n arbitrary: q)
  case (Suc n)
  show ?case
  proof (cases "abs q")
    case Nil
    then show ?thesis using get_empty [OF Suc.prems] by simp
  next
    case (Cons x xs)
    then obtain q' where "get q = (Some x, q')" "ok q'" "abs q' = xs"
      using get_next [OF Suc.prems] by blast
    then show ?thesis using Suc.IH [of q'] Cons by (simp add: case_prod_unfold Let_def)
  qed
qed simp

lemma fifo:
  assumes "ok q" and "length (abs q) + length xs < cap"
  shows "fst (get_all get (length (abs q) + length xs) (fold put xs q)) = abs q @ xs"
  using get_all_spec [of "fold put xs q"] put_all_newest [OF assms(1), of xs] assms(2) by simp

end

section \<open>The input buffer is one\<close>

definition ring_ok :: "console \<Rightarrow> bool" where
  "ring_ok c \<longleftrightarrow> length (cons_buf c) = 512 \<and> unat (cons_rpos c) < 512 \<and> unat (cons_wpos c) < 512"

definition waiting :: "console \<Rightarrow> nat" where
  "waiting c = (unat (cons_wpos c) + 512 - unat (cons_rpos c)) mod 512"

definition contents :: "console \<Rightarrow> u8 list" where
  "contents c = map (\<lambda>i. cons_buf c ! ((unat (cons_rpos c) + i) mod 512)) [0..<waiting c]"

lemma length_contents [simp]: "length (contents c) = waiting c"
  by (simp add: contents_def)

lemma waiting_less: "waiting c < 512"
  by (simp add: waiting_def)

lemma cons_put_eq:
  assumes "ring_ok c"
  shows "cons_buf (cons_put ch c) = (cons_buf c)[unat (cons_wpos c) := of_int ch]"
    and "cons_rpos (cons_put ch c) = cons_rpos c"
    and "unat (cons_wpos (cons_put ch c)) = (unat (cons_wpos c) + 1) mod 512"
proof -
  have w: "unat (cons_wpos c + 1) = unat (cons_wpos c) + 1"
    using assms by (intro trans [OF unat_less_add]) (simp_all add: ring_ok_def)
  have "cons_wpos c + 1 = CONSBUFSIZE \<longleftrightarrow> unat (cons_wpos c) + 1 = 512"
    unfolding CONSBUFSIZE_def word_unat_eq_iff w by simp
  then show "cons_buf (cons_put ch c) = (cons_buf c)[unat (cons_wpos c) := of_int ch]"
    "cons_rpos (cons_put ch c) = cons_rpos c"
    "unat (cons_wpos (cons_put ch c)) = (unat (cons_wpos c) + 1) mod 512"
    using assms w by (auto simp: cons_put_def Let_def ring_ok_def)
qed

lemma cons_put_ok: "ring_ok c \<Longrightarrow> ring_ok (cons_put ch c)"
  using cons_put_eq [of c ch] by (simp add: ring_ok_def)

lemma mod_512: "x < 1024 \<Longrightarrow> x mod 512 = (if x < 512 then x else x - 512 :: nat)"
  by (simp add: le_mod_geq)

lemma ring_index:
  fixes r w n :: nat
  assumes "r < 512" "w < 512" "n = (w + 512 - r) mod 512"
  shows "(r + n) mod 512 = w" and "i < n \<Longrightarrow> (r + i) mod 512 \<noteq> w"
    and "((w + 1) mod 512 + 512 - r) mod 512 = (if Suc n < 512 then Suc n else 0)"
    and "r \<noteq> w \<Longrightarrow> (w + 512 - (r + 1) mod 512) mod 512 = n - 1" and "r = w \<longleftrightarrow> n = 0"
proof -
  have n: "n = (if r \<le> w then w - r else w + 512 - r)"
    unfolding assms(3) using assms(1,2) by (subst mod_512) auto
  then have n512: "n < 512" using assms(1,2) by auto
  have w1: "(w + 1) mod 512 = (if w + 1 < 512 then w + 1 else 0)"
    using assms(2) by (subst mod_512) auto
  have r1: "(r + 1) mod 512 = (if r + 1 < 512 then r + 1 else 0)"
    using assms(1) by (subst mod_512) auto
  show "(r + n) mod 512 = w" using assms(1,2) n n512 by (subst mod_512) (auto split: if_splits)
  show "i < n \<Longrightarrow> (r + i) mod 512 \<noteq> w"
    using assms(1,2) n n512 by (subst mod_512) (auto split: if_splits)
  show "((w + 1) mod 512 + 512 - r) mod 512 = (if Suc n < 512 then Suc n else 0)"
    unfolding w1 using assms(1,2) n n512 by (subst mod_512) (auto split: if_splits)
  show "r \<noteq> w \<Longrightarrow> (w + 512 - (r + 1) mod 512) mod 512 = n - 1"
    unfolding r1 using assms(1,2) n n512 by (subst mod_512) (auto split: if_splits)
  show "r = w \<longleftrightarrow> n = 0" using assms(1,2) n by (auto split: if_splits)
qed

lemma contents_put:
  assumes "ring_ok c"
  shows "contents (cons_put ch c)
    = (if Suc (length (contents c)) < 512 then contents c @ [of_int ch] else [])"
proof -
  let ?r = "unat (cons_rpos c)" and ?w = "unat (cons_wpos c)"
  have b: "?r < 512" "?w < 512" "length (cons_buf c) = 512" using assms by (simp_all add: ring_ok_def)
  note ix = ring_index [OF b(1,2) waiting_def [of c]]
  have wait: "waiting (cons_put ch c) = (if Suc (waiting c) < 512 then Suc (waiting c) else 0)"
    unfolding waiting_def [of "cons_put ch c"] cons_put_eq(2,3) [OF assms] by (rule ix(3))
  have "cons_buf (cons_put ch c) ! ((?r + i) mod 512)
      = (if i < waiting c then cons_buf c ! ((?r + i) mod 512) else of_int ch)" if "i < Suc (waiting c)" for i
  proof (cases "i < waiting c")
    case True
    then show ?thesis using ix(2) [of i] by (simp add: cons_put_eq(1) [OF assms])
  next
    case False
    then have "i = waiting c" using that by simp
    then show ?thesis using ix(1) b by (simp add: cons_put_eq(1) [OF assms])
  qed
  then show ?thesis
    unfolding contents_def [of "cons_put ch c"] wait cons_put_eq(2) [OF assms]
    by (auto simp: contents_def intro!: map_cong)
qed

lemma cons_take_spec:
  assumes "ring_ok c"
  shows "cons_take c = (case contents c of [] \<Rightarrow> (0, c) | x # xs \<Rightarrow> (uint x, snd (cons_take c)))"
    and "contents c = x # xs \<Longrightarrow> ring_ok (snd (cons_take c)) \<and> contents (snd (cons_take c)) = xs"
proof -
  let ?r = "unat (cons_rpos c)" and ?w = "unat (cons_wpos c)"
  have b: "?r < 512" "?w < 512" "length (cons_buf c) = 512" using assms by (simp_all add: ring_ok_def)
  note ix = ring_index [OF b(1,2) waiting_def [of c]]
  have eq: "cons_rpos c = cons_wpos c \<longleftrightarrow> waiting c = 0"
    using ix(5) by (simp add: word_unat_eq_iff)
  have upt: "[0..<waiting c] = 0 # map Suc [0..<waiting c - 1]" if "waiting c \<noteq> 0"
    using that by (cases "waiting c") (simp_all add: upt_conv_Cons map_Suc_upt del: upt_Suc)
  have con: "contents c = cons_buf c ! ?r # map (\<lambda>i. cons_buf c ! ((?r + Suc i) mod 512)) [0..<waiting c - 1]"
    if "waiting c \<noteq> 0"
    unfolding contents_def upt [OF that] using b(1) by (simp add: comp_def)
  show "cons_take c = (case contents c of [] \<Rightarrow> (0, c) | x # xs \<Rightarrow> (uint x, snd (cons_take c)))"
  proof (cases "waiting c = 0")
    case True
    then show ?thesis using eq by (simp add: cons_take_def contents_def)
  next
    case False
    then show ?thesis using eq con [OF False] by (simp add: cons_take_def Let_def)
  qed
  assume x: "contents c = x # xs"
  then have nz: "waiting c \<noteq> 0" using length_contents [of c] by auto
  have r1: "unat (cons_rpos c + 1) = ?r + 1" using b(1) by (intro trans [OF unat_less_add]) simp_all
  have "cons_rpos c + 1 = CONSBUFSIZE \<longleftrightarrow> ?r + 1 = 512"
    unfolding CONSBUFSIZE_def word_unat_eq_iff r1 by simp
  then have t: "unat (cons_rpos (snd (cons_take c))) = (?r + 1) mod 512"
    "cons_buf (snd (cons_take c)) = cons_buf c" "cons_wpos (snd (cons_take c)) = cons_wpos c"
    using b(1) r1 nz eq by (auto simp: cons_take_def Let_def)
  have "waiting (snd (cons_take c)) = waiting c - 1"
    unfolding waiting_def [of "snd (cons_take c)"] t using ix(4,5) nz by simp
  moreover have "((?r + 1) mod 512 + i) mod 512 = (?r + Suc i) mod 512" for i
    by (simp add: mod_add_left_eq)
  ultimately show "ring_ok (snd (cons_take c)) \<and> contents (snd (cons_take c)) = xs"
    using x con [OF nz] b by (simp add: ring_ok_def t contents_def [of "snd (cons_take c)"])
qed

text \<open>\<open>cons_take\<close> with the empty buffer as \<open>None\<close>.\<close>

definition ring_get :: "console \<Rightarrow> u8 option \<times> console" where
  "ring_get c = (if waiting c = 0 then (None, c)
     else (Some (of_int (fst (cons_take c))), snd (cons_take c)))"

interpretation cq: ring_queue ring_ok contents "\<lambda>b. cons_put (uint b)" ring_get 512
proof unfold_locales
  fix c :: console and b x :: u8 and xs
  show "(0 :: nat) < 512" by simp
  show "length (contents c) < 512" by (simp add: waiting_less)
  show "ring_ok c \<Longrightarrow> ring_ok (cons_put (uint b) c)" by (rule cons_put_ok)
  show "ring_ok c \<Longrightarrow> contents (cons_put (uint b) c)
      = (if Suc (length (contents c)) < 512 then contents c @ [b] else [])"
    using contents_put [of c "uint b"] by simp
  show "contents c = [] \<Longrightarrow> ring_get c = (None, c)"
    using length_contents [of c] by (simp add: ring_get_def del: length_contents)
  assume ok: "ring_ok c" and x: "contents c = x # xs"
  have "waiting c \<noteq> 0" using x length_contents [of c] by auto
  moreover have "fst (cons_take c) = uint x" using cons_take_spec(1) [OF ok] x by (metis fst_conv list.simps(5))
  ultimately show "\<exists>q'. ring_get c = (Some x, q') \<and> ring_ok q' \<and> contents q' = xs"
    using cons_take_spec(2) [OF ok x] by (simp add: ring_get_def)
qed

section \<open>Reading the devices\<close>

text \<open>The characters a device routine delivers until it reports that there is no more.\<close>

inductive delivers :: "(console \<Rightarrow> int \<times> console) \<Rightarrow> console \<Rightarrow> int list \<Rightarrow> console \<Rightarrow> bool"
  for proc :: "console \<Rightarrow> int \<times> console" where
  stop: "proc c = (- 1, c') \<Longrightarrow> delivers proc c [] c'"
| skip: "proc c = (0, c1) \<Longrightarrow> delivers proc c1 chs c' \<Longrightarrow> delivers proc c chs c'"
| char: "proc c = (ch, c1) \<Longrightarrow> ch \<noteq> 0 \<Longrightarrow> ch \<noteq> - 1 \<Longrightarrow> delivers proc (cons_put ch c1) chs c'
    \<Longrightarrow> delivers proc c (ch # chs) c'"

text \<open>A device routine leaves the input buffer alone.\<close>

definition keeps_ring :: "(console \<Rightarrow> int \<times> console) \<Rightarrow> bool" where
  "keeps_ring proc \<longleftrightarrow> (\<forall>c. cons_buf (snd (proc c)) = cons_buf c
     \<and> cons_rpos (snd (proc c)) = cons_rpos c \<and> cons_wpos (snd (proc c)) = cons_wpos c)"

lemma cons_intr_delivers:
  assumes "cons_intr proc c = Some c'"
  shows "\<exists>chs. delivers proc c chs c'"
  using assms
proof (induction rule: cons_intr.raw_induct [rotated 1, consumes 1, case_names step])
  case (step intr proc c c')
  obtain ch c1 where p: "proc c = (ch, c1)" by fastforce
  consider "ch = - 1" | "ch = 0" | "ch \<noteq> 0" "ch \<noteq> - 1" by blast
  then show ?case
  proof cases
    case 1
    then show ?thesis using step(2) p by (auto intro: delivers.stop)
  next
    case 2
    then have "intr proc c1 = Some c'" using step(2) p by simp
    from step(1) [OF this] show ?thesis using p 2 by (blast intro: delivers.skip)
  next
    case 3
    then have "intr proc (cons_put ch c1) = Some c'" using step(2) p by simp
    from step(1) [OF this] show ?thesis using p 3 by (blast intro: delivers.char)
  qed
qed

lemma delivers_newest:
  assumes "delivers proc c chs c'" and "keeps_ring proc" and "ring_ok c"
    and "contents c = drop (512 * (length zs div 512)) zs"
  shows "ring_ok c' \<and> contents c'
    = drop (512 * (length (zs @ map of_int chs) div 512)) (zs @ map of_int chs)"
  using assms(1,3,4)
proof (induction arbitrary: zs rule: delivers.induct)
  case (stop c c')
  then show ?case using assms(2) by (auto simp: keeps_ring_def ring_ok_def contents_def waiting_def dest: spec [of _ c])
next
  case (skip c c1 chs c')
  have "ring_ok c1" "contents c1 = contents c"
    using assms(2) skip(1,4) by (auto simp: keeps_ring_def ring_ok_def contents_def waiting_def dest: spec [of _ c])
  then show ?case using skip by simp
next
  case (char c ch c1 chs c')
  have c1: "ring_ok c1" "contents c1 = contents c"
    using assms(2) char(1,6) by (auto simp: keeps_ring_def ring_ok_def contents_def waiting_def dest: spec [of _ c])
  have put: "cons_put ch c1 = cons_put (uint (of_int ch :: u8)) c1"
    by (simp add: cons_put_def)
  have "contents (cons_put ch c1)
      = drop (512 * (length (zs @ [of_int ch]) div 512)) (zs @ [of_int ch])"
    unfolding put by (rule cq.put_newest [OF c1(1)]) (simp add: c1(2) char(7))
  from char.IH [OF cons_put_ok [OF c1(1)] this] show ?case by simp
qed

definition ring_same :: "console \<Rightarrow> console \<Rightarrow> bool" where
  "ring_same c c' \<longleftrightarrow> cons_buf c' = cons_buf c \<and> cons_rpos c' = cons_rpos c \<and> cons_wpos c' = cons_wpos c"

lemma putc_ring_same: "ring_same c (cga_putc dev ch c)" "ring_same c (cons_putc dev ch c)"
proof (induction dev ch c and dev ch c rule: cga_putc_cons_putc.induct)
  case (1 dev ch c)
  then show ?case by (simp add: cga_putc.simps Let_def ring_same_def)
next
  case (2 dev ch c)
  then show ?case
    using same_state_ports [of c dev ch] by (simp add: cons_putc.simps ring_same_def same_state_def)
qed

lemma cons_puts_ring_same: "ring_same c (cons_puts dev str c)"
proof (induction str arbitrary: c)
  case (Cons x xs)
  then show ?case
    using putc_ring_same(2) [of c dev "of_char x"] by (simp add: cons_puts_def ring_same_def)
qed (simp add: cons_puts_def ring_same_def)

lemma serial_keeps_ring: "keeps_ring (serial_proc_data dev)"
  by (simp add: keeps_ring_def serial_proc_data_def case_prod_unfold Let_def)

lemma kbd_keeps_ring: "keeps_ring (kbd_proc_data dev)"
  using cons_puts_ring_same by (simp add: keeps_ring_def kbd_proc_data_def case_prod_unfold Let_def ring_same_def)

section \<open>The key tables\<close>

lemma length_table256: "length base \<le> 256 \<Longrightarrow> length (table256 base ds) = 256"
proof -
  assume "length base \<le> 256"
  moreover have "length (fold (\<lambda>(i, v) xs. xs[i := v]) ds xs) = length xs" for xs :: "u8 list"
    by (induction ds arbitrary: xs) auto
  ultimately show ?thesis by (simp add: table256_def)
qed

lemma base_lengths: "length normal_base = 88" "length shift_base = 88" "length ctl_base = 56"
  by (simp_all add: normal_base_def shift_base_def ctl_base_def)

lemma table_lengths: "length shiftcode = 256" "length togglecode = 256" "length normalmap = 256"
  "length shiftmap = 256" "length ctlmap = 256"
  by (simp_all add: shiftcode_def togglecode_def normalmap_def shiftmap_def ctlmap_def
    base_lengths length_table256)

lemma set_table256: "set (table256 base ds) \<subseteq> insert 0 (set base \<union> snd ` set ds)"
proof -
  have "set (fold (\<lambda>(i, v) xs. xs[i := v]) ds xs) \<subseteq> set xs \<union> snd ` set ds" for xs :: "u8 list"
  proof (induction ds arbitrary: xs)
    case (Cons d ds)
    obtain i v where d: "d = (i, v)" by fastforce
    have "set (xs[i := v]) \<subseteq> insert v (set xs)" by (rule set_update_subset_insert)
    then show ?case using Cons.IH [of "xs[i := v]"] d by auto
  qed simp
  then show ?thesis unfolding table256_def by (rule order_trans) auto
qed

lemma shiftcode_bits: "shiftcode ! unat (d :: u8) \<in> {0, SHIFT, CTL, ALT}"
proof -
  have "shiftcode ! unat d \<in> set shiftcode" using u8_bound [of d] by (simp add: table_lengths)
  then show ?thesis using set_table256 [of "[]"] unfolding shiftcode_def by fastforce
qed

lemma togglecode_bits: "togglecode ! unat (d :: u8) \<in> {0, CAPSLOCK, NUMLOCK, SCROLLLOCK}"
proof -
  have "togglecode ! unat d \<in> set togglecode" using u8_bound [of d] by (simp add: table_lengths)
  then show ?thesis using set_table256 [of "[]"] unfolding togglecode_def by fastforce
qed

text \<open>The shift state only ever holds the seven modifier bits.\<close>

definition shift_ok :: "u32 \<Rightarrow> bool" where "shift_ok s \<longleftrightarrow> take_bit 7 s = s"

lemma shift_ok_step:
  assumes "shift_ok s"
  shows "x \<in> {0, SHIFT, CTL, ALT, E0ESC} \<Longrightarrow> shift_ok (s OR ucast x)"
    and "y \<in> {0, CAPSLOCK, NUMLOCK, SCROLLLOCK} \<Longrightarrow> shift_ok (s XOR ucast y)"
    and "shift_ok (s AND z)"
proof -
  have s: "take_bit 7 s = s" using assms by (simp add: shift_ok_def)
  have b: "take_bit 7 (ucast x :: u32) = ucast x" if "x \<in> {0, 0x01, 0x02, 0x04, 0x08, 0x10, 0x20, 0x40 :: u8}" for x
    using that by auto
  show "x \<in> {0, SHIFT, CTL, ALT, E0ESC} \<Longrightarrow> shift_ok (s OR ucast x)"
    unfolding shift_ok_def take_bit_or s using b [of x] by (simp add: modifier_defs) metis
  show "y \<in> {0, CAPSLOCK, NUMLOCK, SCROLLLOCK} \<Longrightarrow> shift_ok (s XOR ucast y)"
    unfolding shift_ok_def take_bit_xor s using b [of y] by (simp add: modifier_defs) metis
  have "bit s n \<Longrightarrow> n < 7" for n using s bit_take_bit_iff [of 7 s n] by metis
  then show "shift_ok (s AND z)"
    unfolding shift_ok_def by (intro bit_word_eqI) (auto simp: bit_take_bit_iff bit_and_iff)
qed

lemma charcode_bound:
  assumes "i < 4"
  shows "length (charcode ! i) = 256"
proof -
  have "i \<in> {0, 1, 2, 3}" using assms by auto
  then show ?thesis by (auto simp: charcode_def table_lengths)
qed

lemma charcode_index: "unat (s AND ucast (CTL OR SHIFT) :: u32) < 4"
proof -
  have "s AND 3 = take_bit 2 s" by (simp add: take_bit_eq_mask mask_eq_exp_minus_1)
  then show ?thesis
    using take_bit_nat_less_exp [of 2 "unat s"] by (simp add: modifier_defs unsigned_take_bit_eq)
qed

lemma kbd_decode_ok:
  assumes "shift_ok s"
  shows "shift_ok (snd (kbd_decode s d)) \<and> 0 \<le> fst (kbd_decode s d) \<and> fst (kbd_decode s d) < 256"
proof
  have sc: "shift_ok s \<Longrightarrow> shift_ok (s OR ucast (shiftcode ! unat d))" for s and d :: u8
    using shift_ok_step(1) [of s "shiftcode ! unat d"] shiftcode_bits [of d] by auto
  have tc: "shift_ok s \<Longrightarrow> shift_ok (s XOR ucast (togglecode ! unat d))" for s and d :: u8
    using shift_ok_step(2) [of s "togglecode ! unat d"] togglecode_bits [of d] by auto
  have es: "shift_ok (s OR ucast E0ESC)" using shift_ok_step(1) [OF assms] by simp
  note an = shift_ok_step(3)
  show "shift_ok (snd (kbd_decode s d))"
    using assms by (simp add: kbd_decode_def Let_def case_prod_unfold sc tc es an)
  have "0 \<le> (if b then (if 97 \<le> c \<and> c \<le> 122 then c + (65 - 97)
        else if 65 \<le> c \<and> c \<le> 90 then c + (97 - 65) else c) else c)
      \<and> (if b then (if 97 \<le> c \<and> c \<le> 122 then c + (65 - 97)
        else if 65 \<le> c \<and> c \<le> 90 then c + (97 - 65) else c) else c) < 256"
    if "c = uint (x :: u8)" for b c x
    using uint_lt2p [of x] that by auto
  then show "0 \<le> fst (kbd_decode s d) \<and> fst (kbd_decode s d) < 256"
    unfolding kbd_decode_def Let_def case_prod_unfold by simp
qed

lemma table256_nth:
  assumes "length base \<le> 256" and "i < 256"
  shows "table256 base ds ! i
    = (case map_of (rev ds) i of Some v \<Rightarrow> v | None \<Rightarrow> (if i < length base then base ! i else 0))"
proof -
  have "i < length xs \<Longrightarrow> fold (\<lambda>(i, v) xs. xs[i := v]) ds xs ! i
      = (case map_of (rev ds) i of Some v \<Rightarrow> v | None \<Rightarrow> xs ! i)" for xs :: "u8 list"
    by (induction ds arbitrary: xs) (auto simp: map_add_def nth_list_update split: option.splits)
  then show ?thesis using assms by (auto simp: table256_def nth_append split: option.splits)
qed

text \<open>The letter rows of the keyboard: the scan code of the first key, and the letters.\<close>

definition letter_rows :: "(nat \<times> string) list" where
  "letter_rows = [(0x10, ''qwertyuiop''), (0x1E, ''asdfghjkl''), (0x2C, ''zxcvbnm'')]"

lemma row_slice:
  assumes "take (length ys) (drop k xs) = ys" and "i < length ys"
  shows "xs ! (k + i) = ys ! i"
proof -
  have "length ys \<le> length (drop k xs)"
    using arg_cong [OF assms(1), of length] by simp
  then have "k + i < length xs" using assms(2) by simp
  then show ?thesis using assms by (metis add_leD1 le_simps(1) nth_drop nth_take)
qed

lemma row_slices:
  assumes "(k, row) \<in> set letter_rows"
  shows "take (length row) (drop k normal_base) = map chr row"
    and "take (length row) (drop k shift_base) = map (\<lambda>c. chr c - 32) row"
    and "take (length row) (drop k ctl_base) = map (\<lambda>c. chr c - 96) row"
    and "\<forall>c \<in> set row. 97 \<le> chi c \<and> chi c \<le> 122"
  using assms
  by (auto simp: letter_rows_def normal_base_def shift_base_def ctl_base_def ctl_def)

lemma letter_key:
  assumes "(k, row) \<in> set letter_rows" and "i < length row"
  defines "d \<equiv> of_nat (k + i) :: u8"
  shows "normalmap ! unat d = chr (row ! i)" "shiftmap ! unat d = chr (row ! i) - 32"
    and "ctlmap ! unat d = chr (row ! i) - 96" "shiftcode ! unat d = 0" "togglecode ! unat d = 0"
    and "d \<noteq> 0xE0" "d AND 0x80 = 0" "97 \<le> chi (row ! i)" "chi (row ! i) \<le> 122"
proof -
  have range: "16 \<le> k + i" "k + i < 52" "k + i < 56" "k + i \<notin> {0x1D, 0x2A, 0x36, 0x38, 0x3A, 0x45, 0x46}"
    using assms(1,2) by (auto simp: letter_rows_def)
  have u: "unat d = k + i" unfolding d_def using range(2) by (intro unat_of_nat_small) simp
  have mo: "map_of (rev ds) (k + i) = None" if "\<forall>x \<in> set ds. 100 \<le> fst x" for ds :: "(nat \<times> u8) list"
    using that range(2) by (auto simp: map_of_eq_None_iff)
  note slices = row_slices [OF assms(1)]
  have sl: "normal_base ! (k + i) = chr (row ! i)" "shift_base ! (k + i) = chr (row ! i) - 32"
    "ctl_base ! (k + i) = chr (row ! i) - 96"
    using row_slice [of "map chr row" k normal_base i] row_slice [of "map (\<lambda>c. chr c - 32) row" k shift_base i]
      row_slice [of "map (\<lambda>c. chr c - 96) row" k ctl_base i] slices(1-3) assms(2) by simp_all
  show "normalmap ! unat d = chr (row ! i)" "shiftmap ! unat d = chr (row ! i) - 32"
    "ctlmap ! unat d = chr (row ! i) - 96"
    unfolding u normalmap_def shiftmap_def ctlmap_def using range sl
    by (simp_all add: table256_nth base_lengths mo special_keys_def del: rev.simps)
  show "shiftcode ! unat d = 0" "togglecode ! unat d = 0"
    unfolding u shiftcode_def togglecode_def using range by (simp_all add: table256_nth)
  show "d \<noteq> 0xE0" using u range by auto
  have "unat d < 2 ^ 7" using u range by simp
  then have "take_bit 7 d = d"
    using bit_less_exp [of d 7] by (intro bit_word_eqI) (auto simp: bit_take_bit_iff)
  then have "d = d AND 0x7F" by (simp add: take_bit_eq_mask mask_eq_exp_minus_1)
  then have "d AND 0x80 = d AND (0x7F AND 0x80)" by (metis and.assoc)
  then show "d AND 0x80 = 0" by simp
  show "97 \<le> chi (row ! i)" "chi (row ! i) \<le> 122" using slices(4) assms(2) nth_mem by blast+
qed

lemma and_not_disjoint: "a AND b = 0 \<Longrightarrow> a AND NOT b = (a :: 'a::len word)"
  by (rule bit_word_eqI) (auto simp: bit_simps dest: arg_cong [where f = "\<lambda>x. bit x _"])

lemma charcode_zero:
  assumes "i < 4" and "normalmap ! d = 0" and "shiftmap ! d = 0" and "ctlmap ! d = 0"
  shows "charcode ! i ! d = 0"
proof -
  have "i \<in> {0, 1, 2, 3}" using assms(1) by auto
  then show ?thesis using assms(2-) by (auto simp: charcode_def)
qed

text \<open>A key that is its modifier's in \<^verbatim>\<open>shiftcode\<close> and types nothing.\<close>

definition modifier_key :: "u8 \<Rightarrow> u8 \<Rightarrow> bool" where
  "modifier_key code m \<longleftrightarrow> shiftcode ! unat code = m \<and> togglecode ! unat code = 0
     \<and> normalmap ! unat code = 0 \<and> shiftmap ! unat code = 0 \<and> ctlmap ! unat code = 0
     \<and> code AND 0x80 = 0 \<and> (code OR 0x80) AND 0x80 \<noteq> 0 \<and> (code OR 0x80) AND 0x7F = code
     \<and> code \<noteq> 0xE0 \<and> code OR 0x80 \<noteq> 0xE0 \<and> m AND E0ESC = 0"

lemma modifier_keys: "modifier_key 0x2A SHIFT" "modifier_key 0x36 SHIFT" "modifier_key 0x1D CTL"
  "modifier_key 0x38 ALT"
  by (simp_all add: modifier_key_def shiftcode_def togglecode_def normalmap_def shiftmap_def ctlmap_def
    table256_nth base_lengths special_keys_def normal_base_def shift_base_def ctl_base_def ctl_def
    modifier_defs nth_append)

lemma or_and_not_disjoint: "s AND e = 0 \<Longrightarrow> (s OR m) AND NOT (m OR e) = s AND NOT (m :: 'a::len word)"
  by (rule bit_word_eqI) (auto simp: bit_simps dest: arg_cong [where f = "\<lambda>x. bit x _"])

lemma modifier_press:
  assumes "modifier_key code m" and "s AND ucast E0ESC = 0"
  shows "kbd_decode s code = (0, s OR ucast m)"
  using assms charcode_zero [OF charcode_index, of "unat code"]
  by (simp add: kbd_decode_def Let_def modifier_key_def)

lemma modifier_release:
  assumes "modifier_key code m" and "s AND ucast E0ESC = 0"
  shows "kbd_decode (s OR ucast m) (code OR 0x80) = (0, s AND NOT (ucast m))"
proof -
  have m: "(ucast m :: u32) AND ucast E0ESC = 0"
    using assms(1) by (simp add: modifier_key_def flip: unsigned_and_eq)
  have "(s OR ucast m) AND ucast E0ESC = 0"
    using assms(2) m by (simp add: bit.conj_disj_distrib2)
  moreover have "(s OR ucast m) AND NOT (ucast m OR ucast E0ESC) = s AND NOT (ucast m)"
    by (rule or_and_not_disjoint [OF assms(2)])
  ultimately show ?thesis
    using assms(1) by (simp add: kbd_decode_def Let_def modifier_key_def)
qed

lemma lock_twice:
  assumes "code \<in> {0x3A, 0x45, 0x46}" and "s AND ucast E0ESC = 0"
  shows "snd (kbd_decode (snd (kbd_decode s code)) code) = s"
proof -
  have t: "shiftcode ! unat code = 0" "togglecode ! unat code AND E0ESC = 0" "code AND 0x80 = 0" "code \<noteq> 0xE0"
    using assms(1) by (auto simp: shiftcode_def togglecode_def table256_nth modifier_defs)
  have e: "(s XOR ucast (togglecode ! unat code)) AND ucast E0ESC = 0"
    using assms(2) t(2) by (simp add: bit.conj_xor_distrib2 flip: unsigned_and_eq)
  have "snd (kbd_decode r code) = r XOR ucast (togglecode ! unat code)" if "r AND ucast E0ESC = 0" for r
    using that t by (simp add: kbd_decode_def Let_def)
  then show ?thesis using assms(2) e by (simp add: xor.assoc)
qed

section \<open>Contracts\<close>

text \<open>C18: Printing any character, with or without an attribute, keeps the cursor inside the
  25 by 80 cells of the display, writes no display memory behind them, and touches neither
  the input buffer nor the keyboard state; tabulators, newlines, backspace at the first
  cell and scrolling included.\<close>

theorem cons_putc_safe:
  assumes "crt_pos c < CRT_SIZE"
  shows "crt_pos (cons_putc dev ch c) < CRT_SIZE
    \<and> (\<forall>i \<ge> CRT_SIZE. crt_buf (cons_putc dev ch c) i = crt_buf c i)
    \<and> contents (cons_putc dev ch c) = contents c \<and> kbd_shift (cons_putc dev ch c) = kbd_shift c"
  using putc_ok(2) [OF assms, of dev ch] by (simp add: printed_ok_def contents_def waiting_def)

definition blank_console :: console where
  "blank_console = \<lparr>reads = (\<lambda>_. 0), writes = [], serial_exists = True, addr_6845 = CGA_BASE,
     crt_buf = (\<lambda>_. 0x0720), crt_pos = 1999, kbd_shift = 0, cons_buf = replicate 512 0,
     cons_rpos = 0, cons_wpos = 0\<rparr>"

lemma cons_putc_safe_witness:
  "crt_pos (cons_putc (\<lambda>_ _. 0xFF) 0x41 blank_console) < 2000"
  using cons_putc_safe [of blank_console]
  by (simp add: blank_console_def crt_defs)

lemma cons_take_result:
  assumes "ring_ok c" and "cons_take c = (ch, c')"
  shows "case contents c of [] \<Rightarrow> ch = 0 \<and> contents c' = [] | x # xs \<Rightarrow> ch = uint x \<and> contents c' = xs"
    and "ring_ok c'"
proof -
  have t: "cons_take c = (case contents c of [] \<Rightarrow> (0, c) | x # xs \<Rightarrow> (uint x, snd (cons_take c)))"
    by (rule cons_take_spec(1) [OF assms(1)])
  show "case contents c of [] \<Rightarrow> ch = 0 \<and> contents c' = [] | x # xs \<Rightarrow> ch = uint x \<and> contents c' = xs"
    using t assms cons_take_spec(2) [OF assms(1)] by (cases "contents c") auto
  show "ring_ok c'"
    using t assms cons_take_spec(2) [OF assms(1)] by (cases "contents c") auto
qed

text \<open>What the serial port delivers, if there is one.\<close>

lemma serial_intr_delivers:
  assumes "serial_intr dev c = Some c1"
  shows "\<exists>chs. if serial_exists c then delivers (serial_proc_data dev) c chs c1 else chs = [] \<and> c1 = c"
proof (cases "serial_exists c")
  case True
  then show ?thesis using assms cons_intr_delivers [of "serial_proc_data dev" c c1] by (simp add: serial_intr_def)
next
  case False
  then show ?thesis using assms by (simp add: serial_intr_def)
qed

text \<open>C14: \<open>cons_getc\<close> is a first-in first-out queue over what the serial port and the
  keyboard delivered: it returns the oldest character that is still in the circular buffer,
  or 0 when there is none. Nothing is lost while fewer than 512 characters wait; when more
  arrive, only the newest ones survive, their number the total modulo 512.\<close>

theorem cons_getc_fifo:
  assumes "ring_ok c" and "cons_getc dev c = Some (ch, c')"
  shows "\<exists>chs1 chs2 arrived waiting'. arrived = contents c @ map of_int (chs1 @ chs2)
    \<and> waiting' = drop (512 * (length arrived div 512)) arrived
    \<and> (length arrived < 512 \<longrightarrow> waiting' = arrived)
    \<and> (case waiting' of [] \<Rightarrow> ch = 0 \<and> contents c' = []
        | x # xs \<Rightarrow> ch = uint x \<and> contents c' = xs) \<and> ring_ok c'
    \<and> (\<exists>c1 c2. (if serial_exists c then delivers (serial_proc_data dev) c chs1 c1 else chs1 = [] \<and> c1 = c)
        \<and> delivers (kbd_proc_data dev) c1 chs2 c2 \<and> cons_take c2 = (ch, c'))"
proof -
  obtain c1 c2 where steps: "serial_intr dev c = Some c1" "kbd_intr dev c1 = Some c2"
    "cons_take c2 = (ch, c')"
    using assms(2) by (auto simp: cons_getc_def Option.bind_eq_Some_conv)
  obtain chs1 where d1: "if serial_exists c then delivers (serial_proc_data dev) c chs1 c1 else chs1 = [] \<and> c1 = c"
    using serial_intr_delivers [OF steps(1)] by blast
  obtain chs2 where d2: "delivers (kbd_proc_data dev) c1 chs2 c2"
    using steps(2) cons_intr_delivers [of "kbd_proc_data dev" c1 c2] by (auto simp: kbd_intr_def)
  have "length (contents c) div 512 = 0" using waiting_less [of c] by simp
  then have start: "contents c = drop (512 * (length (contents c) div 512)) (contents c)" by simp
  have "ring_ok c1 \<and> contents c1 = drop (512 * (length (contents c @ map of_int chs1) div 512)) (contents c @ map of_int chs1)"
    using d1 delivers_newest [OF _ serial_keeps_ring assms(1) start] assms(1) start by (auto split: if_splits)
  then have 1: "ring_ok c1"
    "contents c1 = drop (512 * (length (contents c @ map of_int chs1) div 512)) (contents c @ map of_int chs1)" by blast+
  let ?arr = "contents c @ map of_int (chs1 @ chs2)"
  have 2: "ring_ok c2" "contents c2 = drop (512 * (length ?arr div 512)) ?arr"
    using delivers_newest [OF d2 kbd_keeps_ring 1] by simp_all
  have small: "length ?arr < 512 \<longrightarrow> contents c2 = ?arr" unfolding 2(2) by simp
  show ?thesis
    by (intro exI [of _ chs1] exI [of _ chs2] exI [of _ ?arr] exI [of _ "contents c2"] conjI refl 2(2) small
        cons_take_result [OF 2(1) steps(3)])
      (use d1 d2 steps(3) in blast)
qed

lemma cons_getc_fifo_witness:
  "\<exists>c'. cons_getc (\<lambda>_ _. 0) (cons_put 0x61 blank_console) = Some (0x61, c') \<and> ring_ok c'"
proof -
  have ok: "ring_ok (cons_put 0x61 blank_console)"
    by (rule cons_put_ok) (simp add: ring_ok_def blank_console_def)
  let ?c = "cons_put 0x61 blank_console"
  let ?c1 = "snd (inb (\<lambda>_ _. 0) (COM1 + COM_LSR) ?c)"
  let ?c2 = "snd (inb (\<lambda>_ _. 0) 0x64 ?c1)"
  have "serial_exists ?c" by (simp add: cons_put_def blank_console_def CONSBUFSIZE_def)
  moreover have "cons_intr (serial_proc_data (\<lambda>_ _. 0)) ?c = Some ?c1"
    by (subst cons_intr.simps) (simp add: serial_proc_data_def inb_def)
  ultimately have 1: "serial_intr (\<lambda>_ _. 0) ?c = Some ?c1" by (simp add: serial_intr_def)
  have 2: "kbd_intr (\<lambda>_ _. 0) ?c1 = Some ?c2"
    unfolding kbd_intr_def by (subst cons_intr.simps) (simp add: kbd_proc_data_def inb_def)
  have "cons_rpos ?c = 0" "cons_wpos ?c = 1" "cons_buf ?c ! 0 = 0x61"
    by (simp_all add: cons_put_def blank_console_def CONSBUFSIZE_def)
  then have "fst (cons_take ?c2) = 0x61" by (simp add: cons_take_def Let_def)
  then have "cons_getc (\<lambda>_ _. 0) ?c = Some (0x61, snd (cons_take ?c2))"
    unfolding cons_getc_def 1 bind.simps 2 by (simp only: option.inject prod_eq_iff fst_conv snd_conv)
  from cons_getc_fifo [OF ok this] this show ?thesis by blast
qed

text \<open>The decoder types the letter rows of a US keyboard: from each shift state, a letter
  key gives the lower-case letter, the upper-case one with Shift or with Caps Lock, the
  lower-case one again with both, and the control character with Ctrl.\<close>

theorem keyboard_letters:
  assumes "(k, row) \<in> set letter_rows" and "i < length row"
  shows "kbd_decode 0 (of_nat (k + i)) = (chi (row ! i), 0)
    \<and> kbd_decode 0x01 (of_nat (k + i)) = (chi (row ! i) - 32, 0x01)
    \<and> kbd_decode 0x08 (of_nat (k + i)) = (chi (row ! i) - 32, 0x08)
    \<and> kbd_decode 0x09 (of_nat (k + i)) = (chi (row ! i), 0x09)
    \<and> kbd_decode 0x02 (of_nat (k + i)) = (chi (row ! i) - 96, 0x02)"
proof -
  note key = letter_key [OF assms]
  let ?c = "row ! i"
  have uc: "uint (chr ?c) = chi ?c" by (rule uint_chr)
  have "uint (chr ?c - 32) = chi ?c - 32" "uint (chr ?c - 96) = chi ?c - 96"
    using key(8,9) uc by (simp_all add: uint_word_ariths)
  then show ?thesis
    using key uc by (simp add: kbd_decode_def Let_def charcode_def modifier_defs)
qed

lemma keyboard_letters_witness:
  "kbd_decode 0 0x1E = (0x61, 0) \<and> kbd_decode 0x09 0x1E = (0x61, 0x09) \<and> kbd_decode 0x02 0x1E = (1, 0x02)"
proof -
  have "(0x1E, ''asdfghjkl'') \<in> set letter_rows" by (simp add: letter_rows_def)
  from keyboard_letters [OF this, of 0] show ?thesis by simp
qed

text \<open>Pressing a Shift, Ctrl or Alt key sets its bit of the shift state and releasing it
  clears that bit, with every other modifier unchanged and no character typed; pressing a
  lock key twice restores the state; and from any state every scan code leads to a state of
  the seven modifier bits and a character from 0 to 255, so the tables are never read
  outside their bounds.\<close>

theorem keyboard_modifiers:
  assumes "shift_ok s" and "s AND ucast E0ESC = 0"
  shows "(\<forall>(code, m) \<in> {(0x2A, SHIFT), (0x36, SHIFT), (0x1D, CTL), (0x38, ALT)}.
      kbd_decode s code = (0, s OR ucast m)
      \<and> kbd_decode (s OR ucast m) (code OR 0x80) = (0, s AND NOT (ucast m)))
    \<and> (\<forall>code \<in> {0x3A, 0x45, 0x46}. snd (kbd_decode (snd (kbd_decode s code)) code) = s)
    \<and> (\<forall>d. shift_ok (snd (kbd_decode s d)) \<and> 0 \<le> fst (kbd_decode s d) \<and> fst (kbd_decode s d) < 256)"
proof (intro conjI)
  have 1: "kbd_decode s code = (0, s OR ucast m)
      \<and> kbd_decode (s OR ucast m) (code OR 0x80) = (0, s AND NOT (ucast m))"
    if "modifier_key code m" for code m
    using modifier_press [OF that assms(2)] modifier_release [OF that assms(2)] by blast
  show "\<forall>(code, m) \<in> {(0x2A, SHIFT), (0x36, SHIFT), (0x1D, CTL), (0x38, ALT)}.
      kbd_decode s code = (0, s OR ucast m)
      \<and> kbd_decode (s OR ucast m) (code OR 0x80) = (0, s AND NOT (ucast m))"
    using 1 modifier_keys by blast
  show "\<forall>code \<in> {0x3A, 0x45, 0x46}. snd (kbd_decode (snd (kbd_decode s code)) code) = s"
    using lock_twice [OF _ assms(2)] by blast
  show "\<forall>d. shift_ok (snd (kbd_decode s d)) \<and> 0 \<le> fst (kbd_decode s d) \<and> fst (kbd_decode s d) < 256"
    using kbd_decode_ok [OF assms(1)] by blast
qed

lemma keyboard_modifiers_witness:
  "kbd_decode 0 0x2A = (0, 1) \<and> kbd_decode 1 0xAA = (0, 0)"
  using keyboard_modifiers [of 0] by (simp add: shift_ok_def modifier_defs)

text \<open>A key of the cursor and editing pad (sent after an E0 escape) gives its key code from
  the neutral shift state and, with Ctrl held, gives it too, except Home, which types nothing:
  \<^verbatim>\<open>ctlmap\<close> has its entry at \<open>0x97\<close> instead of \<open>0xC7\<close>. Either way the escape bit is cleared and
  the modifiers stay.\<close>

theorem ctrl_special_keys:
  assumes "(d, key) \<in> set special_keys" and "key \<ge> KEY_HOME"
  shows "kbd_decode 0x40 (of_nat d AND 0x7F) = (uint key, 0)
    \<and> kbd_decode 0x42 (of_nat d AND 0x7F) = (if d = 0xC7 then 0 else uint key, 0x02)"
proof -
  have special: "normalmap ! d = key" "ctlmap ! d = (if d = 0xC7 then 0 else key)"
    "shiftcode ! d = 0" "togglecode ! d = 0"
    using assms by (auto simp: special_keys_def normalmap_def ctlmap_def shiftcode_def togglecode_def
      table256_nth base_lengths key_defs)
  have code: "(of_nat d :: u8) AND 0x7F \<noteq> 0xE0" "(of_nat d AND 0x7F) AND 0x80 = (0::u8)"
    "unat ((of_nat d :: u8) AND 0x7F OR 0x80) = d" and key: "122 < uint key"
    using assms by (auto simp: special_keys_def key_defs)
  have cs: "charcode ! 0 = normalmap" "charcode ! 2 = ctlmap" by (simp_all add: charcode_def)
  show ?thesis
    using special code key
    by (simp add: kbd_decode_def Let_def modifier_defs cs)
qed

lemma ctrl_special_keys_witness: "kbd_decode 0x42 0x47 = (0, 0x02) \<and> kbd_decode 0x40 0x47 = (0xE0, 0)"
  using ctrl_special_keys [of "0xC7" KEY_HOME] by (simp add: special_keys_def key_defs)

end
