(* ===== verification/CPrintf.thy ===== *)
theory CPrintf
  imports Printf Console
begin

text \<open>
  The kernel's formatted console output, \<open>cprintf\<close> of \<^verbatim>\<open>kern/printf.c\<close>, and its line input,
  \<open>readline\<close> of \<^verbatim>\<open>lib/readline.c\<close>.

  \<^item> \<open>kio\<close> is what the kernel's input and output works on: kernel memory, with its strings
    and buffers, and the console.
  \<^item> A call with literal strings reads them from \<open>lits\<close>: the format is at \<open>LIT\<close>, the
    literal \<open>k\<close> among the arguments at \<open>ARG k\<close>. The addresses the compiler chooses do not
    matter, since literals are only read.
\<close>

record kio =
  kmem :: memory
  con :: console

definition ARG :: "nat \<Rightarrow> u32" where "ARG k = of_nat (8192 + 4096 * k)"

definition lits :: "string list \<Rightarrow> memory \<Rightarrow> memory" where
  "lits ss m a =
     (let k = unat a div 4096; j = unat a mod 4096 in
      if 2 \<le> k \<and> k < 2 + length ss
      then (if j < length (ss ! (k - 2)) then chr (ss ! (k - 2) ! j) else 0) else m a)"

definition arg_list :: "u32 list \<Rightarrow> nat \<Rightarrow> u32" where
  "arg_list as i = (if i < length as then as ! i else 0)"

section \<open>kern/printf.c\<close>

text \<open>
  \<^verbatim>\<open>*cnt++\<close> reads the counter and advances \<^verbatim>\<open>putch\<close>'s own copy of the pointer, which is
  dropped at the end of the call: the state is the counter and the console.
\<close>

definition putch :: "device \<Rightarrow> int \<Rightarrow> u32 \<times> console \<Rightarrow> u32 \<times> console" where
  "putch dev ch = (\<lambda>(cnt, c). (cnt, cputchar dev (of_int ch) c))"

text \<open>\<open>fm\<close> is the memory the format is in, the arguments point into \<open>m\<close>.\<close>

definition vcprintf ::
    "device \<Rightarrow> memory \<Rightarrow> memory \<Rightarrow> u32 \<Rightarrow> (nat \<Rightarrow> u32) \<Rightarrow> console \<Rightarrow> (int \<times> console) option" where
  "vcprintf dev fm m fmt ap c =
     Option.bind (vprintfmt_loop (putch dev) m fm None fmt ap 0 (0, c)) (\<lambda>(cnt, c). Some (sint cnt, c))"

definition cprintf ::
    "device \<Rightarrow> string \<Rightarrow> string list \<Rightarrow> u32 list \<Rightarrow> kio \<Rightarrow> (int \<times> kio) option" where
  "cprintf dev fmt ss as s =
     Option.bind (vcprintf dev (lit_mem fmt) (lits ss (kmem s)) LIT (arg_list as) (con s))
       (\<lambda>(cnt, c). Some (cnt, s\<lparr>con := c\<rparr>))"

text \<open>A call whose result is not used.\<close>

definition print :: "device \<Rightarrow> string \<Rightarrow> string list \<Rightarrow> u32 list \<Rightarrow> kio \<Rightarrow> kio option" where
  "print dev fmt ss as s = map_option snd (cprintf dev fmt ss as s)"

section \<open>readline\<close>

definition BUFLEN :: int where "BUFLEN = 1024"

text \<open>
  \<open>buf\<close> is the address of the static buffer. The loop returns the pointer \<^verbatim>\<open>readline\<close>
  returns; it runs forever while no line end arrives.
\<close>

partial_function (option) readline_loop ::
    "device \<Rightarrow> u32 \<Rightarrow> bool \<Rightarrow> int \<Rightarrow> kio \<Rightarrow> (u32 \<times> kio) option" where
  "readline_loop dev buf echoing i s =
     Option.bind (getchar dev (con s)) (\<lambda>(c, cn). let s = s\<lparr>con := cn\<rparr> in
     if c < 0 then
       Option.bind (print dev (''read error: %e'' @ [CHR 0x0A]) [] [of_int c] s) (\<lambda>s. Some (0, s))
     else if (c = 0x08 \<or> c = 0x7F) \<and> i > 0 then
       readline_loop dev buf echoing (i - 1)
         (if echoing then s\<lparr>con := cputchar dev 0x08 (con s)\<rparr> else s)
     else if c \<ge> chi CHR '' '' \<and> i < BUFLEN - 1 then
       (let s = (if echoing then s\<lparr>con := cputchar dev (of_int c) (con s)\<rparr> else s)
        in readline_loop dev buf echoing (i + 1) (s\<lparr>kmem := (kmem s)(buf + of_int i := of_int c)\<rparr>))
     else if c = 0x0A \<or> c = 0x0D then
       (let s = (if echoing then s\<lparr>con := cputchar dev 0x0A (con s)\<rparr> else s)
        in Some (buf, s\<lparr>kmem := (kmem s)(buf + of_int i := 0)\<rparr>))
     else readline_loop dev buf echoing i s)"

text \<open>\<open>prompt\<close> is \<open>None\<close> for the null pointer.\<close>

definition readline :: "device \<Rightarrow> u32 \<Rightarrow> string option \<Rightarrow> kio \<Rightarrow> (u32 \<times> kio) option" where
  "readline dev buf prompt s =
     Option.bind (case prompt of None \<Rightarrow> Some s | Some p \<Rightarrow> print dev ''%s'' [p] [ARG 0] s) (\<lambda>s.
     readline_loop dev buf (iscons 0 \<noteq> 0) 0 s)"

section \<open>What cprintf prints\<close>

text \<open>The characters of a call, independently of where they go, as \<open>printed\<close> with its own
  memory for the format.\<close>

definition sent :: "memory \<Rightarrow> memory \<Rightarrow> u32 \<Rightarrow> (nat \<Rightarrow> u32) \<Rightarrow> int list option" where
  "sent fm m fmt ap = vprintfmt_loop (\<lambda>c cs. cs @ [c]) m fm None fmt ap 0 []"

lemma loop_sent:
  "vprintfmt_loop p m fm None fmt ap 0 s = map_option (\<lambda>cs. fold p cs s) (sent fm m fmt ap)"
proof (cases "sent fm m fmt ap")
  case (Some cs)
  have "\<exists>t'. vprintfmt_loop p m fm None fmt ap 0 s = Some t' \<and> t' = fold p cs s"
    using vprintfmt_loop_sim [OF Some [unfolded sent_def], of "\<lambda>cs t. t = fold p cs s" p] by simp
  then show ?thesis using Some by simp
next
  case None
  have "vprintfmt_loop p m fm None fmt ap 0 s \<noteq> Some s'" for s'
  proof
    assume "vprintfmt_loop p m fm None fmt ap 0 s = Some s'"
    from vprintfmt_loop_sim [OF this, of "\<lambda>_ _. True" "\<lambda>c cs. cs @ [c]"]
    show False using None by (auto simp: sent_def dest: spec [of _ "[]"])
  qed
  then show ?thesis using None by (cases "vprintfmt_loop p m fm None fmt ap 0 s") auto
qed

text \<open>A literal without conversions prints itself.\<close>

lemma sent_plain:
  assumes "length str < 2 ^ 31" and "\<forall>c \<in> set str. chr c \<noteq> 0 \<and> chr c \<noteq> chr CHR ''%''"
  shows "sent (lit_mem str) m LIT ap = Some (map chi str)"
proof -
  let ?its = "map Plain (map chr str)"
  have "bytes_at (lit_mem str) LIT (map chr str @ [0])"
    using lit_mem_bytes [OF assms(1)] by (simp add: bytes_at_append)
  moreover have "concat (map item_bytes ?its) = map chr str" by (induction str) simp_all
  ultimately have bytes: "bytes_at (lit_mem str) LIT (concat (map item_bytes ?its) @ [0])" by simp
  have "format_prints m ?its ap n (map chi str)" for n
    using assms(2)
  proof (induction str)
    case (Cons c cs)
    then have "item_prints m (Plain (chr c)) (ap n) [chi c]" by (simp add: uint_chr)
    then show ?case using Cons by (auto intro!: exI [of _ "[chi c]"])
  qed simp
  from loop_items [OF bytes this [of 0], of "\<lambda>c cs. cs @ [c]" "[]"]
  have "sent (lit_mem str) m LIT ap = Some (fold (\<lambda>c cs. cs @ [c]) (map chi str) [])" by (simp add: sent_def)
  moreover have "fold (\<lambda>c cs. cs @ [c]) xs ys = ys @ xs" for xs ys :: "int list"
    by (induction xs arbitrary: ys) simp_all
  ultimately show ?thesis by simp
qed

definition put_all :: "device \<Rightarrow> int list \<Rightarrow> console \<Rightarrow> console" where
  "put_all dev cs c = fold (\<lambda>ch. cputchar dev (of_int ch)) cs c"

lemma put_all_append: "put_all dev (xs @ ys) c = put_all dev ys (put_all dev xs c)"
  by (simp add: put_all_def)

lemma fold_putch: "fold (putch dev) cs (n, c) = (n, put_all dev cs c)"
  by (induction cs arbitrary: c) (simp_all add: putch_def put_all_def)

lemma lits_none: "lits [] m = m"
proof (rule ext)
  fix a
  have "\<not> (2 \<le> k \<and> k < 2 + length ([] :: string list))" for k by auto
  then show "lits [] m a = m a" unfolding lits_def Let_def by (simp only: if_False)
qed

text \<open>\<^verbatim>\<open>%.*s\<close> prints at most as many characters as its first argument says.\<close>

lemma sent_prec_str:
  assumes "p \<noteq> 0" and "unat len < 2 ^ 31"
  shows "sent (lit_mem ''%.*s'') m LIT (arg_list [len, p])
    = Some (map sint (takeWhile (\<lambda>b. b \<noteq> 0) (mem_bytes m p (unat len))))"
proof -
  define fm where "fm = lit_mem ''%.*s''"
  let ?ap = "arg_list [len, p]" and ?put = "\<lambda>c cs. cs @ [c :: int]"
  let ?f = "pf_init\<lparr>pf_width := 0, pf_precision := int (unat len)\<rparr>"
  have fmt: "fm LIT = chr CHR ''%''" "fm (LIT + 1) = chr CHR ''.''" "fm (LIT + 2) = chr CHR ''*''"
    "fm (LIT + 3) = chr CHR ''s''" "fm (LIT + 4) = 0"
    by (simp_all add: fm_def lit_mem_def LIT_def)
  have len: "sint len = int (unat len)" using assms(2) by (simp add: sint_u32)
  have "vprintfmt_loop ?put m fm None LIT ?ap 0 [] = vprintfmt_loop ?put m fm (Some pf_init) (LIT + 1) ?ap 0 []"
    by (rule loop_conv) (rule fmt)
  also have "\<dots> = vprintfmt_loop ?put m fm (Some (pf_init\<lparr>pf_width := 0\<rparr>)) (LIT + 2) ?ap 0 []"
    by (rule loop_Go) (simp add: fmt_step_def conv_step_def fmt pf_init_def)
  also have "\<dots> = vprintfmt_loop ?put m fm (Some ?f) (LIT + 3) ?ap 1 []"
    by (rule loop_Go) (simp add: fmt_step_def conv_step_def fmt pf_init_def process_precision_def arg_list_def len)
  also have "\<dots> = vprintfmt_loop ?put m fm None (LIT + 4) ?ap 2
      (fold ?put (map sint (takeWhile (\<lambda>b. b \<noteq> 0) (mem_bytes m p (unat len)))) [])"
    by (rule loop_Go) (simp add: fmt_step_def conv_step_def fmt pf_init_def arg_list_def Let_def print_string_def
        put_string_prec assms(1) del: of_nat_unat)
  also have "\<dots> = Some (fold ?put (map sint (takeWhile (\<lambda>b. b \<noteq> 0) (mem_bytes m p (unat len)))) [])"
    by (rule loop_Return) (simp add: fmt_step_def text_step_def fmt)
  also have "fold ?put xs ys = ys @ xs" for xs ys :: "int list"
    by (induction xs arbitrary: ys) simp_all
  finally show ?thesis by (simp add: sent_def fm_def)
qed

lemma print_prec_str:
  assumes "p \<noteq> 0" and "unat len < 2 ^ 31"
  shows "print dev ''%.*s'' [] [len, p] s
    = Some (s\<lparr>con := put_all dev (map sint (takeWhile (\<lambda>b. b \<noteq> 0) (mem_bytes (kmem s) p (unat len)))) (con s)\<rparr>)"
  by (simp add: lits_none print_def cprintf_def vcprintf_def loop_sent sent_prec_str [OF assms] fold_putch)

lemma vcprintf_sent:
  "vcprintf dev fm m fmt ap c = map_option (\<lambda>cs. (0, put_all dev cs c)) (sent fm m fmt ap)"
  by (cases "sent fm m fmt ap") (simp_all add: vcprintf_def loop_sent fold_putch)

lemma cprintf_sent:
  "cprintf dev fmt ss as s = map_option (\<lambda>cs. (0, s\<lparr>con := put_all dev cs (con s)\<rparr>))
     (sent (lit_mem fmt) (lits ss (kmem s)) LIT (arg_list as))"
  by (cases "sent (lit_mem fmt) (lits ss (kmem s)) LIT (arg_list as)")
    (simp_all add: cprintf_def vcprintf_sent)

lemma print_sent:
  "print dev fmt ss as s = map_option (\<lambda>cs. s\<lparr>con := put_all dev cs (con s)\<rparr>)
     (sent (lit_mem fmt) (lits ss (kmem s)) LIT (arg_list as))"
  by (simp add: print_def cprintf_sent option.map_comp comp_def)

text \<open>Printing touches the console only, and keeps what its own lemmas say it keeps.\<close>

lemma put_all_ok: "crt_pos c < CRT_SIZE \<Longrightarrow> printed_ok c (put_all dev cs c)"
proof (induction cs arbitrary: c)
  case Nil
  then show ?case by (simp add: put_all_def printed_ok_def)
next
  case (Cons x xs)
  let ?c = "cputchar dev (of_int x) c"
  have ok: "printed_ok c ?c" using putc_ok(2) [OF Cons.prems] by (simp add: cputchar_def)
  then have "crt_pos ?c < CRT_SIZE" by (simp add: printed_ok_def)
  from printed_ok_trans [OF ok Cons.IH [OF this]] show ?case by (simp add: put_all_def)
qed

lemma put_all_ring: "ring_same c (put_all dev cs c)"
proof (induction cs arbitrary: c)
  case Nil
  then show ?case by (simp add: put_all_def ring_same_def)
next
  case (Cons x xs)
  have "ring_same c (cputchar dev (of_int x) c)" by (simp add: cputchar_def putc_ring_same)
  moreover have "put_all dev (x # xs) c = put_all dev xs (cputchar dev (of_int x) c)"
    by (simp add: put_all_def)
  ultimately show ?case using Cons.IH [of "cputchar dev (of_int x) c"] by (simp add: ring_same_def)
qed

text \<open>
  A format whose strings are terminated always prints: \<open>good_items m ap n its\<close> says so of the
  items from argument \<open>n\<close> on.
\<close>

fun good_item :: "memory \<Rightarrow> u32 \<Rightarrow> item \<Rightarrow> bool" where
  "good_item m a (Plain c) \<longleftrightarrow> c \<noteq> 0 \<and> c \<noteq> chr CHR ''%''"
| "good_item m a Str \<longleftrightarrow> a = 0 \<or> (\<exists>xs. cstr m a xs)"
| "good_item m a _ \<longleftrightarrow> True"

fun good_items :: "memory \<Rightarrow> (nat \<Rightarrow> u32) \<Rightarrow> nat \<Rightarrow> item list \<Rightarrow> bool" where
  "good_items m ap n [] \<longleftrightarrow> True"
| "good_items m ap n (it # its) \<longleftrightarrow> good_item m (ap n) it \<and> good_items m ap (n + item_args it) its"

definition plain :: "string \<Rightarrow> item list" where "plain cs = map (\<lambda>c. Plain (chr c)) cs"

abbreviation plain_text :: "string \<Rightarrow> bool" where
  "plain_text cs \<equiv> list_all (\<lambda>c. chr c \<noteq> 0 \<and> chr c \<noteq> chr CHR ''%'') cs"

lemma plain_bytes [simp]: "concat (map item_bytes (plain cs)) = map chr cs"
  by (induction cs) (simp_all add: plain_def)

lemma good_plain: "plain_text cs \<Longrightarrow> good_items m ap n (plain cs @ its) = good_items m ap n its"
  by (induction cs) (simp_all add: plain_def)

lemma good_items_print: "good_items m ap n its \<Longrightarrow> \<exists>cs. format_prints m its ap n cs"
proof (induction its arbitrary: n)
  case (Cons it its)
  have "\<exists>c1. item_prints m it (ap n) c1" using Cons.prems by (cases it) auto
  moreover have "\<exists>c2. format_prints m its ap (n + item_args it) c2" using Cons by simp
  ultimately show ?case by auto
next
  case Nil
  have "format_prints m [] ap n []" by simp
  then show ?case by blast
qed

lemma print_returns:
  assumes "map chr fmt = concat (map item_bytes its)" and "length fmt < 2 ^ 31"
    and "good_items (lits ss (kmem s)) (arg_list as) 0 its"
  shows "\<exists>cs. print dev fmt ss as s = Some (s\<lparr>con := put_all dev cs (con s)\<rparr>)"
proof -
  have "bytes_at (lit_mem fmt) LIT (concat (map item_bytes its) @ [0])"
    using lit_mem_bytes [OF assms(2)] unfolding assms(1) [symmetric] by (simp add: bytes_at_append)
  moreover obtain cs where "format_prints (lits ss (kmem s)) its (arg_list as) 0 cs"
    using good_items_print [OF assms(3)] by blast
  ultimately have "sent (lit_mem fmt) (lits ss (kmem s)) LIT (arg_list as) = Some (fold (\<lambda>c cs. cs @ [c]) cs [])"
    unfolding sent_def by (rule loop_items)
  then show ?thesis by (intro exI [of _ "fold (\<lambda>c cs. cs @ [c]) cs []"]) (simp add: print_sent)
qed

text \<open>Plain text, and one number between plain texts.\<close>

lemma print_text:
  assumes "plain_text fmt" and "length fmt < 2 ^ 31"
  shows "\<exists>cs. print dev fmt ss as s = Some (s\<lparr>con := put_all dev cs (con s)\<rparr>)"
  using assms good_plain [of fmt _ _ 0 "[]"] by (intro print_returns [of _ "plain fmt"]) simp_all

lemma print_number:
  assumes "map chr fmt = map chr pre @ item_bytes (Num z w k) @ map chr post" and "length fmt < 2 ^ 31"
    and "plain_text pre" and "plain_text post"
  shows "\<exists>cs. print dev fmt ss as s = Some (s\<lparr>con := put_all dev cs (con s)\<rparr>)"
  using assms good_plain [of post _ _ _ "[]"]
  by (intro print_returns [of _ "plain pre @ Num z w k # plain post"]) (simp_all add: good_plain)

text \<open>A literal argument is a terminated string.\<close>

lemma lits_nth:
  assumes "k < length ss" and "length ss < 1000" and "0 \<notin> set (map chr (ss ! k))" and "length (ss ! k) < 4096"
  shows "cstr (lits ss m) (ARG k) (map chr (ss ! k))"
proof -
  have at: "lits ss m (ARG k + of_nat i) = (if i < length (ss ! k) then chr (ss ! k ! i) else 0)"
    if "i < 4096" for i
  proof -
    have u: "ARG k + of_nat i = of_nat ((k + 2) * 4096 + i)" by (simp add: ARG_def algebra_simps)
    have "unat (ARG k + of_nat i) = (k + 2) * 4096 + i"
      unfolding u using that assms(1,2) by (intro unat_of_nat_small) simp
    moreover have "((k + 2) * 4096 + i) div 4096 = k + 2" using that by simp
    moreover have "((k + 2) * 4096 + i) mod 4096 = i" using that mod_mult_self3 [of "k + 2" 4096 i] by (simp only: mod_less)
    ultimately show ?thesis using assms(1) by (simp add: lits_def Let_def)
  qed
  then show ?thesis
    using assms at [of 0] by (auto simp: cstr_bytes bytes_at_nth)
qed

section \<open>Line editing\<close>

text \<open>One key on the line typed so far, and what is echoed for it.\<close>

definition edit :: "u8 list \<Rightarrow> int \<Rightarrow> u8 list" where
  "edit l k = (if (k = 0x08 \<or> k = 0x7F) \<and> l \<noteq> [] then butlast l
     else if 32 \<le> k \<and> length l < 1023 then l @ [of_int k] else l)"

definition echoed :: "device \<Rightarrow> u8 list \<Rightarrow> int \<Rightarrow> console \<Rightarrow> console" where
  "echoed dev l k c = (if (k = 0x08 \<or> k = 0x7F) \<and> l \<noteq> [] then cputchar dev 0x08 c
     else if 32 \<le> k \<and> length l < 1023 then cputchar dev (of_int k) c else c)"

text \<open>The keys \<open>getchar\<close> returns, with the echo of each before the next one.\<close>

inductive session :: "device \<Rightarrow> u8 list \<Rightarrow> console \<Rightarrow> int list \<Rightarrow> console \<Rightarrow> bool" for dev where
  idle: "session dev l c [] c"
| key: "getchar dev c = Some (k, c1) \<Longrightarrow> session dev (edit l k) (echoed dev l k c1) ks c2
    \<Longrightarrow> session dev l c (k # ks) c2"

lemma cons_take_range: "cons_take c = (ch, c') \<Longrightarrow> 0 \<le> ch \<and> ch < 256"
  using uint_bounded [where 'a = 8] by (auto simp: cons_take_def Let_def split: if_splits)

lemma getchar_range: "getchar dev c = Some (ch, c') \<Longrightarrow> 0 < ch \<and> ch < 256"
proof -
  assume "getchar dev c = Some (ch, c')"
  then have "0 < fst (ch, c') \<and> fst (ch, c') < 256"
  proof (induction rule: getchar.raw_induct [rotated 1, consumes 1, case_names step])
    case (step g dev c r)
    obtain ch1 c1 where g: "cons_getc dev c = Some (ch1, c1)"
      "(if ch1 = 0 then g dev c1 else Some (ch1, c1)) = Some r"
      using step(2) by (auto simp: Option.bind_eq_Some_conv)
    show ?case
    proof (cases "ch1 = 0")
      case True
      then show ?thesis using step(1) g(2) by simp
    next
      case False
      have "0 \<le> ch1 \<and> ch1 < 256"
        using g(1) cons_take_range by (auto simp: cons_getc_def Option.bind_eq_Some_conv)
      then show ?thesis using False g(2) by auto
    qed
  qed
  then show ?thesis by simp
qed

lemma edit_length: "length l \<le> 1023 \<Longrightarrow> length (edit l k) \<le> 1023"
  by (auto simp: edit_def)

lemma foldl_edit_length: "length l \<le> 1023 \<Longrightarrow> length (foldl edit l ks) \<le> 1023"
  by (induction ks arbitrary: l) (auto simp: edit_length)

text \<open>One key other than a line end is one turn of the loop.\<close>

definition line_at :: "u32 \<Rightarrow> memory \<Rightarrow> u8 list \<Rightarrow> memory \<Rightarrow> bool" where
  "line_at buf m0 l m \<longleftrightarrow> length l \<le> 1023 \<and> bytes_at m buf l
     \<and> (\<forall>a. \<not> in_range buf 1024 a \<longrightarrow> m a = m0 a)"

lemma bytes_at_butlast: "bytes_at m a l \<Longrightarrow> bytes_at m a (butlast l)"
  by (simp add: bytes_at_nth nth_butlast)

lemma bytes_at_snoc:
  assumes "bytes_at m a l" and "length l < 2 ^ 32"
  shows "bytes_at (m(a + of_nat (length l) := x)) a (l @ [x])"
proof -
  have "(of_nat i :: u32) \<noteq> of_nat (length l)" if i: "i < length l" for i
  proof
    assume "(of_nat i :: u32) = of_nat (length l)"
    from arg_cong [OF this, of unat] show False
      using i assms(2) by (simp add: unat_of_nat_small)
  qed
  then show ?thesis using assms(1) by (auto simp: bytes_at_nth nth_append less_Suc_eq)
qed

lemma in_buffer: "i < 1024 \<Longrightarrow> in_range buf 1024 (buf + of_nat i)"
  by (subst in_range_offset) auto

lemma line_at_store:
  assumes "line_at buf m0 l m" and "length l < 1024"
  shows "bytes_at (m(buf + of_nat (length l) := x)) buf (l @ [x])"
    and "\<forall>a. \<not> in_range buf 1024 a \<longrightarrow> (m(buf + of_nat (length l) := x)) a = m0 a"
  using assms bytes_at_snoc [of m buf l x] in_buffer [of "length l" buf] by (auto simp: line_at_def)

lemma readline_key:
  assumes "getchar dev (con s) = Some (k, c1)" and "k \<notin> {0x0A, 0x0D}"
    and "line_at buf m0 l (kmem s)"
  shows "\<exists>s'. readline_loop dev buf True (int (length l)) s
      = readline_loop dev buf True (int (length (edit l k))) s'
    \<and> con s' = echoed dev l k c1 \<and> line_at buf m0 (edit l k) (kmem s')"
proof -
  have pos: "\<not> k < 0" using getchar_range [OF assms(1)] by simp
  let ?s = "s\<lparr>con := c1\<rparr>"
  consider (erase) "(k = 0x08 \<or> k = 0x7F) \<and> l \<noteq> []"
    | (type) "\<not> ((k = 0x08 \<or> k = 0x7F) \<and> l \<noteq> [])" "32 \<le> k" "length l < 1023"
    | (other) "\<not> ((k = 0x08 \<or> k = 0x7F) \<and> l \<noteq> [])" "\<not> (32 \<le> k \<and> length l < 1023)" by blast
  then show ?thesis
  proof cases
    case erase
    then have "int (length (edit l k)) = int (length l) - 1" by (cases l) (simp_all add: edit_def)
    then have "readline_loop dev buf True (int (length l)) s
        = readline_loop dev buf True (int (length (edit l k))) (?s\<lparr>con := cputchar dev 0x08 c1\<rparr>)"
      using assms(1) erase pos by (subst readline_loop.simps) (simp add: Let_def)
    moreover have "line_at buf m0 (edit l k) (kmem s)"
      using assms(3) erase bytes_at_butlast by (auto simp: line_at_def edit_def)
    ultimately show ?thesis using erase by (intro exI conjI) (assumption, simp_all add: echoed_def)
  next
    case type
    let ?m = "(kmem s)(buf + of_nat (length l) := of_int k)"
    have l: "edit l k = l @ [of_int k]" using type by (auto simp: edit_def)
    have "readline_loop dev buf True (int (length l)) s
        = readline_loop dev buf True (int (length (edit l k)))
            (?s\<lparr>con := cputchar dev (of_int k) c1, kmem := ?m\<rparr>)"
      using assms(1) type pos unfolding l
      by (subst readline_loop.simps) (auto simp: Let_def BUFLEN_def add.commute)
    moreover have "line_at buf m0 (edit l k) ?m"
      using line_at_store [OF assms(3), of "of_int k"] type(3) unfolding l by (simp add: line_at_def)
    ultimately show ?thesis using type by (intro exI conjI) (assumption, auto simp: echoed_def)
  next
    case other
    have l: "edit l k = l" using other by (auto simp: edit_def)
    have "readline_loop dev buf True (int (length l)) s = readline_loop dev buf True (int (length (edit l k))) ?s"
      using assms(1,2) other pos unfolding l
      by (subst readline_loop.simps) (auto simp: Let_def BUFLEN_def)
    moreover have "line_at buf m0 (edit l k) (kmem ?s)" using assms(3) unfolding l by simp
    moreover have "con ?s = echoed dev l k c1" using other by (auto simp: echoed_def)
    ultimately show ?thesis by blast
  qed
qed

lemma readline_session:
  assumes "session dev l c ks c1" and "\<forall>k \<in> set ks. k \<notin> {0x0A, 0x0D}"
    and "getchar dev c1 = Some (nl, c2)" and "nl \<in> {0x0A, 0x0D}"
    and "con s = c" and "line_at buf m0 l (kmem s)"
  shows "\<exists>s'. readline_loop dev buf True (int (length l)) s = Some (buf, s')
    \<and> con s' = cputchar dev 0x0A c2 \<and> bytes_at (kmem s') buf (foldl edit l ks @ [0])
    \<and> (\<forall>a. \<not> in_range buf 1024 a \<longrightarrow> kmem s' a = m0 a)"
  using assms
proof (induction arbitrary: s rule: session.induct)
  case (idle l c)
  have nl: "\<not> nl < 0" "\<not> (nl = 8 \<or> nl = 127)" "\<not> 32 \<le> nl" using idle.prems(3) by auto
  let ?m = "(kmem s)(buf + of_nat (length l) := 0)"
  have "readline_loop dev buf True (int (length l)) s = Some (buf, s\<lparr>con := cputchar dev 0x0A c2, kmem := ?m\<rparr>)"
    using idle.prems nl by (subst readline_loop.simps) (auto simp: Let_def)
  moreover have "length l < 1024" using idle.prems(5) by (simp add: line_at_def)
  ultimately show ?case using line_at_store [OF idle.prems(5), of 0] by simp
next
  case (key c k c1 l ks c2' s)
  have "k \<notin> {0x0A, 0x0D}" "getchar dev (con s) = Some (k, c1)"
    using key.prems(1,4) key.hyps(1) by simp_all
  from readline_key [OF this(2,1) key.prems(5)] obtain s1 where
    s1: "readline_loop dev buf True (int (length l)) s = readline_loop dev buf True (int (length (edit l k))) s1"
    "con s1 = echoed dev l k c1" "line_at buf m0 (edit l k) (kmem s1)" by blast
  have "\<forall>k \<in> set ks. k \<notin> {0x0A, 0x0D}" using key.prems(1) by simp
  from key.IH [OF this key.prems(2,3) s1(2,3)] show ?case by (simp add: s1(1))
qed

text \<open>A device with nothing to deliver: \<open>getchar\<close> takes what waits in the buffer.\<close>

definition quiet :: "device \<Rightarrow> bool" where
  "quiet dev \<longleftrightarrow> (\<forall>n. dev (COM1 + COM_LSR) n AND COM_LSR_DATA = 0 \<and> dev 0x64 n AND 0x01 = 0)"

lemma quiet_intr:
  assumes "quiet dev"
  shows "\<exists>c'. serial_intr dev c = Some c' \<and> ring_same c c'" "\<exists>c'. kbd_intr dev c = Some c' \<and> ring_same c c'"
proof -
  have "cons_intr (serial_proc_data dev) c = Some (snd (inb dev (COM1 + COM_LSR) c))"
    using assms by (subst cons_intr.simps) (simp add: serial_proc_data_def inb_def quiet_def)
  then show "\<exists>c'. serial_intr dev c = Some c' \<and> ring_same c c'"
    by (simp add: serial_intr_def ring_same_def)
  have "cons_intr (kbd_proc_data dev) c = Some (snd (inb dev 0x64 c))"
    using assms by (subst cons_intr.simps) (simp add: kbd_proc_data_def inb_def quiet_def)
  then show "\<exists>c'. kbd_intr dev c = Some c' \<and> ring_same c c'"
    by (simp add: kbd_intr_def ring_same_def)
qed

lemma ring_same_contents: "ring_same c c' \<Longrightarrow> contents c' = contents c \<and> ring_ok c' = ring_ok c"
  by (simp add: ring_same_def contents_def waiting_def ring_ok_def)

lemma getchar_quiet:
  assumes "quiet dev" and "ring_ok c" and "contents c = x # xs" and "x \<noteq> 0"
  shows "\<exists>c'. getchar dev c = Some (uint x, c') \<and> ring_ok c' \<and> contents c' = xs"
proof -
  obtain c1 where c1: "serial_intr dev c = Some c1" "ring_same c c1"
    using quiet_intr(1) [OF assms(1)] by blast
  obtain c2 where c2: "kbd_intr dev c1 = Some c2" "ring_same c1 c2"
    using quiet_intr(2) [OF assms(1)] by blast
  have ok: "ring_ok c2" "contents c2 = x # xs"
    using ring_same_contents [OF c1(2)] ring_same_contents [OF c2(2)] assms(2,3) by simp_all
  have "cons_getc dev c = Some (uint x, snd (cons_take c2))"
    unfolding cons_getc_def c1(1) bind.simps c2(1)
    by (subst cons_take_spec(1) [OF ok(1)]) (simp add: ok(2))
  moreover have "uint x \<noteq> 0" using assms(4) by (simp add: uint_0_iff)
  ultimately have "getchar dev c = Some (uint x, snd (cons_take c2))" by (subst getchar.simps) simp
  then show ?thesis using cons_take_spec(2) [OF ok] by blast
qed

lemma echoed_ring: "ring_same c (echoed dev l k c)"
  by (simp add: echoed_def cputchar_def putc_ring_same) (simp add: ring_same_def)

lemma session_quiet:
  assumes "quiet dev" and "ring_ok c" and "contents c = ks @ rest" and "0 \<notin> set ks"
  shows "\<exists>c'. session dev l c (map uint ks) c' \<and> ring_ok c' \<and> contents c' = rest"
  using assms(2-)
proof (induction ks arbitrary: c l)
  case Nil
  then show ?case using session.idle by fastforce
next
  case (Cons k ks)
  have "contents c = k # (ks @ rest)" "k \<noteq> 0" using Cons.prems by auto
  from getchar_quiet [OF assms(1) Cons.prems(1) this] obtain c1 where
    c1: "getchar dev c = Some (uint k, c1)" "ring_ok c1" "contents c1 = ks @ rest" by blast
  let ?c = "echoed dev l (uint k) c1"
  have ok: "ring_ok ?c" "contents ?c = ks @ rest"
    using ring_same_contents [OF echoed_ring [of c1 dev l "uint k"]] c1(2,3) by simp_all
  have "0 \<notin> set ks" using Cons.prems(3) by simp
  from Cons.IH [OF ok this] obtain c' where
    "session dev (edit l (uint k)) ?c (map uint ks) c'" "ring_ok c'" "contents c' = rest" by blast
  then show ?case using session.key [OF c1(1)] by fastforce
qed

section \<open>Contracts\<close>

text \<open>C22: \<open>cprintf\<close> prints exactly the characters of its format, in order, keeping the cursor
  inside the display and the input buffer and kernel memory as they were, but it always
  returns 0 where the number of characters is meant: its \<open>putch\<close> advances a pointer
  instead of the counter.\<close>

theorem cprintf_prints_returns_0:
  assumes "crt_pos (con s) < CRT_SIZE" and "cprintf dev fmt ss as s = Some (r, s')"
  shows "r = 0 \<and> kmem s' = kmem s \<and> crt_pos (con s') < CRT_SIZE \<and> contents (con s') = contents (con s)
    \<and> (\<exists>cs. sent (lit_mem fmt) (lits ss (kmem s)) LIT (arg_list as) = Some cs
          \<and> con s' = fold (\<lambda>ch. cputchar dev (of_int ch)) cs (con s))"
proof -
  obtain cs where cs: "sent (lit_mem fmt) (lits ss (kmem s)) LIT (arg_list as) = Some cs"
    "r = 0" "s' = s\<lparr>con := put_all dev cs (con s)\<rparr>"
    using assms(2) by (auto simp: cprintf_sent)
  show ?thesis
    using cs put_all_ok [OF assms(1), of dev cs] ring_same_contents [OF put_all_ring, of dev cs "con s"]
    by (auto simp: printed_ok_def put_all_def)
qed

definition blank_kio :: kio where "blank_kio = \<lparr>kmem = (\<lambda>_. 0), con = blank_console\<rparr>"

lemma cprintf_prints_returns_0_witness:
  "\<exists>s'. cprintf (\<lambda>_ _. 0xA0) ''ok'' [] [] blank_kio = Some (0, s')
    \<and> con s' = fold (\<lambda>ch. cputchar (\<lambda>_ _. 0xA0) (of_int ch)) [111, 107] blank_console
    \<and> crt_pos (con s') < CRT_SIZE"
proof -
  have "bytes_at (lit_mem ''ok'') LIT (concat (map item_bytes [Plain 111, Plain 107]) @ [0])"
    by (simp add: lit_mem_def LIT_def)
  from loop_items [OF this, of "lits [] (kmem blank_kio)" "\<lambda>_. 0" 0 "[111, 107]" "\<lambda>c cs. cs @ [c]" "[]"]
  have sent: "sent (lit_mem ''ok'') (lits [] (kmem blank_kio)) LIT (arg_list []) = Some [111, 107]"
    by (simp add: sent_def arg_list_def [abs_def])
  have pos: "crt_pos (con blank_kio) < CRT_SIZE" by (simp add: blank_kio_def blank_console_def crt_defs)
  obtain s' where s': "cprintf (\<lambda>_ _. 0xA0) ''ok'' [] [] blank_kio = Some (0, s')"
    by (simp add: cprintf_sent sent)
  from cprintf_prints_returns_0 [OF pos s'] s' sent show ?thesis
    by (auto simp: blank_kio_def)
qed

text \<open>C23: A line the user types returns from \<open>readline\<close> as a terminated string in its buffer:
  backspace and delete remove the last character, other characters from the blank on are
  appended while there is room (1023 of them), the rest is ignored, and the first line end
  finishes it. Nothing outside the 1024 bytes of the buffer is written. A delete on an
  empty line is itself appended, since the code tests it as an erase key only when there is
  something to erase.\<close>

theorem readline_edits:
  assumes "(case prompt of None \<Rightarrow> Some s | Some p \<Rightarrow> print dev ''%s'' [p] [ARG 0] s) = Some s0"
    and "session dev [] (con s0) ks c1" and "\<forall>k \<in> set ks. k \<noteq> 0x0A \<and> k \<noteq> 0x0D"
    and "getchar dev c1 = Some (nl, c2)" and "nl = 0x0A \<or> nl = 0x0D"
  shows "\<exists>s'. readline dev buf prompt s = Some (buf, s') \<and> con s' = cputchar dev 0x0A c2
    \<and> bytes_at (kmem s') buf (foldl edit [] ks @ [0]) \<and> length (foldl edit [] ks) \<le> 1023
    \<and> (\<forall>a. \<not> in_range buf 1024 a \<longrightarrow> kmem s' a = kmem s a)
    \<and> edit [] 0x7F = [0x7F]"
proof -
  have mem: "kmem s0 = kmem s" using assms(1) by (auto simp: print_sent split: option.splits)
  have "line_at buf (kmem s) [] (kmem s0)" by (simp add: line_at_def mem)
  from readline_session [OF assms(2) _ assms(4) _ refl this] assms(3,5)
  obtain s' where "readline_loop dev buf True 0 s0 = Some (buf, s')" "con s' = cputchar dev 0x0A c2"
    "bytes_at (kmem s') buf (foldl edit [] ks @ [0])" "\<forall>a. \<not> in_range buf 1024 a \<longrightarrow> kmem s' a = kmem s a"
    by auto
  moreover have "readline dev buf prompt s = readline_loop dev buf True 0 s0"
    by (simp add: readline_def assms(1) iscons_def)
  ultimately show ?thesis using foldl_edit_length [of "[]" ks] by (auto simp: edit_def)
qed

lemma readline_edits_witness:
  "\<exists>s'. readline (\<lambda>_ _. 0xA0) 5000 None (blank_kio\<lparr>con := blank_console\<lparr>
        cons_buf := [104, 105, 8, 111, 13] @ replicate 507 0, cons_wpos := 5\<rparr>\<rparr>) = Some (5000, s')
     \<and> bytes_at (kmem s') 5000 [104, 111, 0]"
proof -
  let ?dev = "\<lambda>_ _. 0xA0 :: u8"
  let ?c = "blank_console\<lparr>cons_buf := [104, 105, 8, 111, 13] @ replicate 507 0, cons_wpos := 5\<rparr>"
  let ?s = "blank_kio\<lparr>con := ?c\<rparr>"
  have q: "quiet ?dev" by (simp add: quiet_def COM_LSR_DATA_def)
  have ok: "ring_ok ?c" by (simp add: ring_ok_def blank_console_def)
  have "contents ?c = [104, 105, 8, 111] @ [13]"
    by (simp add: contents_def waiting_def blank_console_def upt_rec)
  from session_quiet [OF q ok this, of "[]"] obtain c1 where
    c1: "session ?dev [] ?c [104, 105, 8, 111] c1" "ring_ok c1" "contents c1 = [13]" by auto
  from getchar_quiet [OF q c1(2,3)] obtain c2 where c2: "getchar ?dev c1 = Some (13, c2)" by auto
  have ed: "foldl edit [] [104, 105, 8, 111] = [104, 111]" by (simp add: edit_def)
  have con: "con ?s = ?c" by simp
  from readline_edits [where prompt = None and s = ?s and dev = ?dev and ?s0.0 = ?s and buf = 5000,
      unfolded con, OF _ c1(1) _ c2]
  show ?thesis unfolding ed by auto
qed

end
