(* ===== verification/User.thy ===== *)
theory User
  imports CPrintf
begin

text \<open>
  The user-level library: the system call stubs of \<^verbatim>\<open>lib/syscall.c\<close>, \<open>cprintf\<close> of
  \<^verbatim>\<open>lib/printf.c\<close>, which collects up to 255 characters per \<open>sys_cputs\<close>, and the console
  input and output, \<open>exit\<close>, \<open>libmain\<close> and \<open>_panic\<close> of \<^verbatim>\<open>lib/console.c\<close>, \<^verbatim>\<open>lib/exit.c\<close>,
  \<^verbatim>\<open>lib/libmain.c\<close> and \<^verbatim>\<open>lib/panic.c\<close>. User-level names get the prefix \<open>u\<close> where the
  kernel has the same name.
\<close>

section \<open>System calls\<close>

text \<open>
  The registers of a system call as \<^verbatim>\<open>lib/syscall.c\<close> sets them, and the state of a user
  program: its memory and what the kernel keeps for it. What \<^verbatim>\<open>int $T_SYSCALL\<close> does is the
  kernel's: a parameter \<open>trap\<close> that returns \<open>eax\<close> and the kernel's new state. The four
  system calls there are do not write user memory.
\<close>

record regs =
  r_eax :: u32
  r_edx :: u32
  r_ecx :: u32
  r_ebx :: u32
  r_edi :: u32
  r_esi :: u32

record 'k user =
  umem :: memory
  kern :: 'k

type_synonym 'k trap = "regs \<Rightarrow> memory \<Rightarrow> 'k \<Rightarrow> u32 \<times> 'k"

definition SYS_cputs :: u32 where "SYS_cputs = 0"
definition SYS_cgetc :: u32 where "SYS_cgetc = 1"
definition SYS_getenvid :: u32 where "SYS_getenvid = 2"
definition SYS_env_destroy :: u32 where "SYS_env_destroy = 3"
definition NSYSCALLS :: u32 where "NSYSCALLS = 4"

text \<open>\<open>usyscall\<close> is \<^verbatim>\<open>syscall\<close> of \<^verbatim>\<open>lib/syscall.c\<close>; its panic is \<open>Inl\<close>.\<close>

definition usyscall ::
    "'k trap \<Rightarrow> u32 \<Rightarrow> bool \<Rightarrow> u32 \<Rightarrow> u32 \<Rightarrow> u32 \<Rightarrow> u32 \<Rightarrow> u32 \<Rightarrow> 'k user \<Rightarrow> kerr + (u32 \<times> 'k user)" where
  "usyscall trap num check a1 a2 a3 a4 a5 u =
     (let (ret, k) = trap \<lparr>r_eax = num, r_edx = a1, r_ecx = a2, r_ebx = a3, r_edi = a4, r_esi = a5\<rparr>
                       (umem u) (kern u)
      in if check \<and> sint ret > 0 then Inl (Panic ''syscall %d returned %d (> 0)'')
         else Inr (ret, u\<lparr>kern := k\<rparr>))"

definition sys_cputs :: "'k trap \<Rightarrow> u32 \<Rightarrow> u32 \<Rightarrow> 'k user \<Rightarrow> kerr + 'k user" where
  "sys_cputs trap s len u =
     bindE (usyscall trap SYS_cputs False s len 0 0 0 u) (\<lambda>(ret, u). Inr u)"

definition sys_cgetc :: "'k trap \<Rightarrow> 'k user \<Rightarrow> kerr + (u32 \<times> 'k user)" where
  "sys_cgetc trap u = usyscall trap SYS_cgetc False 0 0 0 0 0 u"

definition sys_env_destroy :: "'k trap \<Rightarrow> u32 \<Rightarrow> 'k user \<Rightarrow> kerr + (u32 \<times> 'k user)" where
  "sys_env_destroy trap envid u = usyscall trap SYS_env_destroy True envid 0 0 0 0 u"

definition sys_getenvid :: "'k trap \<Rightarrow> 'k user \<Rightarrow> kerr + (u32 \<times> 'k user)" where
  "sys_getenvid trap u = usyscall trap SYS_getenvid False 0 0 0 0 0 u"

section \<open>lib/printf.c\<close>

text \<open>\<^verbatim>\<open>struct printbuf\<close>: \<open>pb_buf\<close> is the address of its 256 bytes in user memory.\<close>

record printbuf =
  pb_idx :: u32
  pb_cnt :: u32
  pb_buf :: u32

text \<open>The output state carries an error once \<open>sys_cputs\<close> fails: the program is gone.\<close>

definition uputch ::
    "'k trap \<Rightarrow> int \<Rightarrow> kerr + (printbuf \<times> 'k user) \<Rightarrow> kerr + (printbuf \<times> 'k user)" where
  "uputch trap ch r = bindE r (\<lambda>(b, u).
     (let u = u\<lparr>umem := (umem u)(pb_buf b + pb_idx b := of_int ch)\<rparr>;
          b = b\<lparr>pb_idx := pb_idx b + 1\<rparr>
      in bindE (if pb_idx b = 256 - 1
                then bindE (sys_cputs trap (pb_buf b) (pb_idx b) u) (\<lambda>u. Inr (b\<lparr>pb_idx := 0\<rparr>, u))
                else Inr (b, u))
           (\<lambda>(b, u). Inr (b\<lparr>pb_cnt := pb_cnt b + 1\<rparr>, u))))"

text \<open>\<open>fm\<close> holds the format, \<open>m\<close> its strings, \<open>buf\<close> is where \<^verbatim>\<open>b.buf\<close> is on the stack.\<close>

definition uvcprintf ::
    "'k trap \<Rightarrow> memory \<Rightarrow> memory \<Rightarrow> u32 \<Rightarrow> u32 \<Rightarrow> (nat \<Rightarrow> u32) \<Rightarrow> 'k user \<Rightarrow> (kerr + (int \<times> 'k user)) option" where
  "uvcprintf trap fm m buf fmt ap u =
     Option.bind (vprintfmt_loop (uputch trap) m fm None fmt ap 0
         (Inr (\<lparr>pb_idx = 0, pb_cnt = 0, pb_buf = buf\<rparr>, u)))
       (\<lambda>r. Some (bindE r (\<lambda>(b, u).
          bindE (sys_cputs trap (pb_buf b) (pb_idx b) u) (\<lambda>u. Inr (sint (pb_cnt b), u)))))"

definition ucprintf ::
    "'k trap \<Rightarrow> u32 \<Rightarrow> string \<Rightarrow> string list \<Rightarrow> u32 list \<Rightarrow> 'k user \<Rightarrow> (kerr + (int \<times> 'k user)) option" where
  "ucprintf trap buf fmt ss as u =
     uvcprintf trap (lit_mem fmt) (lits ss (umem u)) buf LIT (arg_list as) u"

section \<open>lib/console.c, exit.c, libmain.c, panic.c\<close>

text \<open>\<open>a\<close> is the address of the local variable \<^verbatim>\<open>c\<close>.\<close>

definition ucputchar :: "'k trap \<Rightarrow> u32 \<Rightarrow> int \<Rightarrow> 'k user \<Rightarrow> kerr + 'k user" where
  "ucputchar trap a ch u = sys_cputs trap a 1 (u\<lparr>umem := (umem u)(a := of_int ch)\<rparr>)"

partial_function (option) ugetchar :: "'k trap \<Rightarrow> 'k user \<Rightarrow> (kerr + (u32 \<times> 'k user)) option" where
  "ugetchar trap u = (case sys_cgetc trap u of
     Inl e \<Rightarrow> Some (Inl e)
   | Inr (r, u) \<Rightarrow> if r = 0 then ugetchar trap u else Some (Inr (r, u)))"

definition exit :: "'k trap \<Rightarrow> 'k user \<Rightarrow> kerr + 'k user" where
  "exit trap u = bindE (sys_env_destroy trap 0 u) (\<lambda>(r, u). Inr u)"

text \<open>The program's globals \<^verbatim>\<open>thisenv\<close> and \<^verbatim>\<open>binaryname\<close>, pointers.\<close>

record ulib =
  thisenv :: u32
  binaryname :: u32

text \<open>
  A user program runs to its end, or stops at a processor exception: the vector number, the
  address for a page fault, and the state in which the kernel takes over.
\<close>

datatype 'k outcome = Ran "'k user" | Stopped u32 u32 "'k user"

text \<open>\<open>umain\<close> is the program, a parameter; \<open>argv0\<close> is \<^verbatim>\<open>argv[0]\<close>.\<close>

definition libmain ::
    "'k trap \<Rightarrow> (ulib \<Rightarrow> int \<Rightarrow> u32 \<Rightarrow> 'k user \<Rightarrow> (kerr + 'k outcome) option) \<Rightarrow> int \<Rightarrow> u32 \<Rightarrow> u32 \<Rightarrow> ulib \<Rightarrow> 'k user
       \<Rightarrow> (kerr + 'k outcome) option" where
  "libmain trap umain argc argv argv0 l u =
     (let l = l\<lparr>thisenv := 0\<rparr>;
          l = (if argc > 0 then l\<lparr>binaryname := argv0\<rparr> else l)
      in case umain l argc argv u of
           Some (Inr (Ran u)) \<Rightarrow> Some (bindE (exit trap u) (\<lambda>u. Inr (Ran u)))
         | r \<Rightarrow> r)"

text \<open>
  \<open>_panic\<close> does not return: its value is the state in which it starts to raise breakpoint
  exceptions. \<open>file\<close> is a pointer, \<open>msg\<close> and \<open>ap\<close> the message's format and arguments.
\<close>

definition upanic ::
    "'k trap \<Rightarrow> u32 \<Rightarrow> ulib \<Rightarrow> u32 \<Rightarrow> u32 \<Rightarrow> u32 \<Rightarrow> (nat \<Rightarrow> u32) \<Rightarrow> 'k user \<Rightarrow> (kerr + 'k user) option" where
  "upanic trap buf l file line msg ap u =
     (case sys_getenvid trap u of Inl e \<Rightarrow> Some (Inl e) | Inr (envid, u) \<Rightarrow>
      Option.bind (ucprintf trap buf ''[%08x] user panic in %s at %s:%d: '' [] [envid, binaryname l, file, line] u)
        (\<lambda>r. case r of Inl e \<Rightarrow> Some (Inl e) | Inr (cnt, u) \<Rightarrow>
      Option.bind (uvcprintf trap (umem u) (umem u) buf msg ap u)
        (\<lambda>r. case r of Inl e \<Rightarrow> Some (Inl e) | Inr (cnt, u) \<Rightarrow>
      Option.bind (ucprintf trap buf [CHR 0x0A] [] [] u)
        (\<lambda>r. Some (bindE r (\<lambda>(cnt, u). Inr u))))))"

section \<open>The batches a program prints in\<close>

function batches :: "'a list \<Rightarrow> 'a list list" where
  "batches xs = (if length xs < 255 then [xs] else take 255 xs # batches (drop 255 xs))"
  by pat_completeness auto
termination by (relation "measure length") auto

declare batches.simps [simp del]

lemma concat_batches: "concat (batches xs) = xs"
proof (induction xs rule: batches.induct)
  case (1 xs)
  then show ?case by (subst batches.simps) simp
qed

lemma batches_nonempty [simp]: "batches xs \<noteq> []"
  by (subst batches.simps) simp

lemma batches_short: "length xs < 255 \<Longrightarrow> batches xs = [xs]"
  by (subst batches.simps) simp

lemma batches_lengths: "(\<forall>b \<in> set (butlast (batches xs)). length b = 255) \<and> length (last (batches xs)) < 255"
proof (induction xs rule: batches.induct)
  case (1 xs)
  show ?case
  proof (cases "length xs < 255")
    case True
    then show ?thesis by (simp add: batches_short)
  next
    case False
    define ys where "ys = batches (drop 255 xs)"
    have ne: "ys \<noteq> []" by (simp add: ys_def)
    have eq: "batches xs = take 255 xs # ys"
      unfolding ys_def using False by (subst batches.simps) simp
    have len: "length (take 255 xs) = 255" using False by (simp only: length_take min_def not_less split: if_split) linarith
    have "(\<forall>b \<in> set (butlast ys). length b = 255) \<and> length (last ys) < 255"
      unfolding ys_def by (rule 1 [OF False])
    then show ?thesis using ne len unfolding eq by (simp only: butlast.simps last.simps if_False) auto
  qed
qed

lemma batches_full: "length p = 255 \<Longrightarrow> batches (p @ xs) = p # batches xs"
proof -
  assume p: "length p = 255"
  have "\<not> length (p @ xs) < 255" by (simp only: length_append p not_less le_add1)
  moreover have "take 255 (p @ xs) = p" "drop 255 (p @ xs) = xs"
    by (simp_all only: p [symmetric] append_eq_conv_conj [THEN iffD1, OF refl, THEN conjunct1, symmetric]
      append_eq_conv_conj [THEN iffD1, OF refl, THEN conjunct2, symmetric])
  ultimately show ?thesis by (subst batches.simps) (simp only: if_False)
qed

lemma mem_bytes_at: "bytes_at m a xs \<Longrightarrow> mem_bytes m a (length xs) = xs"
  by (rule nth_equalityI) (simp_all add: mem_bytes_def bytes_at_nth)

text \<open>
  The documented effect of \<^verbatim>\<open>sys_cputs\<close>: the kernel prints the bytes it is given. \<open>cprintf\<close>
  relies on it for at most 255 bytes at an address that is not null. It is an assumption on the
  kernel a program runs on, which this repository's kernel does not meet yet: its interrupt table
  is empty and its \<open>syscall\<close> panics.
\<close>

definition prints_bytes :: "'k trap \<Rightarrow> (u8 list \<Rightarrow> 'k \<Rightarrow> 'k) \<Rightarrow> bool" where
  "prints_bytes trap puts \<longleftrightarrow> (\<forall>r m k. r_eax r = SYS_cputs \<longrightarrow> r_edx r \<noteq> 0 \<longrightarrow> unat (r_ecx r) \<le> 255 \<longrightarrow>
     snd (trap r m k) = puts (mem_bytes m (r_edx r) (unat (r_ecx r))) k)"

lemma sys_cputs_prints:
  assumes "prints_bytes trap puts" and "s \<noteq> 0" and "unat len \<le> 255"
  shows "sys_cputs trap s len u = Inr (u\<lparr>kern := puts (mem_bytes (umem u) s (unat len)) (kern u)\<rparr>)"
  using assms by (simp add: sys_cputs_def usyscall_def Let_def case_prod_beta prints_bytes_def bindE_def)

text \<open>What holds between two characters: \<open>p\<close> is pending in the buffer.\<close>

definition pending :: "memory \<Rightarrow> u32 \<Rightarrow> u8 list \<Rightarrow> printbuf \<Rightarrow> 'k user \<Rightarrow> bool" where
  "pending m0 buf p b u \<longleftrightarrow> buf \<noteq> 0 \<and> length p < 255 \<and> pb_buf b = buf \<and> pb_idx b = of_nat (length p)
     \<and> bytes_at (umem u) buf p \<and> (\<forall>a. \<not> in_range buf 255 a \<longrightarrow> umem u a = m0 a)"

lemma uputch_pending:
  assumes "prints_bytes trap puts" and "pending m0 buf p b u"
  shows "\<exists>b' u'. uputch trap c (Inr (b, u)) = Inr (b', u') \<and> pb_cnt b' = pb_cnt b + 1
    \<and> (if length p = 254 then pending m0 buf [] b' u' \<and> kern u' = puts (p @ [of_int c]) (kern u)
       else pending m0 buf (p @ [of_int c]) b' u' \<and> kern u' = kern u)"
proof -
  have buf: "buf \<noteq> 0" using assms(2) by (simp add: pending_def)
  have p: "length p < 255" "pb_buf b = buf" "pb_idx b = of_nat (length p)" "bytes_at (umem u) buf p"
    "\<forall>a. \<not> in_range buf 255 a \<longrightarrow> umem u a = m0 a" using assms(2) by (simp_all add: pending_def)
  let ?m = "(umem u)(buf + of_nat (length p) := of_int c)"
  have bytes: "bytes_at ?m buf (p @ [of_int c])" using bytes_at_snoc [OF p(4)] p(1) by simp
  have "in_range buf 255 (buf + of_nat (length p))"
    using p(1) by (subst in_range_offset) auto
  then have frame: "\<forall>a. \<not> in_range buf 255 a \<longrightarrow> ?m a = m0 a" using p(5) by auto
  have idx: "pb_idx b + 1 = of_nat (Suc (length p))" by (simp add: p(3))
  have full: "pb_idx b + 1 = 255 \<longleftrightarrow> length p = 254"
  proof
    assume "pb_idx b + 1 = 255"
    from arg_cong [OF this, of unat] show "length p = 254"
      unfolding idx using p(1) by (simp add: unat_of_nat_small del: of_nat_Suc)
  qed (simp add: p(3))
  show ?thesis
  proof (cases "length p = 254")
    case True
    have "mem_bytes ?m buf 255 = p @ [of_int c]"
      using mem_bytes_at [OF bytes] True by simp
    then have "uputch trap c (Inr (b, u)) = Inr (b\<lparr>pb_idx := 0, pb_cnt := pb_cnt b + 1\<rparr>,
        u\<lparr>umem := ?m, kern := puts (p @ [of_int c]) (kern u)\<rparr>)"
      using full True p(2,3) idx
      by (simp add: uputch_def bindE_def Let_def sys_cputs_prints [OF assms(1)] buf)
    then show ?thesis using True frame p(2) buf by (simp add: pending_def)
  next
    case False
    then have "uputch trap c (Inr (b, u)) = Inr (b\<lparr>pb_idx := pb_idx b + 1, pb_cnt := pb_cnt b + 1\<rparr>, u\<lparr>umem := ?m\<rparr>)"
      using full p(2,3) by (simp add: uputch_def bindE_def Let_def)
    then show ?thesis using False frame p(1,2,3) bytes buf by (simp add: pending_def)
  qed
qed

lemma fold_uputch:
  assumes "prints_bytes trap puts" and "pending m0 buf p b u"
  shows "\<exists>b' u'. fold (uputch trap) cs (Inr (b, u)) = Inr (b', u')
    \<and> pb_cnt b' = pb_cnt b + of_nat (length cs)
    \<and> pending m0 buf (last (batches (p @ map of_int cs))) b' u'
    \<and> kern u' = fold puts (butlast (batches (p @ map of_int cs))) (kern u)"
  using assms(2)
proof (induction cs arbitrary: p b u)
  case Nil
  then have "batches p = [p]" by (simp add: batches_short pending_def)
  then show ?case using Nil by simp
next
  case (Cons c cs)
  obtain b1 u1 where s: "uputch trap c (Inr (b, u)) = Inr (b1, u1)" "pb_cnt b1 = pb_cnt b + 1"
    "if length p = 254 then pending m0 buf [] b1 u1 \<and> kern u1 = puts (p @ [of_int c]) (kern u)
       else pending m0 buf (p @ [of_int c]) b1 u1 \<and> kern u1 = kern u"
    using uputch_pending [OF assms(1) Cons.prems] by blast
  show ?case
  proof (cases "length p = 254")
    case True
    then have "batches ((p @ [of_int c]) @ map of_int cs) = (p @ [of_int c]) # batches (map of_int cs)"
      by (intro batches_full) simp
    then show ?thesis using Cons.IH [of "[]" b1 u1] s True by (auto simp: add_ac)
  next
    case False
    then show ?thesis using Cons.IH [of "p @ [of_int c]" b1 u1] s by (auto simp: add_ac)
  qed
qed

lemma uvcprintf_prints:
  assumes "prints_bytes trap puts" and "buf \<noteq> 0" and "sent fm m fmt ap = Some cs"
  shows "\<exists>u' bs. bs = batches (map of_int cs) \<and> uvcprintf trap fm m buf fmt ap u = Some (Inr (sint (of_nat (length cs) :: u32), u'))
    \<and> concat bs = map of_int cs \<and> (\<forall>b \<in> set (butlast bs). length b = 255) \<and> length (last bs) < 255
    \<and> kern u' = fold puts bs (kern u)
    \<and> (\<forall>a. \<not> in_range buf 255 a \<longrightarrow> umem u' a = umem u a)"
proof -
  let ?b = "\<lparr>pb_idx = 0, pb_cnt = 0, pb_buf = buf\<rparr>"
  let ?bs = "batches (map of_int cs :: u8 list)"
  have "pending (umem u) buf [] ?b u" by (simp add: pending_def assms(2))
  from fold_uputch [OF assms(1) this, of cs] obtain b' u' where
    f: "fold (uputch trap) cs (Inr (?b, u)) = Inr (b', u')" "pb_cnt b' = of_nat (length cs)"
    "pending (umem u) buf (last ?bs) b' u'" "kern u' = fold puts (butlast ?bs) (kern u)"
    by auto
  have pend: "pb_buf b' = buf" "unat (pb_idx b') = length (last ?bs)" "bytes_at (umem u') buf (last ?bs)"
    "\<forall>a. \<not> in_range buf 255 a \<longrightarrow> umem u' a = umem u a"
    using f(3) by (auto simp: pending_def unat_of_nat_small)
  have short: "length (last ?bs) < 255" using batches_lengths by blast
  let ?u = "u'\<lparr>kern := puts (last ?bs) (kern u')\<rparr>"
  have run: "uvcprintf trap fm m buf fmt ap u = Some (Inr (sint (of_nat (length cs) :: u32), ?u))"
    by (simp add: uvcprintf_def loop_sent assms(3) f(1,2) bindE_def sys_cputs_prints [OF assms(1)] assms(2)
      pend(1,2) less_imp_le [OF short] mem_bytes_at [OF pend(3)])
  have "fold puts ?bs (kern u) = puts (last ?bs) (fold puts (butlast ?bs) (kern u))"
    using fold_append [of puts "butlast ?bs" "[last ?bs]"] by simp
  then have "kern ?u = fold puts ?bs (kern u)" using f(4) by simp
  then show ?thesis
    using run pend(4) concat_batches [of "map of_int cs"] batches_lengths [of "map of_int cs :: u8 list"]
    by (intro exI [of _ ?u] exI [of _ ?bs]) simp
qed

section \<open>Contracts\<close>

text \<open>C24: A user program's \<open>cprintf\<close> prints all of its characters, in order, in as few system
  calls as its buffer allows: every \<open>sys_cputs\<close> but the last passes exactly 255 characters
  and the last one passes fewer, possibly none; it returns the number of characters and
  writes only the 255 bytes of its buffer. The hypothesis is what \<open>sys_cputs\<close> documents.\<close>

theorem user_cprintf_batches:
  assumes "prints_bytes trap puts" and "buf \<noteq> 0" and "sent fm m fmt ap = Some cs"
  shows "\<exists>u' bs. uvcprintf trap fm m buf fmt ap u = Some (Inr (sint (of_nat (length cs) :: u32), u'))
    \<and> concat bs = map of_int cs \<and> (\<forall>b \<in> set (butlast bs). length b = 255) \<and> length (last bs) < 255
    \<and> kern u' = fold puts bs (kern u)
    \<and> (\<forall>a. \<not> in_range buf 255 a \<longrightarrow> umem u' a = umem u a)"
  using uvcprintf_prints [OF assms] by blast

definition log_trap :: "u8 list list trap" where
  "log_trap r m k = (0, k @ [mem_bytes m (r_edx r) (unat (r_ecx r))])"

lemma user_cprintf_batches_witness:
  "\<exists>u'. uvcprintf log_trap (lit_mem ''ok'') (\<lambda>_. 0) 800 LIT (\<lambda>_. 0) \<lparr>umem = (\<lambda>_. 0), kern = []\<rparr> = Some (Inr (2, u'))
    \<and> concat (kern u') = [111, 107]"
proof -
  have "bytes_at (lit_mem ''ok'') LIT (concat (map item_bytes [Plain 111, Plain 107]) @ [0])"
    by (simp add: lit_mem_def LIT_def)
  from loop_items [OF this, of "\<lambda>_. 0" "\<lambda>_. 0" 0 "[111, 107]" "\<lambda>c cs. cs @ [c]" "[]"]
  have sent: "sent (lit_mem ''ok'') (\<lambda>_. 0) LIT (\<lambda>_. 0) = Some [111, 107]" by (simp add: sent_def)
  have puts: "prints_bytes log_trap (\<lambda>b k. k @ [b])" by (simp add: prints_bytes_def log_trap_def)
  have log: "concat (fold (\<lambda>b k. k @ [b]) bs k) = concat k @ concat bs" for bs k :: "u8 list list"
    by (induction bs arbitrary: k) simp_all
  from user_cprintf_batches [where buf = "800", OF puts _ sent, of "\<lparr>umem = (\<lambda>_. 0), kern = []\<rparr>"]
  show ?thesis using log [of _ "[]"] by auto
qed

end
