(* ===== verification/VmOps.thy ===== *)
theory VmOps
  imports AddressSpace
begin

text \<open>
  The contracts of \<open>page_insert\<close>, \<open>page_remove\<close>, \<open>page_lookup\<close>, \<open>check_va2pa\<close> and
  \<open>boot_map_region\<close>: the mapping they establish, the mappings they leave alone, the
  reference counts, the free list and the TLB.
\<close>

section \<open>The TLB\<close>

text \<open>Every translation the processor may have cached is the one in the tables.\<close>

definition coherent :: "'z ks \<Rightarrow> nat \<Rightarrow> bool" where
  "coherent s pd \<longleftrightarrow> (\<forall>va e. (pdi va, pti va) \<in> user_slots \<longrightarrow> tlb s (PGNUM va) = Some e
     \<longrightarrow> present e \<and> e = pte_at (mem s) pd (pdi va) (pti va))"

lemma coherentD:
  "coherent s pd \<Longrightarrow> (pdi va, pti va) \<in> user_slots \<Longrightarrow> tlb s (PGNUM va) = Some e
     \<Longrightarrow> present e \<and> e = pte_at (mem s) pd (pdi va) (pti va)"
  by (simp add: coherent_def)

lemma slot_of_page: "PGNUM va = PGNUM va' \<longleftrightarrow> pdi va = pdi va' \<and> pti va = pti va'"
proof
  assume "PGNUM va = PGNUM va'"
  then have "unat (PGNUM va) = unat (PGNUM va')" by simp
  moreover have "pdi w = unat (PGNUM w) div 1024" "pti w = unat (PGNUM w) mod 1024" for w
    by (simp_all add: unat_PDX unat_PTX unat_PGNUM div_mult2_eq)
  ultimately show "pdi va = pdi va' \<and> pti va = pti va'" by simp
next
  assume *: "pdi va = pdi va' \<and> pti va = pti va'"
  have "unat (PGNUM w) = pdi w * 1024 + pti w" for w
    using div_mult_mod_eq [of "unat w div 4096" 1024]
    by (simp add: unat_PDX unat_PTX unat_PGNUM div_mult2_eq [symmetric])
  then have "unat (PGNUM va) = unat (PGNUM va')" using * by simp
  then show "PGNUM va = PGNUM va'" by (rule word_unat_eq_iff [THEN iffD2])
qed

lemma coherent_cong:
  assumes "coherent s pd" and "tlb s' = tlb s"
    and "\<And>d t. (d, t) \<in> user_slots \<Longrightarrow> pte_at (mem s') pd d t = pte_at (mem s) pd d t"
  shows "coherent s' pd"
  using assms by (simp add: coherent_def)

section \<open>Inserting\<close>

lemma present_new_pte: "present (v OR perm OR PTE_P)"
  unfolding present_iff_bit by (simp add: PTE_P_def bit_simps)

lemma remove_state_entries:
  assumes "wf_pd s xs pd" and "(pdi va, pti va) \<in> user_slots" and "present (entry (mem s) pd (pdi va))"
  shows "\<And>d t. (d, t) \<in> user_slots \<Longrightarrow> pte_at (mem (remove_state pd va s)) pd d t
      = (if d = pdi va \<and> t = pti va then 0 else pte_at (mem s) pd d t)"
    and "i < 1024 \<Longrightarrow> entry (mem (remove_state pd va s)) pd i = entry (mem s) pd i"
    and "tlb (remove_state pd va s) = (tlb s)(PGNUM va := None)"
    and "length (pages (remove_state pd va s)) = length (pages s)"
  using user_slotsD [OF assms(2)] table_store_pte [OF assms(1) _ _ assms(3)] user_slotsD
    table_store_entry [OF assms(1) _ _ assms(3)]
  by (simp_all add: remove_state_def Let_def)

lemma remove_state_coherent:
  assumes "wf_pd s xs pd" and "(pdi va, pti va) \<in> user_slots" and "present (entry (mem s) pd (pdi va))"
    and "coherent s pd"
  shows "coherent (remove_state pd va s) pd"
  unfolding coherent_def
proof (intro allI impI)
  fix w e
  assume w: "(pdi w, pti w) \<in> user_slots" and t: "tlb (remove_state pd va s) (PGNUM w) = Some e"
  then have "PGNUM w \<noteq> PGNUM va" and old: "tlb s (PGNUM w) = Some e"
    using remove_state_entries(3) [OF assms(1-3)] by (auto split: if_splits)
  then have "\<not> (pdi w = pdi va \<and> pti w = pti va)" using slot_of_page [of w va] by simp
  then show "present e \<and> e = pte_at (mem (remove_state pd va s)) pd (pdi w) (pti w)"
    using remove_state_entries(1) [OF assms(1-3) w] coherentD [OF assms(4) w old] by (metis (full_types))
qed

text \<open>The second half of \<open>page_insert\<close>, from the state the walk leaves.\<close>

text \<open>Installing an entry where there was none does not disturb the TLB.\<close>

lemma coherent_install:
  assumes "coherent s pd" and "\<not> present (pte_at (mem s) pd d t)" and "tlb s' = tlb s"
    and "\<forall>(d', t') \<in> user_slots - {(d, t)}. pte_at (mem s') pd d' t' = pte_at (mem s) pd d' t'"
  shows "coherent s' pd"
  unfolding coherent_def
proof (intro allI impI)
  fix w e
  assume w: "(pdi w, pti w) \<in> user_slots" and "tlb s' (PGNUM w) = Some e"
  then have "tlb s (PGNUM w) = Some e" using assms(3) by simp
  note * = coherentD [OF assms(1) w this]
  then have "(pdi w, pti w) \<noteq> (d, t)" using assms(2) by auto
  then have "pte_at (mem s') pd (pdi w) (pti w) = pte_at (mem s) pd (pdi w) (pti w)"
    using assms(4) w by blast
  with * show "present e \<and> e = pte_at (mem s') pd (pdi w) (pti w)" by metis
qed

text \<open>\<open>page_insert\<close> first takes an old mapping away.\<close>

text \<open>Whether a virtual address maps a given page.\<close>

definition maps_page :: "'z ks \<Rightarrow> nat \<Rightarrow> u32 \<Rightarrow> nat \<Rightarrow> bool" where
  "maps_page s pd va pp \<longleftrightarrow> (let e = pte_at (mem s) pd (pdi va) (pti va) in present e \<and> frame_of e = pp)"

lemma take_old_mapping:
  assumes inv: "vm_inv s xs pd ext" and slot: "(pdi va, pti va) \<in> user_slots"
    and pde: "present (entry (mem s) pd (pdi va))" and coh: "coherent s pd"
    and old: "old = pte_at (mem s) pd (pdi va) (pti va)"
  shows "\<exists>s2 xs2. (if present old then page_remove (kva pd) va s else Inr s) = Inr s2
    \<and> vm_inv s2 xs2 pd ext \<and> coherent s2 pd
    \<and> (\<forall>(d, t) \<in> user_slots - {(pdi va, pti va)}. pte_at (mem s2) pd d t = pte_at (mem s) pd d t)
    \<and> \<not> present (pte_at (mem s2) pd (pdi va) (pti va))
    \<and> entry (mem s2) pd (pdi va) = entry (mem s) pd (pdi va)
    \<and> length (pages s2) = length (pages s) \<and> set xs2 \<subseteq> insert (frame_of old) (set xs)
    \<and> (\<forall>i < length (pages s). pp_ref (pages s2 ! i)
        = pp_ref (pages s ! i) - (if present old \<and> frame_of old = i then 1 else 0))"
proof (cases "present old")
  case True
  let ?s2 = "remove_state pd va s" and ?xs2 = "drop_free (frame_of (pte_at (mem s) pd (pdi va) (pti va))) s xs"
  note wf = vm_invD(1) [OF inv] and p = True [unfolded old]
  note r = vm_inv_remove [OF inv slot p] and e = remove_state_entries [OF wf slot pde]
  have "pages ?s2 = pages (drop_ref (frame_of old) s)"
    using pde by (simp add: remove_state_def old pte_at_def Let_def)
  then have "\<forall>i < length (pages s). pp_ref (pages ?s2 ! i)
      = pp_ref (pages s ! i) - (if present old \<and> frame_of old = i then 1 else 0)"
    using drop_ref_ref [of _ s "frame_of old"] True by auto
  moreover have "coherent ?s2 pd" using remove_state_coherent [OF wf slot pde coh] .
  moreover have "set ?xs2 \<subseteq> insert (frame_of old) (set xs)" by (auto simp: drop_free_def old)
  moreover have "pte_at (mem ?s2) pd d t = pte_at (mem s) pd d t"
    if "(d, t) \<in> user_slots - {(pdi va, pti va)}" for d t
    using e that by auto
  then have "\<forall>(d, t) \<in> user_slots - {(pdi va, pti va)}. pte_at (mem ?s2) pd d t = pte_at (mem s) pd d t" by blast
  ultimately show ?thesis using r e(1) [OF slot] e(2) [OF PDX_bound] e(4) True unfolding old
    by (intro exI [of _ ?s2] exI [of _ ?xs2] conjI) simp_all
next
  case False
  then show ?thesis using inv coh old by (intro exI [of _ s] exI [of _ xs]) auto
qed

lemma insert_after_walk:
  assumes inv: "vm_inv s xs pd ext" and slot: "(pdi va, pti va) \<in> user_slots"
    and pde: "present (entry (mem s) pd (pdi va))"
    and pp: "pp < length (pages s)" "pp \<notin> set xs"
    and room: "unat (pp_ref (pages s ! pp)) < 65535" and perm: "unat perm < 4096"
    and coh: "coherent s pd"
    and walk: "pgdir_walk (kva pd) va True s0
      = Inr (kva (frame_of (entry (mem s) pd (pdi va))) + 4 * of_nat (pti va), s)"
  shows "\<exists>s' xs'. page_insert (kva pd) pp va perm s0 = Inr (0, s') \<and> vm_inv s' xs' pd ext
    \<and> coherent s' pd \<and> pte_at (mem s') pd (pdi va) (pti va) = page2pa pp OR perm OR PTE_P
    \<and> (\<forall>(d, t) \<in> user_slots - {(pdi va, pti va)}. pte_at (mem s') pd d t = pte_at (mem s) pd d t)
    \<and> set xs' \<subseteq> insert (frame_of (pte_at (mem s) pd (pdi va) (pti va))) (set xs)
    \<and> pp_ref (pages s' ! pp) = pp_ref (pages s ! pp) + (if maps_page s pd va pp then 0 else 1)"
proof -
  let ?f = "frame_of (entry (mem s) pd (pdi va))"
  let ?pt = "kva ?f + 4 * of_nat (pti va)"
  let ?old = "pte_at (mem s) pd (pdi va) (pti va)"
  let ?s1 = "incref_state pp s"
  let ?v = "page2pa pp OR perm OR PTE_P"
  note dt = user_slotsD [OF slot] and wf = vm_invD(1) [OF inv]
  have f: "?f < 65536" using wf_pdD(6) [OF wf PDX_bound pde] .
  have inv1: "vm_inv ?s1 xs pd (ext(pp := ext pp + 1))" using vm_inv_incref [OF inv pp room] .
  have s1 [simp]: "mem ?s1 = mem s" "tlb ?s1 = tlb s" "length (pages ?s1) = length (pages s)"
    by (simp_all add: incref_state_def)
  have coh1: "coherent ?s1 pd" by (rule coherent_cong [OF coh]) simp_all
  have "pp < 65536" using wf_pages_lt [OF wf_pdD(2) [OF wf] pp(1)] .
  moreover have "unat (perm OR PTE_P) < 4096" using flags_or_less [of perm PTE_P] perm
    by (simp add: PTE_P_def word_less_nat_alt)
  ultimately have v: "frame_of ?v = pp"
    using frame_of_page [of "perm OR PTE_P" pp] by (simp add: or.assoc word_less_nat_alt)
  obtain s2 xs2 where s2: "(if present ?old then page_remove (kva pd) va ?s1 else Inr ?s1) = Inr s2"
    and inv2: "vm_inv s2 xs2 pd (ext(pp := ext pp + 1))" and coh2: "coherent s2 pd"
    and ents: "\<forall>(d, t) \<in> user_slots - {(pdi va, pti va)}. pte_at (mem s2) pd d t = pte_at (mem s) pd d t"
    and gone: "\<not> present (pte_at (mem s2) pd (pdi va) (pti va))"
    and pde2: "entry (mem s2) pd (pdi va) = entry (mem s) pd (pdi va)"
    and len2: "length (pages s2) = length (pages s)" and xs2: "set xs2 \<subseteq> insert (frame_of ?old) (set xs)"
    and ref2: "\<forall>i < length (pages s). pp_ref (pages s2 ! i)
        = pp_ref (pages ?s1 ! i) - (if present ?old \<and> frame_of ?old = i then 1 else 0)"
    using take_old_mapping [OF inv1 slot _ coh1, of ?old] pde unfolding s1 by blast
  let ?s3 = "s2\<lparr>mem := set_entry ?f (pti va) ?v (mem s2)\<rparr>"
  have "upd_page pp (\<lambda>p. p\<lparr>pp_ref := pp_ref p + 1\<rparr>) s = Inr ?s1"
    using pp(1) by (simp add: upd_page_def incref_state_def)
  moreover have "kload ?s1 ?pt = Inr ?old"
    using kload_entry [OF f PTX_bound, of ?s1 va] pde by (simp add: pte_at_def)
  moreover have "kstore ?pt ?v s2 = Inr ?s3" using kstore_entry [OF f PTX_bound, of va ?v s2] by simp
  ultimately have call: "page_insert (kva pd) pp va perm s0 = Inr (0, ?s3)"
    using walk slot_nonzero [OF f PTX_bound] s2 by (simp add: page_insert_def)
  have p2: "present (entry (mem s2) pd (pdi va))" using pde pde2 by simp
  have inv3: "vm_inv ?s3 xs2 pd ext"
    using vm_inv_install [OF inv2 slot p2 gone present_new_pte v] pp(1) len2 vm_invD(2,3) [OF inv] pde2 by simp
  have pte3: "pte_at (mem ?s3) pd d t = (if d = pdi va \<and> t = pti va then ?v else pte_at (mem s2) pd d t)"
    if "(d, t) \<in> user_slots" for d t
    using table_store_pte [OF vm_invD(1) [OF inv2] _ _ p2] dt user_slotsD [OF that] pde2 by simp
  then have others: "\<forall>(d, t) \<in> user_slots - {(pdi va, pti va)}. pte_at (mem ?s3) pd d t = pte_at (mem s2) pd d t"
    by (auto split: if_splits)
  have "coherent ?s3 pd" by (rule coherent_install [OF coh2 gone _ others]) simp
  moreover have "pte_at (mem ?s3) pd d t = pte_at (mem s) pd d t" if "(d, t) \<in> user_slots - {(pdi va, pti va)}" for d t
    using bspec [OF others that] bspec [OF ents that] by simp
  then have "\<forall>(d, t) \<in> user_slots - {(pdi va, pti va)}. pte_at (mem ?s3) pd d t = pte_at (mem s) pd d t" by blast
  moreover have "pp_ref (pages ?s3 ! pp) = pp_ref (pages s ! pp) + (if maps_page s pd va pp then 0 else 1)"
    using ref2 pp(1) by (simp add: incref_state_def maps_page_def)
  ultimately show ?thesis using call inv3 pte3 [OF slot] xs2
    by (intro exI [of _ ?s3] exI [of _ xs2] conjI) simp_all
qed

text \<open>What a successful walk with \<open>create\<close> leaves, whether it made a page table or not.\<close>

lemma walk_ok:
  assumes wf: "wf_pd s xs pd" and d: "pdi va \<noteq> UVPT_D"
    and mem: "present (entry (mem s) pd (pdi va)) \<or> xs \<noteq> []"
  obtains s1 xs1 where
    "pgdir_walk (kva pd) va True s
      = Inr (kva (frame_of (entry (mem s1) pd (pdi va))) + 4 * of_nat (pti va), s1)"
    and "present (entry (mem s1) pd (pdi va))" and "wf_pd s1 xs1 pd"
    and "xs1 = (if present (entry (mem s) pd (pdi va)) then xs else tl xs)"
    and "s1 = (if present (entry (mem s) pd (pdi va)) then s else walk_state (hd xs) pd (pdi va) s)"
    and "\<And>d t. d < 1024 \<Longrightarrow> t < 1024 \<Longrightarrow> d \<noteq> UVPT_D \<Longrightarrow> pte_at (mem s1) pd d t = pte_at (mem s) pd d t"
    and "\<And>d. d < 1024 \<Longrightarrow> d \<noteq> pdi va \<Longrightarrow> entry (mem s1) pd d = entry (mem s) pd d"
proof (cases "present (entry (mem s) pd (pdi va))")
  case True
  show ?thesis by (rule that [of s xs]) (use True wf walk_present [OF wf True] in auto)
next
  case False
  then obtain x ys where xs: "xs = x # ys" using mem by (cases xs) auto
  note wf' = wf [unfolded xs]
  note x = wf_pd_head [OF wf']
  have ent: "entry (mem (walk_state x pd (pdi va) s)) pd d
      = (if d = pdi va then new_pde x else entry (mem s) pd d)" if "d < 1024" for d
    using walk_state_entry [OF wf' PDX_bound wf_pdD(4) [OF wf'] that] x by simp
  have "frame_of (entry (mem (walk_state x pd (pdi va) s)) pd (pdi va)) = x"
    "present (entry (mem (walk_state x pd (pdi va) s)) pd (pdi va))"
    using ent [OF PDX_bound] new_pde(1) [of x] new_pde(2) [OF x(2)] by simp_all
  note new = this
  show ?thesis
  proof (rule that [of "walk_state x pd (pdi va) s" ys])
    show "pgdir_walk (kva pd) va True s = Inr (kva (frame_of (entry (mem (walk_state x pd (pdi va) s))
        pd (pdi va))) + 4 * of_nat (pti va), walk_state x pd (pdi va) s)"
      using walk_create [OF wf' False] new(1) by simp
    show "wf_pd (walk_state x pd (pdi va) s) ys pd" using walk_state_wf [OF wf' PDX_bound False d] .
    show "pte_at (mem (walk_state x pd (pdi va) s)) pd d t = pte_at (mem s) pd d t"
      if "d < 1024" "t < 1024" "d \<noteq> UVPT_D" for d t
      using walk_state_pte [OF wf' PDX_bound False that] .
    show "entry (mem (walk_state x pd (pdi va) s)) pd d = entry (mem s) pd d"
      if "d < 1024" "d \<noteq> pdi va" for d
      using ent that by simp
  qed (use new(2) False xs in simp_all)
qed

lemma page_insert_no_memory:
  assumes "wf_pd s [] pd" and "\<not> present (entry (mem s) pd (pdi va))"
  shows "page_insert (kva pd) pp va perm s = Inr (- E_NO_MEM, s)"
  using walk_no_memory [OF assms] by (simp add: page_insert_def)

lemma page_insert_maps:
  assumes inv: "vm_inv s xs pd ext" and coh: "coherent s pd" and slot: "(pdi va, pti va) \<in> user_slots"
    and mem: "present (entry (mem s) pd (pdi va)) \<or> xs \<noteq> []"
    and pp: "pp < length (pages s)" "pp \<notin> set xs"
    and room: "unat (pp_ref (pages s ! pp)) < 65535" and perm: "unat perm < 4096"
  shows "\<exists>s' xs'. page_insert (kva pd) pp va perm s = Inr (0, s') \<and> vm_inv s' xs' pd ext
    \<and> coherent s' pd \<and> pte_at (mem s') pd (pdi va) (pti va) = page2pa pp OR perm OR PTE_P
    \<and> (\<forall>(d, t) \<in> user_slots - {(pdi va, pti va)}. pte_at (mem s') pd d t = pte_at (mem s) pd d t)
    \<and> set xs' \<subseteq> insert (frame_of (pte_at (mem s) pd (pdi va) (pti va))) (set xs)
    \<and> pp_ref (pages s' ! pp) = pp_ref (pages s ! pp) + (if maps_page s pd va pp then 0 else 1)"
proof -
  note wf = vm_invD(1) [OF inv] and dt = user_slotsD [OF slot]
  have d: "pdi va \<noteq> UVPT_D" using dt by simp
  obtain s1 xs1 where w: "pgdir_walk (kva pd) va True s
      = Inr (kva (frame_of (entry (mem s1) pd (pdi va))) + 4 * of_nat (pti va), s1)"
    and pde: "present (entry (mem s1) pd (pdi va))"
    and xs1: "xs1 = (if present (entry (mem s) pd (pdi va)) then xs else tl xs)"
    and s1: "s1 = (if present (entry (mem s) pd (pdi va)) then s else walk_state (hd xs) pd (pdi va) s)"
    and pte: "\<And>d t. d < 1024 \<Longrightarrow> t < 1024 \<Longrightarrow> d \<noteq> UVPT_D \<Longrightarrow> pte_at (mem s1) pd d t = pte_at (mem s) pd d t"
    by (rule walk_ok [OF wf d mem]) blast
  have sub: "set xs1 \<subseteq> set xs" using xs1 by (cases xs) auto
  have inv1: "vm_inv s1 xs1 pd ext"
    using inv mem vm_inv_walk [of s "hd xs" "tl xs" pd ext "pdi va"] PDX_bound [of va] d
    by (auto simp: s1 xs1)
  have other: "hd xs \<noteq> pp" if "xs \<noteq> []" using pp(2) hd_in_set [OF that] by blast
  have pp1: "pp < length (pages s1)" "pp \<notin> set xs1" "unat (pp_ref (pages s1 ! pp)) < 65535"
    and tlb1: "tlb s1 = tlb s" and ref1: "pp_ref (pages s1 ! pp) = pp_ref (pages s ! pp)"
    using pp room mem sub other by (auto simp: s1 walk_state_def)
  have coh1: "coherent s1 pd"
    by (rule coherent_cong [OF coh tlb1]) (use pte user_slotsD in auto)
  have old: "pte_at (mem s1) pd d t = pte_at (mem s) pd d t" if "(d, t) \<in> user_slots" for d t
    using pte user_slotsD [OF that] by simp
  from insert_after_walk [OF inv1 slot pde pp1(1,2,3) perm coh1 w]
  obtain s' xs' where "page_insert (kva pd) pp va perm s = Inr (0, s')" "vm_inv s' xs' pd ext"
    "coherent s' pd" "pte_at (mem s') pd (pdi va) (pti va) = page2pa pp OR perm OR PTE_P"
    "\<forall>(d, t) \<in> user_slots - {(pdi va, pti va)}. pte_at (mem s') pd d t = pte_at (mem s1) pd d t"
    "set xs' \<subseteq> insert (frame_of (pte_at (mem s1) pd (pdi va) (pti va))) (set xs1)"
    "pp_ref (pages s' ! pp) = pp_ref (pages s1 ! pp) + (if maps_page s1 pd va pp then 0 else 1)"
    by blast
  moreover have "maps_page s1 pd va pp = maps_page s pd va pp" using old [OF slot] by (simp add: maps_page_def)
  ultimately show ?thesis using old [OF slot] old sub ref1
    by (intro exI [of _ s'] exI [of _ xs']) (auto split: prod.splits)
qed

section \<open>Static mappings\<close>

text \<open>The slot of the \<open>k\<close>-th page from \<open>va\<close>, and the page tables a region still needs.\<close>

definition nth_slot :: "u32 \<Rightarrow> nat \<Rightarrow> nat \<times> nat" where
  "nth_slot va k = (pdi (va + of_nat k * PGSIZE), pti (va + of_nat k * PGSIZE))"

definition missing :: "memory \<Rightarrow> nat \<Rightarrow> u32 \<Rightarrow> nat \<Rightarrow> nat" where
  "missing m pd va n = card {d \<in> (\<lambda>k. fst (nth_slot va k)) ` {..<n}. \<not> present (entry m pd d)}"

lemma nth_slot_Suc: "nth_slot va (Suc k) = nth_slot (va + PGSIZE) k"
  by (simp add: nth_slot_def algebra_simps)

lemma nth_slot_bound: "fst (nth_slot va k) < 1024" "snd (nth_slot va k) < 1024"
  by (simp_all add: nth_slot_def PDX_bound PTX_bound)

lemma page_step_aligned: "unat (va + of_nat j * PGSIZE) mod 4096 = unat va mod 4096"
proof -
  have "va + of_nat j * PGSIZE = of_nat (unat va + j * 4096)" by (simp add: PGSIZE_def)
  then have "unat (va + of_nat j * PGSIZE) = (unat va + j * 4096) mod 4294967296" by (simp only: unat_of_nat) simp
  then show ?thesis by (simp add: mod_mod_cancel)
qed

lemma nth_slot_inj:
  assumes "k < 2 ^ 20" and "k' < 2 ^ 20" and "nth_slot va k = nth_slot va k'"
  shows "k = k'"
proof -
  let ?w = "\<lambda>j. va + of_nat j * PGSIZE"
  have "PGNUM (?w k) = PGNUM (?w k')"
    using assms(3) slot_of_page by (simp add: nth_slot_def)
  then have "unat (?w k) div 4096 = unat (?w k') div 4096" by (metis unat_PGNUM)
  moreover have "unat (?w k) mod 4096 = unat (?w k') mod 4096" by (simp only: page_step_aligned)
  ultimately have "unat (?w k) = unat (?w k')" by (metis div_mult_mod_eq)
  then have "?w k = ?w k'" by (rule word_unat_eq_iff [THEN iffD2])
  then have "(of_nat (k * 4096) :: u32) = of_nat (k' * 4096)" by (simp add: PGSIZE_def)
  then have "unat (of_nat (k * 4096) :: u32) = unat (of_nat (k' * 4096) :: u32)" by (rule arg_cong)
  moreover have "unat (of_nat (j * 4096) :: u32) = j * 4096" if "j < 2 ^ 20" for j
    using that by (intro unat_of_nat_small) simp
  ultimately show ?thesis using assms(1,2) by simp
qed

lemma image_lessThan_Suc: "f ` {..<Suc n} = insert (f 0) ((\<lambda>k. f (Suc k)) ` {..<n})"
  by (simp add: lessThan_Suc_eq_insert_0 image_image)

lemma missing_Suc:
  "missing m pd va (Suc n) = card {d \<in> insert (pdi va) ((\<lambda>k. fst (nth_slot (va + PGSIZE) k)) ` {..<n}).
     \<not> present (entry m pd d)}"
  unfolding missing_def image_lessThan_Suc nth_slot_Suc by (simp add: nth_slot_def)

lemma missing_step:
  assumes "\<And>d. d < 1024 \<Longrightarrow> d \<noteq> pdi va \<Longrightarrow> entry m1 pd d = entry m pd d"
    and "present (entry m1 pd (pdi va))"
  shows "missing m pd va (Suc n)
    = missing m1 pd (va + PGSIZE) n + (if present (entry m pd (pdi va)) then 0 else 1)"
proof -
  let ?D = "(\<lambda>k. fst (nth_slot (va + PGSIZE) k)) ` {..<n}"
  let ?A = "{d \<in> ?D. \<not> present (entry m1 pd d)}"
  have D: "d < 1024" if "d \<in> ?D" for d using that nth_slot_bound(1) by auto
  have "{d \<in> insert (pdi va) ?D. \<not> present (entry m pd d)}
      = ?A \<union> (if present (entry m pd (pdi va)) then {} else {pdi va})"
  proof (intro equalityI subsetI)
    fix d
    assume "d \<in> {d \<in> insert (pdi va) ?D. \<not> present (entry m pd d)}"
    then show "d \<in> ?A \<union> (if present (entry m pd (pdi va)) then {} else {pdi va})"
      using assms(1) [of d] D [of d] by (cases "d = pdi va") auto
  next
    fix d
    assume *: "d \<in> ?A \<union> (if present (entry m pd (pdi va)) then {} else {pdi va})"
    show "d \<in> {d \<in> insert (pdi va) ?D. \<not> present (entry m pd d)}"
    proof (cases "d = pdi va")
      case True
      then show ?thesis using * assms(2) by (auto split: if_splits)
    next
      case False
      then show ?thesis using * assms(1) [of d] D [of d] by (auto split: if_splits)
    qed
  qed
  moreover have "finite ?A" "pdi va \<notin> ?A" using assms(2) by auto
  ultimately show ?thesis unfolding missing_Suc by (simp add: missing_def)
qed

lemma missing_cong:
  "(\<And>d. d < 1024 \<Longrightarrow> entry m' pd d = entry m pd d) \<Longrightarrow> missing m' pd va n = missing m pd va n"
  unfolding missing_def by (rule arg_cong [where f = card]) (use nth_slot_bound(1) in auto)

text \<open>The effect of mapping \<open>n\<close> pages; \<open>fresh\<close> are the pages that became page tables.\<close>

definition mapped :: "nat \<Rightarrow> nat \<Rightarrow> u32 \<Rightarrow> u32 \<Rightarrow> u32 \<Rightarrow> 'z ks \<Rightarrow> 'z ks \<Rightarrow> bool" where
  "mapped n pd va pa perm s s' \<longleftrightarrow>
     (\<forall>k < n. pte_at (mem s') pd (fst (nth_slot va k)) (snd (nth_slot va k))
        = (pa + of_nat k * PGSIZE) OR PTE_P OR perm)
     \<and> (\<forall>d < 1024. \<forall>t < 1024. d \<noteq> UVPT_D \<longrightarrow> (d, t) \<notin> nth_slot va ` {..<n}
        \<longrightarrow> pte_at (mem s') pd d t = pte_at (mem s) pd d t)"

lemma mappedD:
  assumes "mapped n pd va pa perm s s'"
  shows "\<And>k. k < n \<Longrightarrow> pte_at (mem s') pd (fst (nth_slot va k)) (snd (nth_slot va k))
      = (pa + of_nat k * PGSIZE) OR PTE_P OR perm"
    and "\<And>d t. d < 1024 \<Longrightarrow> t < 1024 \<Longrightarrow> d \<noteq> UVPT_D \<Longrightarrow> (d, t) \<notin> nth_slot va ` {..<n}
      \<Longrightarrow> pte_at (mem s') pd d t = pte_at (mem s) pd d t"
  using assms unfolding mapped_def by blast+

lemma mapped_Suc:
  assumes rest: "mapped n pd (va + PGSIZE) (pa + PGSIZE) perm s2 s'"
    and first: "\<And>d t. d < 1024 \<Longrightarrow> t < 1024 \<Longrightarrow> d \<noteq> UVPT_D \<Longrightarrow> pte_at (mem s2) pd d t
      = (if d = pdi va \<and> t = pti va then pa OR PTE_P OR perm else pte_at (mem s) pd d t)"
    and n: "Suc n \<le> 2 ^ 20" and d: "pdi va \<noteq> UVPT_D"
  shows "mapped (Suc n) pd va pa perm s s'"
proof -
  have zero: "nth_slot va 0 = (pdi va, pti va)" by (simp add: nth_slot_def)
  have new: "(pdi va, pti va) \<notin> nth_slot (va + PGSIZE) ` {..<n}"
  proof
    assume "(pdi va, pti va) \<in> nth_slot (va + PGSIZE) ` {..<n}"
    then obtain k where "k < n" "nth_slot va 0 = nth_slot va (Suc k)"
      by (auto simp: zero nth_slot_Suc)
    then show False using nth_slot_inj [of 0 "Suc k" va] n by simp
  qed
  have "pte_at (mem s') pd (fst (nth_slot va k)) (snd (nth_slot va k))
      = (pa + of_nat k * PGSIZE) OR PTE_P OR perm" if "k < Suc n" for k
  proof (cases k)
    case 0
    then show ?thesis
      using mappedD(2) [OF rest PDX_bound PTX_bound d new] first [OF PDX_bound PTX_bound d]
      by (simp add: zero)
  next
    case (Suc j)
    then show ?thesis
      using mappedD(1) [OF rest, of j] that by (simp add: nth_slot_Suc algebra_simps)
  qed
  moreover have "pte_at (mem s') pd d t = pte_at (mem s) pd d t"
    if "d < 1024" "t < 1024" "d \<noteq> UVPT_D" "(d, t) \<notin> nth_slot va ` {..<Suc n}" for d t
  proof -
    have "(d, t) \<noteq> (pdi va, pti va)" "(d, t) \<notin> nth_slot (va + PGSIZE) ` {..<n}"
      using that(4) unfolding image_lessThan_Suc nth_slot_Suc zero by auto
    then show ?thesis using mappedD(2) [OF rest that(1-3)] first [OF that(1-3)] by auto
  qed
  ultimately show ?thesis unfolding mapped_def by blast
qed

text \<open>
  One page of \<open>boot_map_region\<close>: \<open>c\<close> is the number of page tables it takes from the free list.
\<close>

lemma boot_map_step:
  assumes wf: "wf_pd s xs pd" and d: "pdi va \<noteq> UVPT_D"
    and mem: "present (entry (mem s) pd (pdi va)) \<or> xs \<noteq> []"
  shows "\<exists>s2 c. boot_map_loop (Suc n) (kva pd) va pa perm s = boot_map_loop n (kva pd) (va + PGSIZE) (pa + PGSIZE) perm s2
    \<and> wf_pd s2 (drop c xs) pd \<and> c \<le> length xs
    \<and> missing (mem s) pd va (Suc n) = c + missing (mem s2) pd (va + PGSIZE) n
    \<and> (\<forall>d' t. d' < 1024 \<longrightarrow> t < 1024 \<longrightarrow> d' \<noteq> UVPT_D \<longrightarrow> pte_at (mem s2) pd d' t
        = (if d' = pdi va \<and> t = pti va then pa OR PTE_P OR perm else pte_at (mem s) pd d' t))
    \<and> tlb s2 = tlb s \<and> length (pages s2) = length (pages s)
    \<and> (\<forall>i. i \<notin> set (take c xs) \<longrightarrow> pages s2 ! i = pages s ! i)"
proof -
  let ?c = "if present (entry (mem s) pd (pdi va)) then 0 else 1 :: nat"
  obtain s1 xs1 where w: "pgdir_walk (kva pd) va True s
      = Inr (kva (frame_of (entry (mem s1) pd (pdi va))) + 4 * of_nat (pti va), s1)"
    and pde: "present (entry (mem s1) pd (pdi va))" and wf1: "wf_pd s1 xs1 pd"
    and xs1: "xs1 = (if present (entry (mem s) pd (pdi va)) then xs else tl xs)"
    and s1: "s1 = (if present (entry (mem s) pd (pdi va)) then s else walk_state (hd xs) pd (pdi va) s)"
    and pte: "\<And>d t. d < 1024 \<Longrightarrow> t < 1024 \<Longrightarrow> d \<noteq> UVPT_D \<Longrightarrow> pte_at (mem s1) pd d t = pte_at (mem s) pd d t"
    and ent: "\<And>d. d < 1024 \<Longrightarrow> d \<noteq> pdi va \<Longrightarrow> entry (mem s1) pd d = entry (mem s) pd d"
    by (rule walk_ok [OF wf d mem]) blast
  let ?f = "frame_of (entry (mem s1) pd (pdi va))"
  let ?v = "pa OR PTE_P OR perm"
  let ?s2 = "s1\<lparr>mem := set_entry ?f (pti va) ?v (mem s1)\<rparr>"
  have f: "?f < 65536" using wf_pdD(6) [OF wf1 PDX_bound pde] .
  have "boot_map_loop (Suc n) (kva pd) va pa perm s
      = boot_map_loop n (kva pd) (va + PGSIZE) (pa + PGSIZE) perm ?s2"
    using w slot_nonzero [OF f PTX_bound] kstore_entry [OF f PTX_bound, of va ?v s1] by simp
  moreover have "xs1 = drop ?c xs" by (simp add: xs1 drop_Suc)
  then have "wf_pd ?s2 (drop ?c xs) pd" using table_store_wf [OF wf1 PDX_bound d pde PTX_bound] by simp
  moreover have "?c \<le> length xs" using mem by (cases xs) auto
  moreover have "missing (mem ?s2) pd (va + PGSIZE) n = missing (mem s1) pd (va + PGSIZE) n"
    by (rule missing_cong) (use table_store_entry [OF wf1 PDX_bound d pde PTX_bound] in simp)
  then have "missing (mem s) pd va (Suc n) = ?c + missing (mem ?s2) pd (va + PGSIZE) n"
    using missing_step [OF ent pde, of n] by simp
  moreover have "pte_at (mem ?s2) pd d' t = (if d' = pdi va \<and> t = pti va then ?v else pte_at (mem s) pd d' t)"
    if "d' < 1024" "t < 1024" "d' \<noteq> UVPT_D" for d' t
    using table_store_pte [OF wf1 PDX_bound d pde PTX_bound that] pte [OF that] by simp
  moreover have "tlb ?s2 = tlb s" "length (pages ?s2) = length (pages s)" by (simp_all add: s1 walk_state_def)
  moreover have "pages ?s2 ! i = pages s ! i" if "i \<notin> set (take ?c xs)" for i
    using that mem by (cases xs) (auto simp: s1 walk_state_def split: if_splits)
  ultimately show ?thesis by (intro exI [of _ ?s2] exI [of _ ?c] conjI allI impI)
qed

lemma boot_map_loop_spec:
  assumes "wf_pd s xs pd" and "\<And>k. k < n \<Longrightarrow> fst (nth_slot va k) \<noteq> UVPT_D" and "n \<le> 2 ^ 20"
  shows "if missing (mem s) pd va n \<le> length xs
    then \<exists>s'. boot_map_loop n (kva pd) va pa perm s = Inr s'
      \<and> wf_pd s' (drop (missing (mem s) pd va n) xs) pd \<and> mapped n pd va pa perm s s'
      \<and> tlb s' = tlb s \<and> length (pages s') = length (pages s)
      \<and> (\<forall>i. i \<notin> set (take (missing (mem s) pd va n) xs) \<longrightarrow> pages s' ! i = pages s ! i)
    else boot_map_loop n (kva pd) va pa perm s
      = Inl (Panic (''boot_map_region:out ouf memory!'' @ [CHR 0x0A]))"
  using assms
proof (induction n arbitrary: va pa s xs)
  case 0
  then show ?case by (simp add: missing_def mapped_def)
next
  case (Suc n)
  note wf = Suc.prems(1)
  have d: "pdi va \<noteq> UVPT_D" using Suc.prems(2) [of 0] by (simp add: nth_slot_def)
  have rest: "\<And>k. k < n \<Longrightarrow> fst (nth_slot (va + PGSIZE) k) \<noteq> UVPT_D"
    using Suc.prems(2) [of "Suc k" for k] by (simp add: nth_slot_Suc)
  show ?case
  proof (cases "present (entry (mem s) pd (pdi va)) \<or> xs \<noteq> []")
    case False
    have "0 < missing (mem s) pd va (Suc n)"
      unfolding missing_Suc using False by (subst card_gt_0_iff) auto
    then show ?thesis using False walk_no_memory [of s pd va] wf by simp
  next
    case True
    from boot_map_step [OF wf d this, of n pa perm] obtain s2 c where
      step: "boot_map_loop (Suc n) (kva pd) va pa perm s = boot_map_loop n (kva pd) (va + PGSIZE) (pa + PGSIZE) perm s2"
      and wf2: "wf_pd s2 (drop c xs) pd" and c: "c \<le> length xs"
      and need: "missing (mem s) pd va (Suc n) = c + missing (mem s2) pd (va + PGSIZE) n"
      and first: "\<And>d' t. d' < 1024 \<Longrightarrow> t < 1024 \<Longrightarrow> d' \<noteq> UVPT_D \<Longrightarrow> pte_at (mem s2) pd d' t
        = (if d' = pdi va \<and> t = pti va then pa OR PTE_P OR perm else pte_at (mem s) pd d' t)"
      and same: "tlb s2 = tlb s" "length (pages s2) = length (pages s)"
        "\<forall>i. i \<notin> set (take c xs) \<longrightarrow> pages s2 ! i = pages s ! i" by metis
    let ?miss = "missing (mem s2) pd (va + PGSIZE) n"
    have le: "missing (mem s) pd va (Suc n) \<le> length xs \<longleftrightarrow> ?miss \<le> length (drop c xs)"
      using need c by auto
    note IH = Suc.IH [OF wf2 rest, of "pa + PGSIZE"]
    show ?thesis
    proof (cases "?miss \<le> length (drop c xs)")
      case False
      then show ?thesis using IH Suc.prems(3) unfolding step le by simp
    next
      case True
      then obtain s' where s': "boot_map_loop n (kva pd) (va + PGSIZE) (pa + PGSIZE) perm s2 = Inr s'"
        "wf_pd s' (drop ?miss (drop c xs)) pd" "mapped n pd (va + PGSIZE) (pa + PGSIZE) perm s2 s'"
        "tlb s' = tlb s2" "length (pages s') = length (pages s2)"
        "\<forall>i. i \<notin> set (take ?miss (drop c xs)) \<longrightarrow> pages s' ! i = pages s2 ! i"
        using IH Suc.prems(3) by auto
      have "mapped (Suc n) pd va pa perm s s'"
        using mapped_Suc [OF s'(3) first Suc.prems(3) d] by blast
      moreover have "\<forall>i. i \<notin> set (take (missing (mem s) pd va (Suc n)) xs) \<longrightarrow> pages s' ! i = pages s ! i"
        unfolding need take_add using s'(6) same(3) by simp
      ultimately show ?thesis
        using True c s'(1,2,4,5) same(1,2) unfolding le step need by (auto simp: add.commute)
    qed
  qed
qed

text \<open>The page count of \<open>boot_map_region\<close> is the size rounded up.\<close>

lemma boot_map_region_pages:
  "boot_map_region pgdir va sz pa perm s = boot_map_loop ((unat sz + 4095) div 4096) pgdir va pa perm s"
proof -
  have d: "unat (sz div PGSIZE) = unat sz div 4096" "unat (sz mod PGSIZE) = unat sz mod 4096"
    by (simp_all add: PGSIZE_def unat_div unat_mod)
  have z: "sz mod PGSIZE \<noteq> 0 \<longleftrightarrow> unat sz mod 4096 \<noteq> 0"
    using d(2) by (metis unat_eq_zero)
  have "unat (sz div PGSIZE + 1) = unat sz div 4096 + 1"
    using d(1) u32_bound [of sz] unat_less_add [of "sz div PGSIZE" 1] by simp
  moreover have "(unat sz + 4095) div 4096 = unat sz div 4096 + (if unat sz mod 4096 \<noteq> 0 then 1 else 0)"
  proof -
    have "(r + 4095) div 4096 = (if r \<noteq> 0 then 1 else 0)" if "r < 4096" for r :: nat
      using that by (cases r) (simp_all add: div_nat_eqI)
    then show ?thesis by (subst div_add1_eq) simp
  qed
  ultimately show ?thesis unfolding boot_map_region_def Let_def z using d(1) by simp
qed

section \<open>Translating\<close>

lemma check_va2pa_pte:
  assumes wf: "wf_pd s xs pd"
  shows "check_va2pa (kva pd) va s = Inr
    (let e = pte_at (mem s) pd (pdi va) (pti va) in if present e then PTE_ADDR e else NOT 0)"
proof -
  have pd: "kload s (kva pd + 4 * PDX va) = Inr (entry (mem s) pd (pdi va))"
    using kload_entry [OF wf_pdD(4) [OF wf] PDX_bound, of s va] by simp
  show ?thesis
  proof (cases "present (entry (mem s) pd (pdi va))")
    case True
    let ?f = "frame_of (entry (mem s) pd (pdi va))"
    have "kload s (kva ?f + 4 * PTX va) = Inr (entry (mem s) ?f (pti va))"
      using kload_entry [OF wf_pdD(6) [OF wf PDX_bound True] PTX_bound, of s va] by simp
    then show ?thesis
      using pd True KADDR_frame [OF wf_pdD(2) [OF wf] wf_pdD(7) [OF wf PDX_bound True]]
      by (simp add: check_va2pa_def pte_at_def Let_def)
  qed (use pd in \<open>simp add: check_va2pa_def pte_at_def Let_def\<close>)
qed

lemma PTE_ADDR_page:
  assumes "pp < 2 ^ 20" and "unat perm < 4096"
  shows "PTE_ADDR (page2pa pp OR perm OR PTE_P) = page2pa pp"
proof -
  have "perm OR PTE_P < 4096"
    using flags_or_less [of perm PTE_P] assms(2) by (simp add: PTE_P_def word_less_nat_alt)
  then show ?thesis using PTE_ADDR_or [of "page2pa pp"] by simp
qed

text \<open>Mapped pages read back.\<close>

lemma mapped_va2pa:
  assumes wf: "wf_pd s' ys pd" and m: "mapped n pd va pa perm s s'" and k: "k < n"
    and pa: "unat pa mod 4096 = 0" and perm: "unat perm < 4096"
  shows "check_va2pa (kva pd) (va + of_nat k * PGSIZE) s' = Inr (pa + of_nat k * PGSIZE)"
proof -
  let ?p = "pa + of_nat k * PGSIZE"
  have "PTE_P OR perm < 4096"
    using flags_or_less [of PTE_P perm] perm by (simp add: PTE_P_def word_less_nat_alt)
  moreover have "page_aligned ?p" using page_step_aligned [of pa k] pa by (simp add: page_aligned_dvd mod_0_imp_dvd)
  ultimately have "PTE_ADDR (?p OR PTE_P OR perm) = ?p" using PTE_ADDR_or [of ?p] by (simp only: or.assoc)
  then show ?thesis
    using mappedD(1) [OF m k] unfolding check_va2pa_pte [OF wf] by (simp add: nth_slot_def Let_def)
qed

section \<open>A small machine\<close>

text \<open>
  The five-page machine of the allocator, with page 1 as an empty directory; in
  \<open>demo_mapped\<close> page 2 is mapped at virtual address 4096 through the page table in page 3,
  and a directory reference is held by the caller.
\<close>

definition demo_ext :: "nat \<Rightarrow> nat" where "demo_ext i = (if i < 2 then 1 else 0)"

lemma entry_zero [simp]: "entry (\<lambda>_. 0) f i = 0"
  by (simp add: entry_def load32_def)

lemma less_five: "(i :: nat) < 5 \<longleftrightarrow> i = 0 \<or> i = 1 \<or> i = 2 \<or> i = 3 \<or> i = 4"
  by auto

lemma demo_inv: "vm_inv demo [3, 4] 1 demo_ext" and demo_coherent: "coherent demo 1"
proof -
  have "wf_pd demo [3, 4] 1" using demo_free by (simp add: wf_pd_def) (simp add: demo_def)
  moreover have "pte_refs (mem demo) 1 i = 0" "pt_refs (mem demo) 1 i = 0" for i
    by (simp_all add: demo_def pte_refs_def pt_refs_def pte_at_def)
  moreover have "unat (pp_ref (pages demo ! i)) = demo_ext i" if "i < 5" for i
    using that by (auto simp: less_five demo_def demo_ext_def)
  moreover have "length (pages demo) = 5" "1 \<le> demo_ext 1" "1 \<le> demo_ext 0"
    "\<not> present (pte_at (mem demo) 1 d t)" for d t
    by (simp_all add: demo_def demo_ext_def pte_at_def)
  ultimately show "vm_inv demo [3, 4] 1 demo_ext" by (simp add: vm_inv_def)
  show "coherent demo 1" by (simp add: coherent_def demo_def)
qed

lemma demo_slot: "(pdi 4096, pti 4096) \<in> user_slots" "pdi 4096 = 0" "pti 4096 = 1"
  by (simp_all add: user_slots_def unat_PDX unat_PTX UTOP_D_def)

definition demo_table :: kstate where "demo_table = walk_state 3 1 0 demo"

definition demo_mapped :: kstate where
  "demo_mapped = (incref_state 2 demo_table)\<lparr>mem := set_entry 3 1 (page2pa 2 OR PTE_U OR PTE_P) (mem demo_table)\<rparr>"

lemma demo_table: "vm_inv demo_table [4] 1 demo_ext" "coherent demo_table 1"
  "entry (mem demo_table) 1 0 = new_pde 3" "entry (mem demo_table) 3 1 = 0"
proof -
  have no: "\<not> present (entry (mem demo) 1 0)" by (simp add: demo_def)
  show "vm_inv demo_table [4] 1 demo_ext"
    unfolding demo_table_def
    by (rule vm_inv_walk [OF demo_inv _ _ no]) (simp_all add: UVPT_D_def)
  show "coherent demo_table 1"
    by (simp add: demo_table_def coherent_def walk_state_def demo_def)
  note e = walk_state_entry [OF vm_invD(1) [OF demo_inv], of 0]
  show "entry (mem demo_table) 1 0 = new_pde 3" "entry (mem demo_table) 3 1 = 0"
    unfolding demo_table_def using e [of 1 0] e [of 3 1] by simp_all
qed

lemma demo_mapped: "vm_inv demo_mapped [4] 1 demo_ext" "coherent demo_mapped 1"
  "present (entry (mem demo_mapped) 1 0)" "present (pte_at (mem demo_mapped) 1 0 1)"
  "frame_of (pte_at (mem demo_mapped) 1 0 1) = 2"
proof -
  let ?v = "page2pa 2 OR PTE_U OR PTE_P"
  have len: "length (pages demo_table) = 5" "pages demo_table ! 2 = \<lparr>pp_link = None, pp_ref = 0\<rparr>"
    by (simp_all add: demo_table_def walk_state_def demo_def)
  have v: "present ?v" by (rule present_new_pte)
  have fv: "frame_of ?v = 2" using frame_of_page [of "PTE_U OR PTE_P" 2]
    by (simp add: PTE_P_def PTE_U_def or.assoc)
  have slot: "(0, 1) \<in> user_slots" by (simp add: user_slots_def UTOP_D_def)
  have pde: "present (entry (mem demo_table) 1 0)" "frame_of (entry (mem demo_table) 1 0) = 3"
    using demo_table(3) new_pde(1) [of 3] new_pde(2) [of 3] by simp_all
  have up: "vm_inv (incref_state 2 demo_table) [4] 1 (demo_ext(2 := demo_ext 2 + 1))"
    by (rule vm_inv_incref [OF demo_table(1)]) (simp_all add: len)
  have [simp]: "mem (incref_state 2 demo_table) = mem demo_table"
    "length (pages (incref_state 2 demo_table)) = 5" "tlb (incref_state 2 demo_table) = (\<lambda>_. None)"
    using len by (simp_all add: incref_state_def demo_table_def walk_state_def demo_def)
  have e: "\<not> present (pte_at (mem demo_table) 1 0 1)"
    using pde demo_table(4) by (simp add: pte_at_def)
  show "vm_inv demo_mapped [4] 1 demo_ext"
    using vm_inv_install [OF up slot _ _ v fv] pde e
    by (simp add: demo_mapped_def demo_ext_def)
  show "coherent demo_mapped 1" by (simp add: coherent_def demo_mapped_def)
  have p: "pte_at (mem demo_mapped) 1 0 1 = ?v"
    using table_store_pte [OF vm_invD(1) [OF demo_table(1)] _ _ pde(1), of 1 0 1 ?v] pde(2)
    by (simp add: demo_mapped_def UVPT_D_def)
  show "present (pte_at (mem demo_mapped) 1 0 1)" "frame_of (pte_at (mem demo_mapped) 1 0 1) = 2"
    using p v fv by simp_all
  show "present (entry (mem demo_mapped) 1 0)"
    using table_store_entry [OF vm_invD(1) [OF demo_table(1)] _ _ pde(1), of 1 0 ?v] pde
    by (simp add: demo_mapped_def UVPT_D_def)
qed

section \<open>Contracts\<close>

text \<open>C1: \<open>page_insert\<close> either reports \<open>-E_NO_MEM\<close> and changes nothing, which happens
  exactly when the page table is missing and no page is free, or returns 0 and establishes
  the mapping with the given permissions, leaves every other user mapping alone, keeps the
  reference counts, the free list and the page tables consistent, and leaves no stale TLB
  entry; re-inserting a page at its own address is not special.\<close>

theorem page_insert_contract:
  assumes "vm_inv s xs pd ext" and "coherent s pd" and "(pdi va, pti va) \<in> user_slots"
    and "pp < length (pages s)" and "pp \<notin> set xs"
    and "unat (pp_ref (pages s ! pp)) < 65535" and "unat perm < 4096"
  shows "if \<not> present (entry (mem s) pd (pdi va)) \<and> xs = []
    then page_insert (kva pd) pp va perm s = Inr (- E_NO_MEM, s)
    else \<exists>s' xs'. page_insert (kva pd) pp va perm s = Inr (0, s') \<and> vm_inv s' xs' pd ext
      \<and> coherent s' pd \<and> pte_at (mem s') pd (pdi va) (pti va) = page2pa pp OR perm OR PTE_P
      \<and> (\<forall>(d, t) \<in> user_slots - {(pdi va, pti va)}.
            pte_at (mem s') pd d t = pte_at (mem s) pd d t)"
proof (cases "\<not> present (entry (mem s) pd (pdi va)) \<and> xs = []")
  case True
  then show ?thesis using page_insert_no_memory vm_invD(1) [OF assms(1)] by auto
next
  case False
  then have "present (entry (mem s) pd (pdi va)) \<or> xs \<noteq> []" by blast
  from page_insert_maps [OF assms(1-3) this assms(4-7)] show ?thesis
    using False by (simp only: if_False) blast
qed

lemma page_insert_contract_witness:
  "\<exists>s' xs'. page_insert (kva 1) 2 4096 PTE_U demo = Inr (0, s') \<and> vm_inv s' xs' 1 demo_ext
     \<and> coherent s' 1 \<and> pte_at (mem s') 1 0 1 = page2pa 2 OR PTE_U OR PTE_P
     \<and> (\<forall>(d, t) \<in> user_slots - {(0, 1)}. pte_at (mem s') 1 d t = pte_at (mem demo) 1 d t)"
proof -
  have "2 < length (pages demo)" "2 \<notin> set [3, 4 :: nat]" "unat (pp_ref (pages demo ! 2)) < 65535"
    "unat PTE_U < 4096"
    by (simp_all add: demo_def PTE_U_def)
  from page_insert_contract [OF demo_inv demo_coherent demo_slot(1) this]
  show ?thesis unfolding demo_slot(2,3) by simp
qed

text \<open>C2: \<open>page_remove\<close> of a mapped address clears the entry and the TLB for it, drops
  one reference of the page, frees the page exactly when that was the last one, leaves all
  other user mappings alone, and keeps counts, tables and free list consistent.\<close>

theorem page_remove_contract:
  assumes "vm_inv s xs pd ext" and "coherent s pd" and "(pdi va, pti va) \<in> user_slots"
    and "present (pte_at (mem s) pd (pdi va) (pti va))"
    and "q = frame_of (pte_at (mem s) pd (pdi va) (pti va))"
  shows "\<exists>s'. page_remove (kva pd) va s = Inr s'
    \<and> vm_inv s' (if pp_ref (pages s ! q) = 1 then q # xs else xs) pd ext \<and> coherent s' pd
    \<and> pp_ref (pages s' ! q) = pp_ref (pages s ! q) - 1 \<and> tlb s' (PGNUM va) = None
    \<and> pte_at (mem s') pd (pdi va) (pti va) = 0
    \<and> (\<forall>(d, t) \<in> user_slots - {(pdi va, pti va)}. pte_at (mem s') pd d t = pte_at (mem s) pd d t)"
proof -
  note wf = vm_invD(1) [OF assms(1)]
  have pde: "present (entry (mem s) pd (pdi va))"
    using assms(4) by (auto simp: pte_at_def Let_def split: if_splits)
  note e = remove_state_entries [OF wf assms(3) pde]
  have q: "q < length (pages s)" using vm_invD(4) [OF assms(1,3,4)] assms(5) by simp
  have "pages (remove_state pd va s) = pages (drop_ref q s)"
    using pde by (simp add: remove_state_def assms(5) pte_at_def Let_def)
  then have "pp_ref (pages (remove_state pd va s) ! q) = pp_ref (pages s ! q) - 1"
    using drop_ref_ref [OF q, of q] by simp
  moreover have "\<forall>(d, t) \<in> user_slots - {(pdi va, pti va)}.
      pte_at (mem (remove_state pd va s)) pd d t = pte_at (mem s) pd d t"
    using e(1) by (auto split: if_splits)
  moreover have "vm_inv (remove_state pd va s) (if pp_ref (pages s ! q) = 1 then q # xs else xs) pd ext"
    using vm_inv_remove(2) [OF assms(1,3,4)] unfolding drop_free_def assms(5) [symmetric] .
  moreover have "tlb (remove_state pd va s) (PGNUM va) = None"
    "pte_at (mem (remove_state pd va s)) pd (pdi va) (pti va) = 0"
    using e(1) [OF assms(3)] e(3) by simp_all
  ultimately show ?thesis
    using vm_inv_remove(1) [OF assms(1,3,4)] remove_state_coherent [OF wf assms(3) pde assms(2)]
    by blast
qed

lemma page_remove_contract_witness:
  "\<exists>s'. page_remove (kva 1) 4096 demo_mapped = Inr s' \<and> vm_inv s' [2, 4] 1 demo_ext
     \<and> pte_at (mem s') 1 0 1 = 0"
proof -
  have r: "pp_ref (pages demo_mapped ! 2) = 1"
    by (simp add: demo_mapped_def incref_state_def demo_table_def walk_state_def demo_def)
  have "present (pte_at (mem demo_mapped) 1 (pdi 4096) (pti 4096))"
    using demo_mapped(4) unfolding demo_slot(2,3) .
  from page_remove_contract [OF demo_mapped(1,2) demo_slot(1) this refl]
  show ?thesis unfolding demo_slot(2,3) demo_mapped(5) r by auto
qed

text \<open>C15: The processor's view after a successful insertion: \<open>check_va2pa\<close> at the address
  returns the page inserted, \<open>page_lookup\<close> that page with the address of its entry in the page
  table, and the page's count is one higher, unless the address mapped this page already, when
  it is unchanged. Removing the page again takes one from the count and makes the address
  translate to nothing.\<close>

theorem insert_lookup_remove:
  assumes "vm_inv s xs pd ext" and "coherent s pd" and "(pdi va, pti va) \<in> user_slots"
    and "present (entry (mem s) pd (pdi va)) \<or> xs \<noteq> []"
    and "pp < length (pages s)" and "pp \<notin> set xs"
    and "unat (pp_ref (pages s ! pp)) < 65535" and "unat perm < 4096"
  shows "\<exists>s' s''. page_insert (kva pd) pp va perm s = Inr (0, s')
    \<and> check_va2pa (kva pd) va s' = Inr (page2pa pp)
    \<and> page_lookup (kva pd) va s'
        = Inr (Some (pp, kva (frame_of (entry (mem s') pd (pdi va))) + 4 * of_nat (pti va)), s')
    \<and> pp_ref (pages s' ! pp) = pp_ref (pages s ! pp) + (if maps_page s pd va pp then 0 else 1)
    \<and> page_remove (kva pd) va s' = Inr s'' \<and> check_va2pa (kva pd) va s'' = Inr (NOT 0)
    \<and> pp_ref (pages s'' ! pp) = pp_ref (pages s' ! pp) - 1"
proof -
  from page_insert_maps [OF assms] obtain s' xs' where
    i: "page_insert (kva pd) pp va perm s = Inr (0, s')" "vm_inv s' xs' pd ext" "coherent s' pd"
    and p: "pte_at (mem s') pd (pdi va) (pti va) = page2pa pp OR perm OR PTE_P"
    and ref: "pp_ref (pages s' ! pp) = pp_ref (pages s ! pp) + (if maps_page s pd va pp then 0 else 1)"
    by blast
  note wf' = vm_invD(1) [OF i(2)]
  have pp: "pp < 2 ^ 20" using wf_pages_lt [OF wf_pdD(2) [OF vm_invD(1) [OF assms(1)]] assms(5)] by simp
  have pres: "present (pte_at (mem s') pd (pdi va) (pti va))" unfolding p by (rule present_new_pte)
  have pde: "present (entry (mem s') pd (pdi va))"
    using pres by (auto simp: pte_at_def Let_def split: if_splits)
  have fr: "frame_of (pte_at (mem s') pd (pdi va) (pti va)) = pp"
    unfolding p frame_of_def using PTE_ADDR_page [OF pp assms(8)] PGNUM_page2pa [OF pp]
    by (metis PGNUM_PTE_ADDR)
  have chk: "check_va2pa (kva pd) va s' = Inr (page2pa pp)"
    unfolding check_va2pa_pte [OF wf'] Let_def using pres PTE_ADDR_page [OF pp assms(8)] by (simp add: p)
  have lt: "frame_of (pte_at (mem s') pd (pdi va) (pti va)) < length (pages s')"
    using vm_invD(4) [OF i(2) assms(3) pres] .
  note look = page_lookup_table [OF wf' pde lt, unfolded fr]
  note rem = vm_inv_remove [OF i(2) assms(3) pres]
  have "pte_at (mem (remove_state pd va s')) pd (pdi va) (pti va) = 0"
    using remove_state_entries(1) [OF wf' assms(3) pde assms(3)] by simp
  then have "check_va2pa (kva pd) va (remove_state pd va s') = Inr (NOT 0)"
    unfolding check_va2pa_pte [OF vm_invD(1) [OF rem(2)]] by simp
  moreover have "pages (remove_state pd va s') = pages (drop_ref pp s')"
    using pde fr by (simp add: remove_state_def pte_at_def Let_def)
  then have "pp_ref (pages (remove_state pd va s') ! pp) = pp_ref (pages s' ! pp) - 1"
    using drop_ref_ref [of pp s' pp] lt fr by simp
  ultimately show ?thesis using i(1) chk look ref rem(1) by blast
qed

lemma insert_lookup_remove_witness:
  "\<exists>s' s''. page_insert (kva 1) 2 4096 PTE_U demo = Inr (0, s')
    \<and> check_va2pa (kva 1) 4096 s' = Inr (page2pa 2)
    \<and> page_lookup (kva 1) 4096 s' = Inr (Some (2, kva (frame_of (entry (mem s') 1 0)) + 4), s')
    \<and> pp_ref (pages s' ! 2) = 1
    \<and> page_remove (kva 1) 4096 s' = Inr s'' \<and> check_va2pa (kva 1) 4096 s'' = Inr (NOT 0)
    \<and> pp_ref (pages s'' ! 2) = 0"
proof -
  have h: "2 < length (pages demo)" "2 \<notin> set [3, 4 :: nat]" "unat (pp_ref (pages demo ! 2)) < 65535"
    "unat PTE_U < 4096"
    by (simp_all add: demo_def PTE_U_def)
  have n: "present (entry (mem demo) 1 (pdi 4096)) \<or> [3, 4 :: nat] \<noteq> []" by simp
  have r: "\<not> maps_page demo 1 4096 2" "pp_ref (pages demo ! 2) = 0"
    by (simp_all add: maps_page_def pte_at_def demo_def)
  from insert_lookup_remove [OF demo_inv demo_coherent demo_slot(1) n h] r
  show ?thesis unfolding demo_slot(2,3) by (auto simp del: of_nat_unat)
qed

text \<open>\<open>page_remove\<close> of an address that maps nothing. If its page table does not exist,
  nothing happens; if the table exists and the entry is 0, the code still takes the entry's
  frame, which is page 0: the reserved first page loses a reference, and on its last
  reference it is put on the free list.\<close>

theorem page_remove_unmapped:
  assumes "vm_inv s xs pd ext" and "(pdi va, pti va) \<in> user_slots"
    and "pte_at (mem s) pd (pdi va) (pti va) = 0"
  shows "if present (entry (mem s) pd (pdi va))
    then \<exists>s'. page_remove (kva pd) va s = Inr s' \<and> pp_ref (pages s' ! 0) = pp_ref (pages s ! 0) - 1
      \<and> (pp_ref (pages s ! 0) = 1 \<longrightarrow> page_free_list s' = Some 0)
    else page_remove (kva pd) va s = Inr s"
proof -
  note wf = vm_invD(1) [OF assms(1)]
  show ?thesis
  proof (cases "present (entry (mem s) pd (pdi va))")
    case False
    then show ?thesis
      using page_lookup_absent [OF wf False] by (simp add: page_remove_def)
  next
    case True
    have zero: "frame_of (pte_at (mem s) pd (pdi va) (pti va)) = 0"
      by (simp add: assms(3) frame_of_def PGNUM_def)
    have len: "0 < length (pages s)" using wf_pdD(3) [OF wf] by (cases "pages s") auto
    have "0 \<notin> set xs" using wf_pdD(1) [OF wf] by (simp add: free_inv_def)
    then have call: "page_remove (kva pd) va s = Inr (remove_state pd va s)"
      using page_remove_table [OF wf True] zero len by simp
    have e: "entry (mem s) (frame_of (entry (mem s) pd (pdi va))) (pti va) = pte_at (mem s) pd (pdi va) (pti va)"
      using True by (simp add: pte_at_def)
    have st: "pages (remove_state pd va s) = pages (drop_ref 0 s)"
      "page_free_list (remove_state pd va s) = page_free_list (drop_ref 0 s)"
      unfolding remove_state_def Let_def e zero by simp_all
    have "pp_ref (pages s ! 0) = 1 \<longrightarrow> page_free_list (drop_ref 0 s) = Some 0"
      by (simp add: drop_ref_def free_state_def)
    then show ?thesis using call st drop_ref_ref [OF len, of 0] True by simp
  qed
qed

lemma page_remove_unmapped_witness:
  "\<exists>s'. page_remove (kva 1) 4096 demo_table = Inr s' \<and> pp_ref (pages s' ! 0) = 0
     \<and> page_free_list s' = Some 0"
proof -
  have "present (entry (mem demo_table) 1 (pdi 4096))"
    unfolding demo_slot(2) demo_table(3) using new_pde(1) [of 3] by simp
  moreover have "pte_at (mem demo_table) 1 (pdi 4096) (pti 4096) = 0"
    unfolding demo_slot(2,3) pte_at_def demo_table(3) using new_pde(2) [of 3] demo_table(4) by simp
  moreover have "pp_ref (pages demo_table ! 0) = 1"
    by (simp add: demo_table_def walk_state_def demo_def)
  ultimately show ?thesis
    using page_remove_unmapped [OF demo_table(1) demo_slot(1)] by simp
qed

text \<open>C16: \<open>boot_map_region\<close> maps every page of the region, rounded up, to its frame with
  the given permissions and leaves every other mapping alone; it takes one free page per
  missing page table, in free-list order, changes no other page's count and panics exactly
  when the free pages do not suffice. With an aligned physical address and permission bits
  below 4096, \<open>check_va2pa\<close> then reads the frame of every page back.\<close>

theorem boot_map_region_contract:
  assumes "wf_pd s xs pd" and "n = (unat sz + 4095) div 4096"
    and "\<And>k. k < n \<Longrightarrow> fst (nth_slot va k) \<noteq> UVPT_D"
  shows "if missing (mem s) pd va n \<le> length xs
    then \<exists>s'. boot_map_region (kva pd) va sz pa perm s = Inr s'
      \<and> wf_pd s' (drop (missing (mem s) pd va n) xs) pd \<and> mapped n pd va pa perm s s'
      \<and> tlb s' = tlb s
      \<and> (\<forall>i. i \<notin> set (take (missing (mem s) pd va n) xs) \<longrightarrow> pages s' ! i = pages s ! i)
      \<and> (unat pa mod 4096 = 0 \<longrightarrow> unat perm < 4096 \<longrightarrow>
          (\<forall>k < n. check_va2pa (kva pd) (va + of_nat k * PGSIZE) s' = Inr (pa + of_nat k * PGSIZE)))
    else boot_map_region (kva pd) va sz pa perm s
      = Inl (Panic (''boot_map_region:out ouf memory!'' @ [CHR 0x0A]))"
proof -
  have "n \<le> 2 ^ 20" using assms(2) u32_bound [of sz] by simp
  from boot_map_loop_spec [OF assms(1,3) this, of pa perm]
  show ?thesis unfolding boot_map_region_pages assms(2) [symmetric]
    by (auto split: if_splits intro: mapped_va2pa)
qed

lemma boot_map_region_contract_witness:
  "\<exists>s'. boot_map_region (kva 1) KERNBASE 4096 0 PTE_W demo = Inr s'
     \<and> pte_at (mem s') 1 960 0 = PTE_P OR PTE_W \<and> check_va2pa (kva 1) KERNBASE s' = Inr 0"
proof -
  have n: "1 = (unat (4096 :: u32) + 4095) div 4096" by simp
  have s0: "nth_slot KERNBASE 0 = (960, 0)"
    by (simp add: nth_slot_def unat_PDX unat_PTX KERNBASE_def)
  have "missing (mem demo) 1 KERNBASE 1 \<le> length [3, 4 :: nat]"
    by (simp add: missing_def lessThan_Suc demo_def)
  moreover have "fst (nth_slot KERNBASE k) \<noteq> UVPT_D" if "k < 1" for k
    using that s0 by (simp add: UVPT_D_def)
  moreover have "unat PTE_W < 4096" by (simp add: PTE_W_def)
  ultimately obtain s' where b: "boot_map_region (kva 1) KERNBASE 4096 0 PTE_W demo = Inr s'"
    and m: "mapped 1 1 KERNBASE 0 PTE_W demo s'" and c: "check_va2pa (kva 1) KERNBASE s' = Inr 0"
    using boot_map_region_contract [OF vm_invD(1) [OF demo_inv] n, of KERNBASE 0 PTE_W] by auto
  show ?thesis using b c mappedD(1) [OF m, of 0] by (auto simp: s0)
qed

end
