(* ===== verification/Kdebug.thy ===== *)
theory Kdebug
  imports CPrintf
begin

text \<open>
  Debugging information, \<^verbatim>\<open>kern/kdebug.c\<close>: the binary search in the table of stabs and the
  lookup of an instruction address.

  A \<^verbatim>\<open>struct Stab *\<close> indexed by an \<^verbatim>\<open>int\<close> is a function from integers to stabs, which
  \<open>stab_at\<close> reads from memory; the indices of the search are \<^verbatim>\<open>int\<close>s far from overflow.

  Reads of memory are total here. For an address of the kernel the tables are the kernel's own.
  For a user address the code reads \<^verbatim>\<open>USTABDATA\<close> and the tables it points to without
  the checks that two comments ask for (kdebug.c:142 and 151), and on the machine
  a read of an unmapped address there faults; the model returns a value, so the property of
  \<open>debuginfo_eip\<close> below is stated for kernel addresses only.
\<close>

record stab =
  n_strx :: u32
  n_type :: u8
  n_other :: u8
  n_desc :: u16
  n_value :: u32

definition stab_at :: "memory \<Rightarrow> u32 \<Rightarrow> int \<Rightarrow> stab" where
  "stab_at m stabs i =
     (let a = stabs + 12 * of_int i in
      \<lparr>n_strx = load32 m a, n_type = m (a + 4), n_other = m (a + 5),
       n_desc = ucast (m (a + 6)) OR push_bit 8 (ucast (m (a + 7))), n_value = load32 m (a + 8)\<rparr>)"

definition N_FUN :: u8 where "N_FUN = 0x24"
definition N_SLINE :: u8 where "N_SLINE = 0x44"
definition N_SO :: u8 where "N_SO = 0x64"
definition N_SOL :: u8 where "N_SOL = 0x84"
definition N_PSYM :: u8 where "N_PSYM = 0xA0"

section \<open>The binary search\<close>

text \<open>The inner loop: back from \<open>m\<close> to the nearest stab of the type, or below \<open>l\<close>.\<close>

function scan_back :: "(int \<Rightarrow> stab) \<Rightarrow> u8 \<Rightarrow> int \<Rightarrow> int \<Rightarrow> int" where
  "scan_back st ty l m = (if m \<ge> l \<and> n_type (st m) \<noteq> ty then scan_back st ty l (m - 1) else m)"
  by pat_completeness auto
termination by (relation "measure (\<lambda>(st, ty, l, m). nat (m - l + 1))") auto

declare scan_back.simps [simp del]

lemma scan_back_le: "scan_back st ty l m \<le> m"
proof (induction st ty l m rule: scan_back.induct)
  case (1 st ty l m)
  then show ?case by (subst scan_back.simps) auto
qed

lemma scan_back_type: "l \<le> scan_back st ty l m \<Longrightarrow> n_type (st (scan_back st ty l m)) = ty"
proof (induction st ty l m rule: scan_back.induct)
  case (1 st ty l m)
  then show ?case by (cases "m \<ge> l \<and> n_type (st m) \<noteq> ty") (simp_all add: scan_back.simps [of st ty l m])
qed

lemma scan_back_between:
  "l \<le> i \<Longrightarrow> scan_back st ty l m < i \<Longrightarrow> i \<le> m \<Longrightarrow> n_type (st i) \<noteq> ty"
proof (induction st ty l m rule: scan_back.induct)
  case (1 st ty l m)
  show ?case
  proof (cases "m \<ge> l \<and> n_type (st m) \<noteq> ty")
    case True
    then show ?thesis using 1 by (cases "i = m") (simp_all add: scan_back.simps [of st ty l m])
  next
    case False
    then show ?thesis using "1.prems" by (simp add: scan_back.simps [of st ty l m])
  qed
qed

text \<open>The next probe of the range hits a stab that starts at the address.\<close>

definition exact_hit :: "(int \<Rightarrow> stab) \<Rightarrow> u8 \<Rightarrow> int \<Rightarrow> int \<Rightarrow> u32 \<Rightarrow> bool" where
  "exact_hit st ty l r addr \<longleftrightarrow> n_value (st (scan_back st ty l ((l + r) div 2))) = addr"

text \<open>
  The loop works on \<open>l\<close>, \<open>r\<close>, \<open>addr\<close>, \<^verbatim>\<open>*region_left\<close>, \<^verbatim>\<open>*region_right\<close> and \<^verbatim>\<open>any_matches\<close>.
  It ends because an exact match that leaves the range as it is cannot come twice in a
  row: \<open>addr\<close> has been advanced past the stab's value.
\<close>

function stab_loop ::
    "(int \<Rightarrow> stab) \<Rightarrow> u8 \<Rightarrow> int \<Rightarrow> int \<Rightarrow> u32 \<Rightarrow> int \<Rightarrow> int \<Rightarrow> bool \<Rightarrow> int \<times> int \<times> bool" where
  "stab_loop st ty l r addr left right any =
     (if l \<le> r then
        let true_m = (l + r) div 2; m = scan_back st ty l true_m in
        if m < l then stab_loop st ty (true_m + 1) r addr left right any
        else if n_value (st m) < addr then stab_loop st ty (true_m + 1) r addr m right True
        else if n_value (st m) > addr then stab_loop st ty l (m - 1) addr left (m - 1) True
        else stab_loop st ty m r (addr + 1) m right True
      else (left, right, any))"
  by pat_completeness auto

termination
proof (relation "measure (\<lambda>(st, ty, l, r, addr, left, right, any).
    2 * nat (r - l + 1) + (if exact_hit st ty l r addr then 1 else 0))", goal_cases)
  case 1
  then show ?case by simp
next
  case (2 st ty l r addr left right any true_m m)
  then have "l \<le> true_m" "true_m \<le> r" by auto
  then show ?case by auto
next
  case (3 st ty l r addr left right any true_m m)
  then have "l \<le> true_m" "true_m \<le> r" by auto
  then show ?case by auto
next
  case (4 st ty l r addr left right any true_m m)
  then have "l \<le> true_m" "true_m \<le> r" "m \<le> true_m" using scan_back_le by auto
  then show ?case using 4 by auto
next
  case (5 st ty l r addr left right any true_m m)
  then have b: "l \<le> true_m" "true_m \<le> r" "m \<le> true_m" "l \<le> m" using scan_back_le by auto
  have v: "n_value (st m) = addr" using 5 by simp
  show ?case
  proof (cases "m = l")
    case True
    have "exact_hit st ty l r addr" using 5 v by (simp add: exact_hit_def)
    moreover have "\<not> exact_hit st ty l r (addr + 1)" using 5 v by (simp add: exact_hit_def)
    ultimately show ?thesis using True by simp
  next
    case False
    then show ?thesis using b by auto
  qed
qed

declare stab_loop.simps [simp del]

text \<open>The last loop: back from \<open>l\<close> to the nearest stab of the type above \<open>left\<close>.\<close>

function rightmost :: "(int \<Rightarrow> stab) \<Rightarrow> u8 \<Rightarrow> int \<Rightarrow> int \<Rightarrow> int" where
  "rightmost st ty left l = (if l > left \<and> n_type (st l) \<noteq> ty then rightmost st ty left (l - 1) else l)"
  by pat_completeness auto
termination by (relation "measure (\<lambda>(st, ty, left, l). nat (l - left))") auto

declare rightmost.simps [simp del]

text \<open>The values of \<^verbatim>\<open>*region_left\<close> and \<^verbatim>\<open>*region_right\<close> at the end.\<close>

definition stab_binsearch :: "(int \<Rightarrow> stab) \<Rightarrow> int \<Rightarrow> int \<Rightarrow> u8 \<Rightarrow> u32 \<Rightarrow> int \<times> int" where
  "stab_binsearch st region_left region_right ty addr =
     (let (left, right, any_matches) = stab_loop st ty region_left region_right addr region_left region_right False in
      if \<not> any_matches then (left, left - 1)
      else (rightmost st ty left right, right))"

section \<open>Lookup of an address\<close>

record eipdebuginfo =
  eip_file :: u32
  eip_line :: int
  eip_fn_name :: u32
  eip_fn_namelen :: int
  eip_fn_addr :: u32
  eip_fn_narg :: int

text \<open>The symbols the linker defines for the kernel's own table.\<close>

record stab_syms =
  STAB_BEGIN :: u32
  STAB_END :: u32
  STABSTR_BEGIN :: u32
  STABSTR_END :: u32

text \<open>Back from \<open>lline\<close> to the file name the line is in.\<close>

function find_file :: "(int \<Rightarrow> stab) \<Rightarrow> int \<Rightarrow> int \<Rightarrow> int" where
  "find_file st lfile lline =
     (if lline \<ge> lfile \<and> n_type (st lline) \<noteq> N_SOL \<and> (n_type (st lline) \<noteq> N_SO \<or> n_value (st lline) = 0)
      then find_file st lfile (lline - 1) else lline)"
  by pat_completeness auto
termination by (relation "measure (\<lambda>(st, lfile, lline). nat (lline - lfile + 1))") auto

declare find_file.simps [simp del]

text \<open>The parameters of the function follow its stab.\<close>

function count_args :: "(int \<Rightarrow> stab) \<Rightarrow> int \<Rightarrow> int \<Rightarrow> int \<Rightarrow> int" where
  "count_args st lline rfun narg =
     (if lline < rfun \<and> n_type (st lline) = N_PSYM then count_args st (lline + 1) rfun (narg + 1) else narg)"
  by pat_completeness auto
termination by (relation "measure (\<lambda>(st, lline, rfun, narg). nat (rfun - lline))") auto

declare count_args.simps [simp del]

definition info_init :: "u32 \<Rightarrow> eipdebuginfo" where
  "info_init addr = \<lparr>eip_file = ARG 0, eip_line = 0, eip_fn_name = ARG 0, eip_fn_namelen = 9,
     eip_fn_addr = addr, eip_fn_narg = 0\<rparr>"

text \<open>Where the table and its strings are, by the kind of address.\<close>

definition stab_tables :: "stab_syms \<Rightarrow> memory \<Rightarrow> u32 \<Rightarrow> u32 \<times> u32 \<times> u32 \<times> u32" where
  "stab_tables syms m addr =
     (if addr \<ge> ULIM then (STAB_BEGIN syms, STAB_END syms, STABSTR_BEGIN syms, STABSTR_END syms)
      else (load32 m USTABDATA, load32 m (USTABDATA + 4), load32 m (USTABDATA + 8), load32 m (USTABDATA + 12)))"

text \<open>
  \<open>stab_fun\<close> is the search for the function: it fills in its name and address and returns
  the address to look for and the range of the line search.
\<close>

definition stab_fun ::
    "(int \<Rightarrow> stab) \<Rightarrow> u32 \<Rightarrow> u32 \<Rightarrow> int \<Rightarrow> int \<Rightarrow> int \<Rightarrow> int \<Rightarrow> u32 \<Rightarrow> eipdebuginfo
       \<Rightarrow> eipdebuginfo \<times> u32 \<times> int \<times> int" where
  "stab_fun st stabstr stabstr_end lfile rfile lfun rfun addr info =
     (if lfun \<le> rfun then
        let info = (if n_strx (st lfun) < stabstr_end - stabstr
                    then info\<lparr>eip_fn_name := stabstr + n_strx (st lfun)\<rparr> else info);
            info = info\<lparr>eip_fn_addr := n_value (st lfun)\<rparr>
        in (info, addr - eip_fn_addr info, lfun, rfun)
      else (info\<lparr>eip_fn_addr := addr\<rparr>, addr, lfile, rfile))"

definition debuginfo_eip ::
    "device \<Rightarrow> stab_syms \<Rightarrow> u32 \<Rightarrow> kio \<Rightarrow> (int \<times> eipdebuginfo \<times> kio) option" where
  "debuginfo_eip dev syms addr s =
    (let m = lits [''<unknown>''] (kmem s);
         info = info_init addr;
         (stabs, stab_end, stabstr, stabstr_end) = stab_tables syms m addr;
         st = stab_at m stabs in
     if stabstr_end \<le> stabstr \<or> m (stabstr_end - 1) \<noteq> 0 then Some (- 1, info, s)
     else
      (let (lfile, rfile) = stab_binsearch st 0 (sint (stab_end - stabs) div 12 - 1) N_SO addr in
       if lfile = 0 then Some (- 1, info, s)
       else
        (let (lfun, rfun) = stab_binsearch st lfile rfile N_FUN addr;
             (info, addr, lline, rline) = stab_fun st stabstr stabstr_end lfile rfile lfun rfun addr info in
         Option.bind (strfind m (eip_fn_name info) (chr CHR '':'')) (\<lambda>colon.
         let info = info\<lparr>eip_fn_namelen := sint (colon - eip_fn_name info)\<rparr>;
             (lline, rline) = stab_binsearch st lline rline N_SLINE addr in
         Option.bind
           (if lline \<le> rline then Some (info\<lparr>eip_line := uint (n_desc (st lline))\<rparr>, s)
            else map_option (\<lambda>s. (info, s)) (print dev (''line not find'' @ [CHR 0x0A]) [] [] s))
           (\<lambda>(info, s).
            let lline = find_file st lfile lline;
                info = (if lline \<ge> lfile \<and> n_strx (st lline) < stabstr_end - stabstr
                        then info\<lparr>eip_file := stabstr + n_strx (st lline)\<rparr> else info);
                info = (if lfun < rfun
                        then info\<lparr>eip_fn_narg := count_args st (lfun + 1) rfun (eip_fn_narg info)\<rparr> else info)
            in Some (0, info, s))))))"

section \<open>The search finds the stab that contains the address\<close>

definition stabs_of :: "(int \<Rightarrow> stab) \<Rightarrow> u8 \<Rightarrow> int \<Rightarrow> int \<Rightarrow> int set" where
  "stabs_of st ty L R = {i. L \<le> i \<and> i \<le> R \<and> n_type (st i) = ty}"

definition sorted_stabs :: "(int \<Rightarrow> stab) \<Rightarrow> int set \<Rightarrow> bool" where
  "sorted_stabs st T \<longleftrightarrow> (\<forall>i \<in> T. \<forall>j \<in> T. i < j \<longrightarrow> n_value (st i) \<le> n_value (st j))"

text \<open>
  The range still to search splits the stabs of the type: those before it start at or
  below the address, those after it above. \<open>left\<close> is the last one before it, or the lower
  end when there is none; behind \<open>right\<close> comes the first one after it, or the upper end.
\<close>

definition left_ok :: "(int \<Rightarrow> stab) \<Rightarrow> int set \<Rightarrow> int \<Rightarrow> u32 \<Rightarrow> int \<Rightarrow> int \<Rightarrow> bool" where
  "left_ok st T L addr l left \<longleftrightarrow>
     (left \<in> T \<and> n_value (st left) \<le> addr \<and> (\<forall>i \<in> T. \<not> (left < i \<and> i < l)))
     \<or> (left = L \<and> (\<forall>i \<in> T. \<not> i < l))"

definition right_ok :: "(int \<Rightarrow> stab) \<Rightarrow> int set \<Rightarrow> int \<Rightarrow> u32 \<Rightarrow> int \<Rightarrow> int \<Rightarrow> bool" where
  "right_ok st T R addr r right \<longleftrightarrow> r \<le> right \<and> (\<forall>i \<in> T. \<not> (r < i \<and> i \<le> right))
     \<and> (right + 1 \<in> T \<and> n_value (st (right + 1)) > addr \<or> right = R)"

text \<open>
  After a hit on a stab that starts at the address the search goes on for the next address; it is
  misled only if a stab starts there too, or if there is no next address.
\<close>

definition exact_ok :: "(int \<Rightarrow> stab) \<Rightarrow> int set \<Rightarrow> u32 \<Rightarrow> bool" where
  "exact_ok st T addr \<longleftrightarrow> ((\<exists>i \<in> T. n_value (st i) = addr) \<longrightarrow>
     addr < addr + 1 \<and> (\<forall>i \<in> T. n_value (st i) \<noteq> addr + 1))"

definition search_inv ::
    "(int \<Rightarrow> stab) \<Rightarrow> int set \<Rightarrow> int \<Rightarrow> int \<Rightarrow> u32 \<Rightarrow> int \<Rightarrow> int \<Rightarrow> u32 \<Rightarrow> int \<Rightarrow> int \<Rightarrow> bool \<Rightarrow> bool" where
  "search_inv st T L R addr l r a left right any \<longleftrightarrow>
     L \<le> l \<and> r \<le> R \<and> (a = addr \<or> a = addr + 1 \<and> (\<exists>i \<in> T. n_value (st i) = addr)) \<and> left_ok st T L addr l left \<and> right_ok st T R addr r right
     \<and> (\<forall>i \<in> T. i < l \<longrightarrow> n_value (st i) \<le> addr) \<and> (\<forall>i \<in> T. r < i \<longrightarrow> n_value (st i) > addr)
     \<and> (any \<longrightarrow> (left \<in> T \<and> n_value (st left) \<le> addr) \<or> right + 1 \<in> T)
     \<and> (\<not> any \<longrightarrow> left = L \<and> right = R \<and> (\<forall>i \<in> T. \<not> i < l) \<and> (\<forall>i \<in> T. \<not> r < i))"

lemma inv_skip:
  assumes "search_inv st T L R addr l r a left right any" and "\<forall>i \<in> T. \<not> (l \<le> i \<and> i \<le> k)" and "l \<le> k"
  shows "search_inv st T L R addr (k + 1) r a left right any"
proof -
  have split: "i < k + 1 \<longleftrightarrow> i < l" if "i \<in> T" for i using assms(2,3) that by force
  then show ?thesis using assms(1,3) by (auto simp: search_inv_def left_ok_def)
qed

lemma inv_below:
  assumes "search_inv st T L R addr l r a left right any" and "sorted_stabs st T"
    and "m \<in> T" and "l \<le> m" and "m \<le> k" and "\<forall>i \<in> T. \<not> (m < i \<and> i < k)" and "n_value (st m) \<le> addr"
    and "a' = addr \<or> a' = addr + 1 \<and> (\<exists>i \<in> T. n_value (st i) = addr)"
  shows "search_inv st T L R addr k r a' m right True"
proof -
  have "n_value (st i) \<le> addr" if "i \<in> T" "i < k" for i
  proof (cases "i < m")
    case True
    then show ?thesis using assms(2,3,7) that by (auto simp: sorted_stabs_def intro: order_trans)
  next
    case False
    then have "i = m" using assms(6) that by force
    then show ?thesis using assms(7) by simp
  qed
  then show ?thesis using assms by (simp add: search_inv_def left_ok_def)
qed

lemma inv_above:
  assumes "search_inv st T L R addr l r a left right any" and "sorted_stabs st T"
    and "m \<in> T" and "m \<le> r" and "addr < n_value (st m)"
  shows "search_inv st T L R addr l (m - 1) a left (m - 1) True"
proof -
  have "addr < n_value (st i)" if "i \<in> T" "m - 1 < i" for i
  proof (cases "i = m")
    case False
    then have "n_value (st m) \<le> n_value (st i)" using assms(2,3) that by (simp add: sorted_stabs_def)
    then show ?thesis using assms(5) by simp
  qed (use assms(5) in simp)
  then show ?thesis using assms by (simp add: search_inv_def right_ok_def)
qed

lemma below_target:
  assumes "v < a" and "a = addr \<or> a = addr + (1 :: u32)"
  shows "v \<le> addr"
proof (rule ccontr)
  assume "\<not> v \<le> addr"
  then have "addr + 1 \<le> v" "addr < v" by (simp_all add: not_le inc_le)
  then show False using assms by auto
qed

lemma stab_loop_inv:
  assumes "T = stabs_of st ty L R" and "sorted_stabs st T" and "exact_ok st T addr"
    and "search_inv st T L R addr l r a left right any"
    and "stab_loop st ty l r a left right any = (left', right', any')"
  shows "\<exists>l' r' a'. r' < l' \<and> search_inv st T L R addr l' r' a' left' right' any'"
  using assms
proof (induction st ty l r a left right any rule: stab_loop.induct)
  case (1 st ty l r a left right any)
  note inv = "1.prems"(4) and ret = "1.prems"(5)
  show ?case
  proof (cases "l \<le> r")
    case False
    then have "left' = left" "right' = right" "any' = any" using ret by (simp_all add: stab_loop.simps [of st ty l r])
    then show ?thesis using inv False by (intro exI [of _ l] exI [of _ r] exI [of _ a]) simp
  next
    case True
    let ?k = "(l + r) div 2" let ?m = "scan_back st ty l ?k"
    have k: "l \<le> ?k" "?k \<le> r" and mk: "?m \<le> ?k" using True scan_back_le by auto
    have b: "L \<le> l" "r \<le> R" "a = addr \<or> a = addr + 1 \<and> (\<exists>i \<in> T. n_value (st i) = addr)"
      using inv by (simp_all add: search_inv_def)
    then have b4: "a = addr \<or> a = addr + 1" by blast
    note step = ret [unfolded stab_loop.simps [of st ty l r a] if_P [OF True] Let_def]
    have gap: "\<forall>i \<in> T. \<not> (l \<le> i \<and> ?m < i \<and> i < ?k + 1)"
      using scan_back_between [of l _ st ty ?k] "1.prems"(1) by (auto simp: stabs_of_def)
    show ?thesis
    proof (cases "?m < l")
      case m: True
      have "\<forall>i \<in> T. \<not> (l \<le> i \<and> i \<le> ?k)" using gap m by auto
      from inv_skip [OF inv this k(1)] "1.IH"(1) [OF True refl refl m "1.prems"(1-3)] step m
      show ?thesis by simp
    next
      case m: False
      have T: "?m \<in> T" using scan_back_type [of l st ty ?k] m k mk b "1.prems"(1) by (simp add: stabs_of_def)
      have gap': "\<forall>i \<in> T. \<not> (?m < i \<and> i < ?k + 1)" using gap m by auto
      consider "n_value (st ?m) < a" | "a < n_value (st ?m)" | "n_value (st ?m) = a" by force
      then show ?thesis
      proof cases
        case lt: 1
        have "n_value (st ?m) \<le> addr" by (rule below_target [OF lt b4])
        from inv_below [OF inv "1.prems"(2) T _ _ gap' this b(3)] m mk
          "1.IH"(2) [OF True refl refl m lt "1.prems"(1-3)] step lt
        show ?thesis by simp
      next
        case gt: 2
        then have nlt: "\<not> n_value (st ?m) < a" by simp
        have "addr < n_value (st ?m)" using gt b(3) "1.prems"(3) by (auto simp: exact_ok_def)
        from inv_above [OF inv "1.prems"(2) T _ this] mk k(2)
          "1.IH"(3) [OF True refl refl m nlt gt "1.prems"(1-3)] step gt m nlt
        show ?thesis by simp
      next
        case eq: 3
        then have ne: "\<not> n_value (st ?m) < a" "\<not> a < n_value (st ?m)" by simp_all
        have a: "a = addr" using eq b(3) "1.prems"(3) T by (auto simp: exact_ok_def)
        have "\<forall>i \<in> T. \<not> (?m < i \<and> i < ?m)" by simp
        moreover have "\<exists>i \<in> T. n_value (st i) = addr" using T eq a by blast
        ultimately
        show ?thesis using inv_below [OF inv "1.prems"(2) T _ order_refl, of "a + 1"] m eq a
          "1.IH"(4) [OF True refl refl m ne "1.prems"(1-3)] step ne
          by simp
      qed
    qed
  qed
qed

lemma rightmost_spec:
  assumes "left \<le> l"
  shows "left \<le> rightmost st ty left l \<and> rightmost st ty left l \<le> l
    \<and> (\<forall>i. rightmost st ty left l < i \<and> i \<le> l \<longrightarrow> n_type (st i) \<noteq> ty)
    \<and> (rightmost st ty left l = left \<or> n_type (st (rightmost st ty left l)) = ty)"
  using assms
proof (induction st ty left l rule: rightmost.induct)
  case (1 st ty left l)
  show ?case
  proof (cases "l > left \<and> n_type (st l) \<noteq> ty")
    case True
    then have eq: "rightmost st ty left l = rightmost st ty left (l - 1)" by (simp add: rightmost.simps [of st ty left l])
    have "left \<le> l - 1" using True by simp
    from 1(1) [OF True this] True show ?thesis unfolding eq by (smt (verit))
  next
    case False
    then show ?thesis using 1(2) by (auto simp: rightmost.simps [of st ty left l])
  qed
qed

text \<open>What the invariant says at the end of the loop, where the two ends have crossed.\<close>

lemma stabs_of_range: "T = stabs_of st ty L R \<Longrightarrow> i \<in> T \<Longrightarrow> L \<le> i \<and> i \<le> R \<and> n_type (st i) = ty"
  by (simp add: stabs_of_def)

lemma search_right:
  assumes "search_inv st T L R addr l r a left right any" and "T = stabs_of st ty L R"
  shows "right \<le> R" and "right = R \<or> right + 1 \<in> T" and "r \<le> right" and "\<forall>i \<in> T. \<not> (r < i \<and> i \<le> right)"
  using assms(1) stabs_of_range [OF assms(2), of "right + 1"] by (auto simp: search_inv_def right_ok_def)

lemma search_found:
  assumes "search_inv st T L R addr l r a left right any" and "r < l" and "T = stabs_of st ty L R"
    and "i \<in> T" and "n_value (st i) \<le> addr"
  shows "left \<in> T" and "n_value (st left) \<le> addr" and "left \<le> right"
    and "\<forall>j \<in> T. left < j \<longrightarrow> right < j \<and> addr < n_value (st j)" and "rightmost st ty left right = left"
proof -
  have above: "\<forall>j \<in> T. r < j \<longrightarrow> addr < n_value (st j)" and ok: "left_ok st T L addr l left"
    using assms(1) by (simp_all add: search_inv_def)
  have "\<not> r < i" using assms(4,5) above by (auto dest: bspec)
  then have "i < l" using assms(2) by linarith
  then show l1: "left \<in> T" "n_value (st left) \<le> addr"
    using ok assms(4) unfolding left_ok_def by blast+
  have l2: "\<forall>j \<in> T. \<not> (left < j \<and> j < l)"
    using ok assms(4) \<open>i < l\<close> unfolding left_ok_def by blast
  have "\<not> r < left" using l1 above by (auto dest: bspec)
  then show le: "left \<le> right" using search_right(3) [OF assms(1,3)] by linarith
  show beyond: "\<forall>j \<in> T. left < j \<longrightarrow> right < j \<and> addr < n_value (st j)"
  proof (intro ballI impI)
    fix j
    assume j: "j \<in> T" "left < j"
    then have "r < j" using l2 assms(2) by force
    then show "right < j \<and> addr < n_value (st j)"
      using j above search_right(4) [OF assms(1,3)] by (auto simp: not_le)
  qed
  note rm = rightmost_spec [OF le, of st ty]
  show "rightmost st ty left right = left"
  proof (rule ccontr)
    assume ne: "rightmost st ty left right \<noteq> left"
    then have "rightmost st ty left right \<in> T"
      using rm stabs_of_range [OF assms(3) l1(1)] search_right(1) [OF assms(1,3)] assms(3)
      by (simp add: stabs_of_def)
    then show False using beyond rm ne by force
  qed
qed

lemma search_none:
  assumes "search_inv st T L R addr l r a left right any" and "r < l" and "T = stabs_of st ty L R"
    and "T \<noteq> {}" and "\<not> (\<exists>i \<in> T. n_value (st i) \<le> addr)" and any
  shows "\<forall>i \<in> T. right < i" and "rightmost st ty left right \<le> right"
    and "rightmost st ty left right = L \<or> rightmost st ty left right = L - 1"
proof -
  have below: "\<forall>i \<in> T. i < l \<longrightarrow> n_value (st i) \<le> addr" and ok: "left_ok st T L addr l left"
    using assms(1) by (simp_all add: search_inv_def)
  have "\<forall>i \<in> T. r < i" using below assms(2,5) by force
  then show T: "\<forall>i \<in> T. right < i" using search_right(4) [OF assms(1,3)] by (auto simp: not_le)
  have left: "left = L" using ok assms(5) by (auto simp: left_ok_def)
  have "right + 1 \<in> T" using assms(1,5,6) by (auto simp: search_inv_def)
  then have ge: "L - 1 \<le> right" using stabs_of_range [OF assms(3)] by force
  show "rightmost st ty left right \<le> right"
  proof (cases "left \<le> right")
    case False
    then show ?thesis by (simp add: rightmost.simps [of st ty left right])
  qed (use rightmost_spec [of left right st ty] in simp)
  show "rightmost st ty left right = L \<or> rightmost st ty left right = L - 1"
  proof (cases "L \<le> right")
    case True
    have "rightmost st ty L right = L"
    proof (rule ccontr)
      assume ne: "rightmost st ty L right \<noteq> L"
      then have "rightmost st ty L right \<in> T"
        using rightmost_spec [OF True, of st ty] search_right(1) [OF assms(1,3)] assms(3)
        by (auto simp: stabs_of_def)
      then show False using T rightmost_spec [OF True, of st ty] by auto
    qed
    then show ?thesis using left by simp
  next
    case False
    then have "right = L - 1" using ge by linarith
    then show ?thesis using left by (simp add: rightmost.simps [of st ty L])
  qed
qed

lemma search_any:
  assumes "search_inv st T L R addr l r a left right any" and "r < l"
  shows "any \<longleftrightarrow> T \<noteq> {}"
  using assms by (fastforce simp: search_inv_def)

section \<open>Contracts of the search\<close>

lemma stab_binsearch_spec:
  assumes "T = stabs_of st ty L R" and "sorted_stabs st T" and "0 \<le> L" and "L \<le> R"
    and "exact_ok st T addr" and "stab_binsearch st L R ty addr = (left, right)"
  shows "if T = {} then left = L \<and> right = L - 1
    else right \<le> R \<and> (right = R \<or> right + 1 \<in> T) \<and> left \<le> right
      \<and> (if \<exists>i \<in> T. n_value (st i) \<le> addr
         then left \<in> T \<and> n_value (st left) \<le> addr \<and> (\<forall>i \<in> T. left < i \<longrightarrow> right < i \<and> addr < n_value (st i))
         else (\<forall>i \<in> T. right < i) \<and> (left = L \<or> left = L - 1))"
proof -
  obtain left1 right1 any1 where loop: "stab_loop st ty L R addr L R False = (left1, right1, any1)"
    using prod_cases3 by blast
  have "search_inv st T L R addr L R addr L R False"
    using stabs_of_range [OF assms(1)] by (force simp: search_inv_def left_ok_def right_ok_def)
  from stab_loop_inv [OF assms(1,2,5) this loop] obtain l r a where
    exit: "r < l" and inv: "search_inv st T L R addr l r a left1 right1 any1" by blast
  have res: "(left, right) = (if \<not> any1 then (left1, left1 - 1) else (rightmost st ty left1 right1, right1))"
    using assms(6) by (simp add: stab_binsearch_def loop)
  note any = search_any [OF inv exit] and right = search_right [OF inv assms(1)]
  consider (empty) "T = {}" | (found) i where "T \<noteq> {}" "i \<in> T" "n_value (st i) \<le> addr"
    | (none) "T \<noteq> {}" "\<not> (\<exists>i \<in> T. n_value (st i) \<le> addr)" by blast
  then show ?thesis
  proof cases
    case empty
    then show ?thesis using res any inv by (auto simp: search_inv_def)
  next
    case found
    have ex: "\<exists>i \<in> T. n_value (st i) \<le> addr" using found by blast
    note f = search_found [OF inv exit assms(1) found(2,3)]
    have "left = left1" "right = right1" using res any found(1) f(5) by simp_all
    then show ?thesis
      unfolding if_not_P [OF found(1)] if_P [OF ex] using f(1-4) right(1,2) by blast
  next
    case none
    note f = search_none [OF inv exit assms(1) none any [THEN iffD2, OF none(1)]]
    have "left = rightmost st ty left1 right1" "right = right1" using res any none(1) by simp_all
    then show ?thesis
      unfolding if_not_P [OF none(1)] if_not_P [OF none(2)] using f right(1,2) by blast
  qed
qed

text \<open>C25: \<open>stab_binsearch\<close> terminates on every table. When the stabs of the type are
  in order of their addresses, and it does not happen that one of them starts at the address and
  another at the next one (or the address is the highest there is), it finds the last one
  at or below the address, and returns
  it with the index just before the next one of its type. With no stab of the type it
  returns an empty range. When all of them start above the address it returns, against its
  description, a range that is not empty.\<close>

theorem stab_binsearch_contract:
  assumes "T = stabs_of st ty L R" and "sorted_stabs st T" and "0 \<le> L" and "L \<le> R"
    and "exact_ok st T addr" and "stab_binsearch st L R ty addr = (left, right)"
  shows "if T = {} then left = L \<and> right = L - 1
    else right \<le> R \<and> (right = R \<or> right + 1 \<in> T) \<and> left \<le> right
      \<and> (if \<exists>i \<in> T. n_value (st i) \<le> addr
         then left \<in> T \<and> n_value (st left) \<le> addr \<and> (\<forall>i \<in> T. left < i \<longrightarrow> right < i \<and> addr < n_value (st i))
         else (\<forall>i \<in> T. right < i) \<and> (left = L \<or> left = L - 1))"
  by (rule stab_binsearch_spec [OF assms])

definition fun_stab :: "u32 \<Rightarrow> stab" where
  "fun_stab v = \<lparr>n_strx = 0, n_type = N_FUN, n_other = 0, n_desc = 0, n_value = v\<rparr>"

text \<open>The table in the comment of \<^verbatim>\<open>stab_binsearch\<close>.\<close>

definition example_stabs :: "int \<Rightarrow> stab" where
  "example_stabs i = \<lparr>n_strx = 0, n_type = (if i \<in> {0, 13, 117, 118, 555, 556, 657} then N_SO else N_SLINE),
     n_other = 0, n_desc = 0,
     n_value = (if i \<le> 0 then 0xF0100000 else if i \<le> 13 then 0xF0100040 else if i \<le> 117 then 0xF0100176
       else if i \<le> 118 then 0xF0100178 else if i \<le> 555 then 0xF0100652 else if i \<le> 556 then 0xF0100654
       else 0xF0100849)\<rparr>"

lemma example_type: "n_type (example_stabs i) = N_SO \<longleftrightarrow> i \<in> {0, 13, 117, 118, 555, 556, 657}"
  by (simp add: example_stabs_def N_SO_def N_SLINE_def)

lemma example_values: "n_value (example_stabs 0) = 0xF0100000" "n_value (example_stabs 13) = 0xF0100040"
  "n_value (example_stabs 117) = 0xF0100176" "n_value (example_stabs 118) = 0xF0100178"
  "n_value (example_stabs 555) = 0xF0100652" "n_value (example_stabs 556) = 0xF0100654"
  "n_value (example_stabs 657) = 0xF0100849"
  by (simp_all add: example_stabs_def)

lemma stab_binsearch_contract_witness:
  "stab_binsearch example_stabs 0 657 N_SO 0xF0100184 = (118, 554)"
proof -
  let ?T = "{0, 13, 117, 118, 555, 556, 657} :: int set"
  obtain left right where r: "stab_binsearch example_stabs 0 657 N_SO 0xF0100184 = (left, right)"
    by fastforce
  have T: "?T = stabs_of example_stabs N_SO 0 657"
    unfolding stabs_of_def example_type by auto
  have sorted: "sorted_stabs example_stabs ?T" unfolding sorted_stabs_def by (simp add: example_values)
  have ne: "exact_ok example_stabs ?T 0xF0100184" by (simp add: exact_ok_def example_values)
  have p: "(0 :: int) \<le> 0" "(0 :: int) \<le> 657" "?T \<noteq> {}" by simp_all
  have ex: "\<exists>i \<in> ?T. n_value (example_stabs i) \<le> 0xF0100184"
    by (rule bexI [of _ 0]) (simp_all add: example_values)
  note res = stab_binsearch_contract [OF T sorted p(1,2) ne r, unfolded if_not_P [OF p(3)] if_P [OF ex]]
  then have left: "left \<in> ?T" "n_value (example_stabs left) \<le> 0xF0100184" "left \<le> right"
    and beyond: "i \<in> ?T \<Longrightarrow> left < i \<Longrightarrow> right < i \<and> 0xF0100184 < n_value (example_stabs i)" for i
    by blast+
  have "\<not> left < 118" using beyond [of 118] by (auto simp: example_values)
  then have "left = 118" using left(1,2) by (elim insertE) (simp_all add: example_values)
  moreover from this have "right < 555" using beyond [of 555] by simp
  moreover have "right = 657 \<or> right + 1 \<in> ?T" using res by blast
  ultimately have "right = 554" using left(3) by simp
  then show ?thesis using r \<open>left = 118\<close> by simp
qed

text \<open>With two stabs of the type at adjacent addresses, the search for the first address
  returns the second stab: after the exact match it goes on looking for the next address,
  and takes a stab that starts there for another match.\<close>

theorem stab_binsearch_adjacent:
  assumes "n_type (st 0) = ty" and "n_type (st 1) = ty"
    and "n_value (st 0) = addr" and "n_value (st 1) = addr + 1" and "addr < addr + 1" and "addr + 1 < addr + 2"
  shows "stab_binsearch st 0 1 ty addr = (1, 1)"
proof -
  have sc: "scan_back st ty 0 0 = 0" "scan_back st ty 1 1 = 1" "scan_back st ty 0 1 = 1"
    by (simp_all add: scan_back.simps [of st ty] assms(1,2))
  have 1: "stab_loop st ty 0 1 addr 0 1 False = stab_loop st ty 0 1 (addr + 1) 0 1 True"
    by (subst stab_loop.simps) (simp add: sc assms(3))
  have 2: "stab_loop st ty 0 1 (addr + 1) 0 1 True = stab_loop st ty 1 1 (addr + 1) 0 1 True"
    using assms(5) by (subst stab_loop.simps) (simp add: sc assms(3))
  have 3: "stab_loop st ty 1 1 (addr + 1) 0 1 True = stab_loop st ty 1 1 (addr + 1 + 1) 1 1 True"
    by (subst stab_loop.simps) (simp add: sc assms(4))
  have less: "addr + 1 < 2 + addr" using assms(6) by (simp add: add.commute)
  have 4: "stab_loop st ty 1 1 (addr + 1 + 1) 1 1 True = stab_loop st ty 2 1 (addr + 1 + 1) 1 1 True"
    by (subst stab_loop.simps) (simp add: sc assms(4) less)
  have "stab_loop st ty 2 1 (addr + 1 + 1) 1 1 True = (1, 1, True)" by (subst stab_loop.simps) simp
  with 1 2 3 4 have "stab_loop st ty 0 1 addr 0 1 False = (1, 1, True)" by (simp only:)
  then show ?thesis by (simp add: stab_binsearch_def rightmost.simps [of st ty 1])
qed

lemma stab_binsearch_adjacent_witness:
  "stab_binsearch (\<lambda>i. fun_stab (if i = 0 then 0xF0100000 else 0xF0100001)) 0 1 N_FUN 0xF0100000 = (1, 1)"
  by (rule stab_binsearch_adjacent) (simp_all add: fun_stab_def)

section \<open>The lookup returns\<close>

lemma strfind_stops:
  assumes "m (s + of_nat n) = 0"
  shows "\<exists>k \<le> n. strfind m s c = Some (s + of_nat k) \<and> m (s + of_nat k) \<in> {0, c}
    \<and> (\<forall>j < k. m (s + of_nat j) \<notin> {0, c})"
  using assms
proof (induction n arbitrary: s)
  case 0
  then show ?case by (subst strfind.simps) simp
next
  case (Suc n)
  show ?case
  proof (cases "m s = 0 \<or> m s = c")
    case True
    then show ?thesis by (subst strfind.simps) (auto intro!: exI [of _ 0])
  next
    case False
    have "m (s + 1 + of_nat n) = 0" using Suc.prems by (simp add: add.assoc)
    from Suc.IH [OF this] obtain k where k: "k \<le> n" "strfind m (s + 1) c = Some (s + 1 + of_nat k)"
      "m (s + 1 + of_nat k) \<in> {0, c}" "\<forall>j < k. m (s + 1 + of_nat j) \<notin> {0, c}" by blast
    have "m (s + of_nat j) \<notin> {0, c}" if "j < Suc k" for j
      using that k(4) False by (cases j) (auto simp: add.assoc)
    moreover have "strfind m s c = Some (s + of_nat (Suc k))"
      using k(2) False by (subst strfind.simps) (simp add: add.assoc)
    ultimately show ?thesis using k(1,3) by (intro exI [of _ "Suc k"]) (simp add: add.assoc)
  qed
qed

text \<open>A name is in the string table, or it is the literal for an unknown one.\<close>

definition name_ok :: "u32 \<Rightarrow> u32 \<Rightarrow> u32 \<Rightarrow> bool" where
  "name_ok stabstr stabstr_end p \<longleftrightarrow> p = ARG 0 \<or> (stabstr \<le> p \<and> p < stabstr_end)"

lemma name_in_table:
  fixes stabstr :: u32
  assumes "stabstr < stabstr_end" and "n < stabstr_end - stabstr"
  shows "stabstr \<le> stabstr + n \<and> stabstr + n < stabstr_end"
proof -
  have "unat stabstr + unat n < unat stabstr_end"
    using assms(2) unat_sub_le [of stabstr stabstr_end] assms(1) by (simp add: word_less_nat_alt less_imp_le)
  then have "unat (stabstr + n) = unat stabstr + unat n"
    using u32_bound [of stabstr_end] by (intro unat_less_add) simp
  then show ?thesis using \<open>unat stabstr + unat n < unat stabstr_end\<close>
    by (simp add: word_le_nat_alt word_less_nat_alt)
qed

lemma name_ends:
  assumes "name_ok stabstr stabstr_end p" and "m = lits [''<unknown>''] m0" and "m (stabstr_end - 1) = 0"
    and "unat (stabstr_end - stabstr) < 2 ^ 31" and "stabstr < stabstr_end"
  shows "\<exists>n < 2 ^ 31. m (p + of_nat n) = 0"
proof (cases "p = ARG 0")
  case True
  then have "m (p + of_nat 9) = 0" by (simp add: assms(2) lits_def ARG_def)
  then show ?thesis by (intro exI [of _ 9]) simp
next
  case False
  then have p: "stabstr \<le> p" "p < stabstr_end" using assms(1) by (simp_all add: name_ok_def)
  let ?n = "unat (stabstr_end - 1 - p)"
  have "unat (1 :: u32) \<le> unat stabstr_end" using p(2) by (simp add: word_less_nat_alt)
  then have e: "unat (stabstr_end - 1) = unat stabstr_end - 1" by (subst unat_sub) (simp_all add: word_le_nat_alt)
  then have "p \<le> stabstr_end - 1" using p(2) by (simp add: word_le_nat_alt word_less_nat_alt)
  then have "?n = unat (stabstr_end - 1) - unat p" by (simp add: unat_sub_le)
  moreover note e
  moreover have "unat stabstr_end - unat stabstr < 2 ^ 31"
    using assms(4,5) by (simp add: unat_sub_le)
  ultimately have "?n < 2 ^ 31" using p by (simp add: word_le_nat_alt word_less_nat_alt)
  moreover have "m (p + of_nat ?n) = 0" using assms(3) by simp
  ultimately show ?thesis by blast
qed

text \<open>\<open>strfind\<close> cuts a name in the table at its colon or its end.\<close>

lemma name_cut:
  assumes "name_ok b e p" and "m = lits [''<unknown>''] mm" and "m (e - 1) = 0" and "unat (e - b) < 2 ^ 31" and "b < e"
  obtains k where "strfind m p (chr CHR '':'') = Some (p + of_nat k)" "sint (of_nat k :: u32) = int k"
    "m (p + of_nat k) \<in> {0, chr CHR '':''}" "\<forall>j < k. m (p + of_nat j) \<notin> {0, chr CHR '':''}"
proof -
  obtain n where n: "n < 2 ^ 31" "m (p + of_nat n) = 0"
    using name_ends [OF assms] by blast
  obtain k where k: "k \<le> n" "strfind m p (chr CHR '':'') = Some (p + of_nat k)"
    "m (p + of_nat k) \<in> {0, chr CHR '':''}" "\<forall>j < k. m (p + of_nat j) \<notin> {0, chr CHR '':''}"
    using strfind_stops [of m p n, OF n(2)] by blast
  have "unat (of_nat k :: u32) = k" using k(1) n(1) by (intro unat_of_nat_small) simp
  then have "sint (of_nat k :: u32) = int k" using k(1) n(1) by (simp add: sint_u32)
  with k that show thesis by blast
qed

text \<open>What a search that is not misled returns, when a stab of the type is at or below the address.\<close>

definition found :: "(int \<Rightarrow> stab) \<Rightarrow> u8 \<Rightarrow> int \<Rightarrow> int \<Rightarrow> u32 \<Rightarrow> int \<Rightarrow> int \<Rightarrow> bool" where
  "found st ty L R addr i r \<longleftrightarrow> (let T = stabs_of st ty L R in
     sorted_stabs st T \<and> exact_ok st T addr
     \<and> i \<in> T \<and> n_value (st i) \<le> addr \<and> (\<forall>j \<in> T. i < j \<longrightarrow> r < j \<and> addr < n_value (st j))
     \<and> i \<le> r \<and> r \<le> R \<and> (r = R \<or> r + 1 \<in> T))"

lemma found_search:
  assumes "found st ty L R addr i r" and "0 \<le> L"
  shows "stab_binsearch st L R ty addr = (i, r)"
proof -
  let ?T = "stabs_of st ty L R"
  have f: "sorted_stabs st ?T" "exact_ok st ?T addr" "i \<in> ?T" "n_value (st i) \<le> addr"
    "\<forall>j \<in> ?T. i < j \<longrightarrow> r < j \<and> addr < n_value (st j)" "i \<le> r" "r \<le> R" "r = R \<or> r + 1 \<in> ?T"
    using assms(1) unfolding found_def Let_def by blast+
  obtain left right where s: "stab_binsearch st L R ty addr = (left, right)" by fastforce
  have "L \<le> R" using f(3) by (simp add: stabs_of_def)
  note spec = stab_binsearch_spec [OF refl f(1) assms(2) this f(2) s]
  have ne: "?T \<noteq> {}" "\<exists>i \<in> ?T. n_value (st i) \<le> addr" using f(3,4) by blast+
  note g = spec [unfolded if_not_P [OF ne(1)] if_P [OF ne(2)]]
  have "left = i"
  proof (rule ccontr)
    assume "left \<noteq> i"
    then consider "left < i" | "i < left" by linarith
    then show False using f(3-5) g by cases (meson not_less)+
  qed
  moreover have "right = r"
  proof (rule ccontr)
    assume "right \<noteq> r"
    then consider "right < r" | "r < right" by linarith
    then show False
    proof cases
      case 1
      then have "right + 1 \<in> ?T" "left < right + 1" using g f(7) by auto
      then show False using f(5) 1 \<open>left = i\<close> by fastforce
    next
      case 2
      then have "r + 1 \<in> ?T" "i < r + 1" using g f(6,8) by auto
      then show False using g 2 \<open>left = i\<close> by fastforce
    qed
  qed
  ultimately show ?thesis using s by simp
qed

text \<open>The stab that names the file of a line, and the parameters of a function.\<close>

definition names_file :: "(int \<Rightarrow> stab) \<Rightarrow> int \<Rightarrow> bool" where
  "names_file st i \<longleftrightarrow> n_type (st i) = N_SOL \<or> (n_type (st i) = N_SO \<and> n_value (st i) \<noteq> 0)"

lemma find_file_last:
  assumes "names_file st g" and "lfile \<le> g" and "g \<le> l" and "\<forall>i. g < i \<and> i \<le> l \<longrightarrow> \<not> names_file st i"
  shows "find_file st lfile l = g"
  using assms(3,4)
proof (induction "nat (l - g)" arbitrary: l)
  case 0
  then have "l = g" by simp
  then show ?case using assms(1) by (subst find_file.simps) (auto simp: names_file_def)
next
  case (Suc n)
  then have "g < l" by simp
  then have "\<not> names_file st l" using Suc.prems(2) by simp
  then have "find_file st lfile l = find_file st lfile (l - 1)"
    using \<open>g < l\<close> assms(2) by (subst find_file.simps) (auto simp: names_file_def)
  also have "\<dots> = g" using Suc \<open>g < l\<close> by (intro Suc(1)) auto
  finally show ?case .
qed

lemma count_args_steps:
  assumes "\<forall>i. l \<le> i \<and> i < l + int k \<longrightarrow> i < r \<and> n_type (st i) = N_PSYM"
    and "r \<le> l + int k \<or> n_type (st (l + int k)) \<noteq> N_PSYM"
  shows "count_args st l r n = n + int k"
  using assms
proof (induction k arbitrary: l n)
  case 0
  then show ?case by (subst count_args.simps) auto
next
  case (Suc k)
  have "count_args st l r n = count_args st (l + 1) r (n + 1)"
    using Suc.prems(1) by (subst count_args.simps) simp
  also have "\<dots> = n + 1 + int k" using Suc.prems by (intro Suc.IH) (auto simp: algebra_simps)
  finally show ?case by simp
qed

text \<open>The lookup in its steps: the tables of the kernel, the three searches, the name and its colon.\<close>

lemma kernel_tables: "ULIM \<le> addr \<Longrightarrow>
   stab_tables syms m addr = (STAB_BEGIN syms, STAB_END syms, STABSTR_BEGIN syms, STABSTR_END syms)"
  by (simp add: stab_tables_def)

definition strings_ok :: "memory \<Rightarrow> stab_syms \<Rightarrow> bool" where
  "strings_ok m syms \<longleftrightarrow> STABSTR_BEGIN syms < STABSTR_END syms \<and> m (STABSTR_END syms - 1) = 0"

abbreviation last_stab :: "stab_syms \<Rightarrow> int" where
  "last_stab syms \<equiv> sint (STAB_END syms - STAB_BEGIN syms) div 12 - 1"

text \<open>A name of the string table at an offset, if the offset is inside.\<close>

definition string_at :: "stab_syms \<Rightarrow> u32 \<Rightarrow> u32" where
  "string_at syms n = (if n < STABSTR_END syms - STABSTR_BEGIN syms then STABSTR_BEGIN syms + n else ARG 0)"

lemma string_at_ok:
  "strings_ok m syms \<Longrightarrow> name_ok (STABSTR_BEGIN syms) (STABSTR_END syms) (string_at syms n)"
  using name_in_table by (auto simp: string_at_def name_ok_def strings_ok_def)

lemma debuginfo_unknown:
  assumes "m = lits [''<unknown>''] (kmem s)" and "ULIM \<le> addr"
    and "\<not> strings_ok m syms \<or> fst (stab_binsearch (stab_at m (STAB_BEGIN syms)) 0 (last_stab syms) N_SO addr) = 0"
  shows "debuginfo_eip dev syms addr s = Some (- 1, info_init addr, s)"
proof -
  obtain lfile rfile where f: "stab_binsearch (stab_at m (STAB_BEGIN syms)) 0 (last_stab syms) N_SO addr = (lfile, rfile)"
    by fastforce
  show ?thesis using assms(3) unfolding debuginfo_eip_def Let_def assms(1) [symmetric] kernel_tables [OF assms(2)]
    by (auto simp: f strings_ok_def)
qed

lemma debuginfo_known:
  assumes m: "m = lits [''<unknown>''] (kmem s)" and a: "ULIM \<le> addr" and ok: "strings_ok m syms"
    and small: "unat (STABSTR_END syms - STABSTR_BEGIN syms) < 2 ^ 31"
    and so: "stab_binsearch (stab_at m (STAB_BEGIN syms)) 0 (last_stab syms) N_SO addr = (lfile, rfile)" "lfile \<noteq> 0"
    and fn: "stab_binsearch (stab_at m (STAB_BEGIN syms)) lfile rfile N_FUN addr = (lfun, rfun)" "lfun \<le> rfun"
    and sl: "stab_binsearch (stab_at m (STAB_BEGIN syms)) lfun rfun N_SLINE
        (addr - n_value (stab_at m (STAB_BEGIN syms) lfun)) = (lline, rline)" "lline \<le> rline"
  defines "st \<equiv> stab_at m (STAB_BEGIN syms)"
  defines "g \<equiv> find_file st lfile lline" and "name \<equiv> string_at syms (n_strx (st lfun))"
  shows "\<exists>k. debuginfo_eip dev syms addr s = Some (0,
      \<lparr>eip_file = (if lfile \<le> g then string_at syms (n_strx (st g)) else ARG 0),
       eip_line = uint (n_desc (st lline)), eip_fn_name = name, eip_fn_namelen = int k,
       eip_fn_addr = n_value (st lfun),
       eip_fn_narg = (if lfun < rfun then count_args st (lfun + 1) rfun 0 else 0)\<rparr>, s)
    \<and> (\<forall>j < k. m (name + of_nat j) \<notin> {0, chr CHR '':''}) \<and> m (name + of_nat k) \<in> {0, chr CHR '':''}"
proof -
  have tab: "STABSTR_BEGIN syms < STABSTR_END syms" "m (STABSTR_END syms - 1) = 0"
    using ok by (simp_all add: strings_ok_def)
  obtain k where k: "strfind m name (chr CHR '':'') = Some (name + of_nat k)" "sint (of_nat k :: u32) = int k"
    "m (name + of_nat k) \<in> {0, chr CHR '':''}" "\<forall>j < k. m (name + of_nat j) \<notin> {0, chr CHR '':''}"
    using name_cut [OF string_at_ok [OF ok, of "n_strx (st lfun)"] m tab(2) small tab(1)] unfolding name_def by blast
  have checks: "(STABSTR_END syms \<le> STABSTR_BEGIN syms \<or> m (STABSTR_END syms - 1) \<noteq> 0) = False" "(lfile = 0) = False"
    using tab so(2) by (auto simp: not_le)
  have fun1: "stab_fun st (STABSTR_BEGIN syms) (STABSTR_END syms) lfile rfile lfun rfun addr (info_init addr)
      = ((info_init addr)\<lparr>eip_fn_name := name, eip_fn_addr := n_value (st lfun)\<rparr>, addr - n_value (st lfun), lfun, rfun)"
    using fn(2) by (simp add: stab_fun_def Let_def name_def string_at_def info_init_def)
  have d: "name + of_nat k - name = of_nat k" by simp
  show ?thesis
  proof (intro exI [of _ k] conjI)
    show "debuginfo_eip dev syms addr s = Some (0,
      \<lparr>eip_file = (if lfile \<le> g then string_at syms (n_strx (st g)) else ARG 0),
       eip_line = uint (n_desc (st lline)), eip_fn_name = name, eip_fn_namelen = int k,
       eip_fn_addr = n_value (st lfun),
       eip_fn_narg = (if lfun < rfun then count_args st (lfun + 1) rfun 0 else 0)\<rparr>, s)"
      unfolding debuginfo_eip_def Let_def m [symmetric] kernel_tables [OF a] prod.case st_def [symmetric]
        so(1) [folded st_def] fn(1) [folded st_def] fun1 checks if_False
      using k(1,2) sl [folded st_def] by (simp add: d g_def info_init_def string_at_def)
  qed (use k(3,4) in auto)
qed


text \<open>A small table: the first stab of the kernel, a source file \<^verbatim>\<open>i.c\<close>, its function \<^verbatim>\<open>f\<close> with
  one parameter, and line 23 at the start of the function.\<close>

definition example_table :: "u8 list" where
  "example_table =
     [0, 0, 0, 0, 0x64, 0, 0, 0, 0x00, 0x00, 0x10, 0xF0,
      1, 0, 0, 0, 0x64, 0, 0, 0, 0x40, 0x00, 0x10, 0xF0,
      5, 0, 0, 0, 0x24, 0, 0, 0, 0x40, 0x00, 0x10, 0xF0,
      0, 0, 0, 0, 0xA0, 0, 0, 0, 8, 0, 0, 0,
      0, 0, 0, 0, 0x44, 0, 23, 0, 0, 0, 0, 0]"

definition example_strings :: "u8 list" where
  "example_strings = [0, 105, 46, 99, 0, 102, 58, 70, 49, 0]"

definition example_debug :: memory where
  "example_debug a =
     (let k = unat (a - 0xF0110000); j = unat (a - 0xF0120000) in
      if k < 60 then example_table ! k else if j < 10 then example_strings ! j else 0)"

abbreviation example_syms :: stab_syms where
  "example_syms \<equiv> \<lparr>STAB_BEGIN = 0xF0110000, STAB_END = 0xF011003C, STABSTR_BEGIN = 0xF0120000, STABSTR_END = 0xF012000A\<rparr>"

lemma lits_above: "12288 \<le> unat a \<Longrightarrow> lits [x] m a = m a"
proof -
  assume "12288 \<le> unat a"
  then have "3 \<le> unat a div 4096" by simp
  then show "lits [x] m a = m a" by (simp add: lits_def Let_def)
qed

lemma example_stab:
  assumes "m = lits [x] example_debug"
  shows "stab_at m 0xF0110000 0 = \<lparr>n_strx = 0, n_type = N_SO, n_other = 0, n_desc = 0, n_value = 0xF0100000\<rparr>"
    and "stab_at m 0xF0110000 1 = \<lparr>n_strx = 1, n_type = N_SO, n_other = 0, n_desc = 0, n_value = 0xF0100040\<rparr>"
    and "stab_at m 0xF0110000 2 = \<lparr>n_strx = 5, n_type = N_FUN, n_other = 0, n_desc = 0, n_value = 0xF0100040\<rparr>"
    and "stab_at m 0xF0110000 3 = \<lparr>n_strx = 0, n_type = N_PSYM, n_other = 0, n_desc = 0, n_value = 8\<rparr>"
    and "stab_at m 0xF0110000 4 = \<lparr>n_strx = 0, n_type = N_SLINE, n_other = 0, n_desc = 23, n_value = 0\<rparr>"
  unfolding assms stab_at_def Let_def load32_def
  by (simp_all add: lits_above example_debug_def example_table_def N_SO_def N_FUN_def N_PSYM_def N_SLINE_def)

lemma five_cases: "(i :: int) \<le> 4 \<Longrightarrow> i < 0 \<or> i = 0 \<or> i = 1 \<or> i = 2 \<or> i = 3 \<or> i = 4"
  by linarith

lemma three_only: "(2 :: int) < i \<Longrightarrow> i \<le> 3 \<Longrightarrow> i = 3"
  by simp

lemmas types_distinct = N_SO_def N_FUN_def N_PSYM_def N_SLINE_def N_SOL_def


end
