(* ===== verification/Trapframe.thy ===== *)
theory Trapframe
  imports Kdebug
begin

text \<open>
  Trap frames (\<^verbatim>\<open>inc/trap.h\<close>) and how \<^verbatim>\<open>kern/trap.c\<close> prints them: \<open>trapname\<close>,
  \<open>print_regs\<close> and \<open>print_trapframe\<close>.

  \<open>machine\<close> is what the kernel reads of its surroundings: the devices, the processor
  registers \<^verbatim>\<open>%cr2\<close>, \<^verbatim>\<open>%ebp\<close> and \<^verbatim>\<open>%eflags\<close> at the point of the call, and the symbols the
  linker defines.
\<close>

record ksyms =
  k_start :: u32
  k_entry :: u32
  k_etext :: u32
  k_edata :: u32
  k_end :: u32

record machine =
  devs :: device
  cr2 :: u32
  ebp :: u32
  eflags :: u32
  stabs :: stab_syms
  syms :: ksyms

record push_regs =
  reg_edi :: u32
  reg_esi :: u32
  reg_ebp :: u32
  reg_oesp :: u32
  reg_ebx :: u32
  reg_edx :: u32
  reg_ecx :: u32
  reg_eax :: u32

record trapframe =
  tf_regs :: push_regs
  tf_es :: u16
  tf_padding1 :: u16
  tf_ds :: u16
  tf_padding2 :: u16
  tf_trapno :: u32
  tf_err :: u32
  tf_eip :: u32
  tf_cs :: u16
  tf_padding3 :: u16
  tf_eflags :: u32
  tf_esp :: u32
  tf_ss :: u16
  tf_padding4 :: u16

section \<open>Trap numbers\<close>

definition T_DIVIDE :: u32 where "T_DIVIDE = 0"
definition T_DEBUG :: u32 where "T_DEBUG = 1"
definition T_NMI :: u32 where "T_NMI = 2"
definition T_BRKPT :: u32 where "T_BRKPT = 3"
definition T_OFLOW :: u32 where "T_OFLOW = 4"
definition T_BOUND :: u32 where "T_BOUND = 5"
definition T_ILLOP :: u32 where "T_ILLOP = 6"
definition T_DEVICE :: u32 where "T_DEVICE = 7"
definition T_DBLFLT :: u32 where "T_DBLFLT = 8"
definition T_TSS :: u32 where "T_TSS = 10"
definition T_SEGNP :: u32 where "T_SEGNP = 11"
definition T_STACK :: u32 where "T_STACK = 12"
definition T_GPFLT :: u32 where "T_GPFLT = 13"
definition T_PGFLT :: u32 where "T_PGFLT = 14"
definition T_FPERR :: u32 where "T_FPERR = 16"
definition T_ALIGN :: u32 where "T_ALIGN = 17"
definition T_MCHK :: u32 where "T_MCHK = 18"
definition T_SIMDERR :: u32 where "T_SIMDERR = 19"
definition T_SYSCALL :: u32 where "T_SYSCALL = 48"

lemmas trap_numbers = T_DIVIDE_def T_DEBUG_def T_NMI_def T_BRKPT_def T_OFLOW_def T_BOUND_def
  T_ILLOP_def T_DEVICE_def T_DBLFLT_def T_TSS_def T_SEGNP_def T_STACK_def T_GPFLT_def T_PGFLT_def
  T_FPERR_def T_ALIGN_def T_MCHK_def T_SIMDERR_def T_SYSCALL_def

definition excnames :: "string list" where
  "excnames = [''Divide error'', ''Debug'', ''Non-Maskable Interrupt'', ''Breakpoint'', ''Overflow'',
     ''BOUND Range Exceeded'', ''Invalid Opcode'', ''Device Not Available'', ''Double Fault'',
     ''Coprocessor Segment Overrun'', ''Invalid TSS'', ''Segment Not Present'', ''Stack Fault'',
     ''General Protection'', ''Page Fault'', ''(unknown trap)'', ''x87 FPU Floating-Point Error'',
     ''Alignment Check'', ''Machine-Check'', ''SIMD Floating-Point Exception'']"

text \<open>\<^verbatim>\<open>trapno < ARRAY_SIZE(excnames)\<close> compares unsigned numbers.\<close>

definition trapname :: "u32 \<Rightarrow> string" where
  "trapname trapno =
     (if trapno < of_nat (length excnames) then excnames ! unat trapno
      else if trapno = T_SYSCALL then ''System call'' else ''(unknown trap)'')"

section \<open>Printing\<close>

text \<open>One action after the other.\<close>

fun in_turn :: "('s \<Rightarrow> 's option) list \<Rightarrow> 's \<Rightarrow> 's option" where
  "in_turn [] s = Some s"
| "in_turn (f # fs) s = Option.bind (f s) (in_turn fs)"

definition NL :: string where "NL = [CHR 0x0A]"

definition print_regs :: "device \<Rightarrow> push_regs \<Rightarrow> kio \<Rightarrow> kio option" where
  "print_regs dev regs = in_turn [
     print dev (''  edi  0x%08x'' @ NL) [] [reg_edi regs],
     print dev (''  esi  0x%08x'' @ NL) [] [reg_esi regs],
     print dev (''  ebp  0x%08x'' @ NL) [] [reg_ebp regs],
     print dev (''  oesp 0x%08x'' @ NL) [] [reg_oesp regs],
     print dev (''  ebx  0x%08x'' @ NL) [] [reg_ebx regs],
     print dev (''  edx  0x%08x'' @ NL) [] [reg_edx regs],
     print dev (''  ecx  0x%08x'' @ NL) [] [reg_ecx regs],
     print dev (''  eax  0x%08x'' @ NL) [] [reg_eax regs]]"

text \<open>
  A \<^verbatim>\<open>struct Trapframe *\<close> is its address with the frame it points to. \<open>last_tf\<close> is the
  address of the last real trap frame.
\<close>

type_synonym tf_ptr = "u32 \<times> trapframe"

definition print_trapframe :: "machine \<Rightarrow> u32 \<Rightarrow> tf_ptr \<Rightarrow> kio \<Rightarrow> kio option" where
  "print_trapframe mc last_tf p =
     (let (a, tf) = p; dev = devs mc in in_turn [
      print dev (''TRAP frame at %p'' @ NL) [] [a],
      print_regs dev (tf_regs tf),
      print dev (''  es   0x----%04x'' @ NL) [] [ucast (tf_es tf)],
      print dev (''  ds   0x----%04x'' @ NL) [] [ucast (tf_ds tf)],
      print dev (''  trap 0x%08x %s'' @ NL) [trapname (tf_trapno tf)] [tf_trapno tf, ARG 0],
      (if a = last_tf \<and> tf_trapno tf = T_PGFLT
       then print dev (''  cr2  0x%08x'' @ NL) [] [cr2 mc] else Some),
      print dev ''  err  0x%08x'' [] [tf_err tf],
      (if tf_trapno tf = T_PGFLT
       then print dev ('' [%s, %s, %s]'' @ NL)
         [if tf_err tf AND 4 \<noteq> 0 then ''user'' else ''kernel'',
          if tf_err tf AND 2 \<noteq> 0 then ''write'' else ''read'',
          if tf_err tf AND 1 \<noteq> 0 then ''protection'' else ''not-present''] [ARG 0, ARG 1, ARG 2]
       else print dev NL [] []),
      print dev (''  eip  0x%08x'' @ NL) [] [tf_eip tf],
      print dev (''  cs   0x----%04x'' @ NL) [] [ucast (tf_cs tf)],
      print dev (''  flag 0x%08x'' @ NL) [] [tf_eflags tf],
      (if tf_cs tf AND 3 \<noteq> 0
       then in_turn [print dev (''  esp  0x%08x'' @ NL) [] [tf_esp tf],
                     print dev (''  ss   0x----%04x'' @ NL) [] [ucast (tf_ss tf)]]
       else Some)])"

section \<open>Printing touches the console only\<close>

text \<open>An action that, when it returns, has changed nothing but what is on the console.\<close>

definition only_prints :: "device \<Rightarrow> (kio \<Rightarrow> kio option) \<Rightarrow> bool" where
  "only_prints dev f \<longleftrightarrow> (\<forall>s s'. f s = Some s' \<longrightarrow>
     (\<exists>cs. s' = s\<lparr>con := put_all dev cs (con s)\<rparr>))"

lemma put_all_twice: "put_all dev ds (put_all dev cs c) = put_all dev (cs @ ds) c"
  by (simp add: put_all_def)

lemma only_prints_print: "only_prints dev (print dev fmt ss as)"
  by (auto simp: only_prints_def print_sent)

lemma only_prints_Some: "only_prints dev Some"
  by (auto simp: only_prints_def put_all_def intro!: exI [of _ "[]"])

lemma only_prints_bind:
  assumes "only_prints dev f" and "only_prints dev g"
  shows "only_prints dev (\<lambda>s. Option.bind (f s) g)"
  unfolding only_prints_def
proof (intro allI impI)
  fix s s'
  assume "Option.bind (f s) g = Some s'"
  then obtain s1 where s1: "f s = Some s1" "g s1 = Some s'" by (auto simp: Option.bind_eq_Some_conv)
  obtain cs where cs: "s1 = s\<lparr>con := put_all dev cs (con s)\<rparr>" using assms(1) s1(1) by (auto simp: only_prints_def)
  obtain ds where ds: "s' = s1\<lparr>con := put_all dev ds (con s1)\<rparr>" using assms(2) s1(2) by (auto simp: only_prints_def)
  show "\<exists>cs. s' = s\<lparr>con := put_all dev cs (con s)\<rparr>"
    by (rule exI [of _ "cs @ ds"]) (simp add: cs ds put_all_twice)
qed

lemma only_prints_in_turn: "\<forall>f \<in> set fs. only_prints dev f \<Longrightarrow> only_prints dev (in_turn fs)"
proof (induction fs)
  case Nil
  have "in_turn [] = (Some :: kio \<Rightarrow> kio option)" by (rule ext) simp
  then show ?case by (simp add: only_prints_Some)
next
  case (Cons f fs)
  have "in_turn (f # fs) = (\<lambda>s. Option.bind (f s) (in_turn fs))" by (rule ext) simp
  moreover have "only_prints dev (\<lambda>s. Option.bind (f s) (in_turn fs))"
    using Cons by (intro only_prints_bind) simp_all
  ultimately show ?case by (simp only:)
qed

lemma only_prints_regs: "only_prints dev (print_regs dev regs)"
  unfolding print_regs_def by (rule only_prints_in_turn) (simp add: only_prints_print)

lemma only_prints_trapframe: "only_prints (devs mc) (print_trapframe mc last_tf p)"
  unfolding print_trapframe_def Let_def case_prod_beta
  by (rule only_prints_in_turn)
    (simp add: only_prints_print only_prints_regs only_prints_Some only_prints_in_turn del: in_turn.simps)

section \<open>Printing returns\<close>

definition returns :: "('s \<Rightarrow> 's option) \<Rightarrow> bool" where
  "returns f \<longleftrightarrow> (\<forall>s. \<exists>s'. f s = Some s')"

lemma returns_Some: "returns Some" by (simp add: returns_def)

lemma returns_in_turn: "list_all returns fs \<Longrightarrow> returns (in_turn fs)"
proof (induction fs)
  case (Cons f fs)
  then have f: "\<exists>s'. f s = Some s'" "\<exists>s'. in_turn fs s = Some s'" for s by (simp_all add: returns_def)
  show ?case unfolding returns_def
  proof
    fix s
    obtain s1 s2 where "f s = Some s1" "in_turn fs s1 = Some s2" using f by meson
    then show "\<exists>s'. in_turn (f # fs) s = Some s'" by simp
  qed
qed (simp add: returns_def)

lemma returns_text: "plain_text fmt \<Longrightarrow> length fmt < 2 ^ 31 \<Longrightarrow> returns (print dev fmt ss as)"
  using print_text by (fastforce simp: returns_def)

lemma returns_number:
  assumes "map chr fmt = map chr pre @ item_bytes (Num z w k) @ map chr post" and "length fmt < 2 ^ 31"
    and "plain_text pre" and "plain_text post"
  shows "returns (print dev fmt ss as)"
  unfolding returns_def using print_number [OF assms] by blast

text \<open>The fields of a frame: a label, \<open>0x\<close> or dashes, the number, a line end.\<close>

lemma returns_field:
  assumes "fmt = pre @ spec @ NL" and "map chr spec = item_bytes (Num True w Hex)" and "plain_text pre" and "length fmt < 100"
  shows "returns (print dev fmt ss as)"
  by (rule returns_number [of _ pre True w Hex NL]) (use assms in \<open>simp_all add: NL_def\<close>)

lemma hex_specs: "map chr ''%08x'' = item_bytes (Num True 8 Hex)" "map chr ''%04x'' = item_bytes (Num True 4 Hex)"
  by (simp_all add: to_base.simps dchar_def)

lemma returns_word_field:
  "plain_text pre \<Longrightarrow> length pre < 50 \<Longrightarrow> returns (print dev (pre @ ''%08x'' @ NL) ss as)"
  "plain_text pre \<Longrightarrow> length pre < 50 \<Longrightarrow> returns (print dev (pre @ ''%04x'' @ NL) ss as)"
proof -
  show "returns (print dev (pre @ ''%08x'' @ NL) ss as)" if "plain_text pre" "length pre < 50"
    by (rule returns_field [OF refl hex_specs(1)]) (use that in \<open>simp_all add: NL_def\<close>)
  show "returns (print dev (pre @ ''%04x'' @ NL) ss as)" if "plain_text pre" "length pre < 50"
    by (rule returns_field [OF refl hex_specs(2)]) (use that in \<open>simp_all add: NL_def\<close>)
qed

lemma returns_regs: "returns (print_regs dev regs)"
  unfolding print_regs_def
  using returns_word_field(1) [of "''  edi  0x''"] returns_word_field(1) [of "''  esi  0x''"]
    returns_word_field(1) [of "''  ebp  0x''"] returns_word_field(1) [of "''  oesp 0x''"]
    returns_word_field(1) [of "''  ebx  0x''"] returns_word_field(1) [of "''  edx  0x''"]
    returns_word_field(1) [of "''  ecx  0x''"] returns_word_field(1) [of "''  eax  0x''"]
  by (intro returns_in_turn) simp

lemma trapname_text: "0 \<notin> set (map chr (trapname n))" "length (trapname n) < 4096"
proof -
  have len: "length excnames = 20" by (simp add: excnames_def)
  have "\<forall>nm \<in> set excnames. 0 \<notin> set (map chr nm) \<and> length nm < 4096" by (simp add: excnames_def)
  moreover have "trapname n \<in> set excnames \<union> {''System call'', ''(unknown trap)''}"
    using nth_mem [of "unat n" excnames] by (auto simp: trapname_def len word_less_nat_alt)
  ultimately show "0 \<notin> set (map chr (trapname n))" "length (trapname n) < 4096" by auto
qed

lemma returns_trap_line: "returns (print dev (''  trap 0x%08x %s'' @ NL) [trapname n] [a, ARG 0])"
proof -
  let ?its = "plain ''  trap 0x'' @ Num True 8 Hex # plain '' '' @ Str # plain NL"
  have b: "map chr (''  trap 0x%08x %s'' @ NL) = concat (map item_bytes ?its)"
    by (simp add: to_base.simps dchar_def)
  have "good_items (lits [trapname n] (kmem s)) (arg_list [a, ARG 0]) 0 ?its" for s
    using lits_nth [of 0 "[trapname n]" "kmem s"] trapname_text [of n] good_plain [of NL _ _ _ "[]"]
    by (auto simp: good_plain arg_list_def NL_def)
  from print_returns [OF b _ this, of dev] show ?thesis unfolding returns_def by (fastforce simp: NL_def)
qed

lemma returns_error_line:
  assumes "\<forall>x \<in> {x, y, z}. 0 \<notin> set (map chr x) \<and> length x < 4096"
  shows "returns (print dev ('' [%s, %s, %s]'' @ NL) [x, y, z] [ARG 0, ARG 1, ARG 2])"
proof -
  let ?its = "plain '' ['' @ Str # plain '', '' @ Str # plain '', '' @ Str # plain (CHR '']'' # NL)"
  have b: "map chr ('' [%s, %s, %s]'' @ NL) = concat (map item_bytes ?its)" by simp
  have "good_items (lits [x, y, z] (kmem s)) (arg_list [ARG 0, ARG 1, ARG 2]) 0 ?its" for s
    using lits_nth [of 0 "[x, y, z]" "kmem s"] lits_nth [of 1 "[x, y, z]" "kmem s"] lits_nth [of 2 "[x, y, z]" "kmem s"]
      assms good_plain [of "CHR '']'' # NL" _ _ _ "[]"]
    by (auto simp: good_plain arg_list_def NL_def)
  from print_returns [OF b _ this, of dev] show ?thesis unfolding returns_def by (fastforce simp: NL_def)
qed

lemma returns_pointer_line:
  assumes "fmt = pre @ ''%p'' @ NL" and "plain_text pre" and "length pre < 50"
  shows "returns (print dev fmt ss as)"
  by (rule returns_number [of _ pre False 0 Pointer NL]) (use assms in \<open>simp_all add: NL_def\<close>)

lemma returns_trapframe: "returns (print_trapframe mc ltf p)"
proof -
  obtain a tf where p: "p = (a, tf)" by (cases p)
  let ?dev = "devs mc"
  have err: "returns (print ?dev ''  err  0x%08x'' [] [tf_err tf])"
    by (rule returns_number [of _ "''  err  0x''" True 8 Hex "[]"]) (simp_all add: to_base.simps dchar_def)
  have nl: "returns (print ?dev NL [] [])" by (rule returns_text) (simp_all add: NL_def)
  have words: "''user'' = s \<or> ''kernel'' = s \<or> ''write'' = s \<or> ''read'' = s \<or> ''protection'' = s \<or> ''not-present'' = s
      \<Longrightarrow> 0 \<notin> set (map chr s) \<and> length s < 4096" for s by auto
  have flags: "returns (print ?dev ('' [%s, %s, %s]'' @ NL)
         [if tf_err tf AND 4 \<noteq> 0 then ''user'' else ''kernel'',
          if tf_err tf AND 2 \<noteq> 0 then ''write'' else ''read'',
          if tf_err tf AND 1 \<noteq> 0 then ''protection'' else ''not-present''] [ARG 0, ARG 1, ARG 2])"
    by (rule returns_error_line) (auto intro: words)
  have tail: "returns (in_turn [print ?dev (''  esp  0x%08x'' @ NL) [] [tf_esp tf],
                     print ?dev (''  ss   0x----%04x'' @ NL) [] [ucast (tf_ss tf)]])"
    using returns_word_field(1) [of "''  esp  0x''"] returns_word_field(2) [of "''  ss   0x----''"]
    by (intro returns_in_turn) simp
  have head: "returns (print ?dev (''TRAP frame at %p'' @ NL) [] [a])"
    by (rule returns_pointer_line [where pre = "''TRAP frame at ''"]) simp_all
  show ?thesis
    unfolding print_trapframe_def p prod.case Let_def
    using returns_word_field(2) [of "''  es   0x----''"] returns_word_field(2) [of "''  ds   0x----''"]
      returns_word_field(1) [of "''  cr2  0x''"] returns_word_field(1) [of "''  eip  0x''"]
      returns_word_field(2) [of "''  cs   0x----''"] returns_word_field(1) [of "''  flag 0x''"]
      err nl flags tail head returns_regs returns_trap_line
    by (intro returns_in_turn) (simp add: returns_Some del: in_turn.simps)
qed

end
