(* ===== verification/Monitor.thy ===== *)
theory Monitor
  imports Trapframe
begin

text \<open>
  The kernel monitor, \<^verbatim>\<open>kern/monitor.c\<close>: the split of a command line into arguments, the
  commands, and the loop that reads and runs them.

  A command line is in kernel memory, and splitting it writes terminators into it. Reads of
  the stack by \<open>mon_backtrace\<close> are reads of kernel memory; a read of an address that is not
  mapped is not modelled.
\<close>

section \<open>Commands\<close>

datatype command = Help | Kerninfo | Backtrace

definition commands :: "(string \<times> string \<times> command) list" where
  "commands =
     [(''help'', ''Display this list of commands'', Help),
      (''kerninfo'', ''Display information about the kernel'', Kerninfo),
      (''backtrace'', ''Display a backtrace of the function stack'', Backtrace)]"

definition mon_help :: "machine \<Rightarrow> kio \<Rightarrow> (int \<times> kio) option" where
  "mon_help mc s =
     map_option (Pair 0) (in_turn (map (\<lambda>(name, desc, c).
       print (devs mc) (''%s - %s'' @ NL) [name, desc] [ARG 0, ARG 1]) commands) s)"

text \<open>The difference of the two pointers is positive: the division is that of its value.\<close>

definition mon_kerninfo :: "machine \<Rightarrow> kio \<Rightarrow> (int \<times> kio) option" where
  "mon_kerninfo mc s =
     (let dev = devs mc; k = syms mc in
      map_option (Pair 0) (in_turn [
        print dev (''Special kernel symbols:'' @ NL) [] [],
        print dev (''  _start                  %08x (phys)'' @ NL) [] [k_start k],
        print dev (''  entry  %08x (virt)  %08x (phys)'' @ NL) [] [k_entry k, k_entry k - KERNBASE],
        print dev (''  etext  %08x (virt)  %08x (phys)'' @ NL) [] [k_etext k, k_etext k - KERNBASE],
        print dev (''  edata  %08x (virt)  %08x (phys)'' @ NL) [] [k_edata k, k_edata k - KERNBASE],
        print dev (''  end    %08x (virt)  %08x (phys)'' @ NL) [] [k_end k, k_end k - KERNBASE],
        print dev (''Kernel executable memory footprint: %dKB'' @ NL) []
          [of_int (sint (ROUNDUP (k_end k - k_entry k) 1024) div 1024)]] s))"

text \<open>Frame by frame from \<open>ebp\<close>, until the saved frame pointer is null.\<close>

definition CRNL :: string where "CRNL = [CHR 0x0D, CHR 0x0A]"

definition frame_word :: "kio \<Rightarrow> u32 \<Rightarrow> u32 \<Rightarrow> u32" where
  "frame_word s fp i = load32 (kmem s) (fp + 4 * i)"

definition backtrace_frame :: "machine \<Rightarrow> u32 \<Rightarrow> kio \<Rightarrow> kio option" where
  "backtrace_frame mc fp s =
     Option.bind (print (devs mc) (''    ebp %08x eip %08x args %08x %08x %08x %08x %08x'' @ CRNL) []
         [fp, frame_word s fp 1, frame_word s fp 2, frame_word s fp 3, frame_word s fp 4,
          frame_word s fp 5, frame_word s fp 6] s) (\<lambda>s.
     Option.bind (debuginfo_eip (devs mc) (stabs mc) (frame_word s fp 1) s) (\<lambda>(result, info, s).
     if result \<noteq> 0 then print (devs mc) (''failed'' @ CRNL) [] [frame_word s fp 1] s
     else print (devs mc) ([CHR 0x09] @ ''%s:%d: %.*s+%u'' @ CRNL) [''<unknown>'']
            [eip_file info, of_int (eip_line info), of_int (eip_fn_namelen info), eip_fn_name info,
             frame_word s fp 1 - eip_fn_addr info] s))"

partial_function (option) backtrace_loop :: "machine \<Rightarrow> u32 \<Rightarrow> kio \<Rightarrow> kio option" where
  "backtrace_loop mc fp s =
     (if fp \<noteq> 0 then Option.bind (backtrace_frame mc fp s) (\<lambda>s. backtrace_loop mc (frame_word s fp 0) s)
      else Some s)"

definition mon_backtrace :: "machine \<Rightarrow> kio \<Rightarrow> (int \<times> kio) option" where
  "mon_backtrace mc s =
     Option.bind (print (devs mc) (''Stack backtrace:'' @ CRNL) [] [] s) (\<lambda>s.
     map_option (Pair 0) (backtrace_loop mc (ebp mc) s))"

fun run_command :: "command \<Rightarrow> machine \<Rightarrow> kio \<Rightarrow> (int \<times> kio) option" where
  "run_command Help mc s = mon_help mc s"
| "run_command Kerninfo mc s = mon_kerninfo mc s"
| "run_command Backtrace mc s = mon_backtrace mc s"

section \<open>The command line\<close>

definition WHITESPACE :: string where "WHITESPACE = [CHR 0x09, CHR 0x0D, CHR 0x0A, CHR '' '']"
definition MAXARGS :: nat where "MAXARGS = 16"

text \<open>\<^verbatim>\<open>strchr(WHITESPACE, c)\<close> as a condition.\<close>

definition in_whitespace :: "u8 \<Rightarrow> bool" where
  "in_whitespace c = (case strchr (lit_mem WHITESPACE) LIT c of Some p \<Rightarrow> p \<noteq> 0 | None \<Rightarrow> False)"

partial_function (option) gobble :: "memory \<Rightarrow> u32 \<Rightarrow> (memory \<times> u32) option" where
  "gobble m buf = (if m buf \<noteq> 0 \<and> in_whitespace (m buf) then gobble (m(buf := 0)) (buf + 1) else Some (m, buf))"

partial_function (option) skip_arg :: "memory \<Rightarrow> u32 \<Rightarrow> u32 option" where
  "skip_arg m buf = (if m buf \<noteq> 0 \<and> \<not> in_whitespace (m buf) then skip_arg m (buf + 1) else Some buf)"

text \<open>
  \<open>argv\<close> holds the \<^verbatim>\<open>argc\<close> arguments found so far; the result has none when there are
  too many.
\<close>

partial_function (option) parse_args :: "memory \<Rightarrow> u32 \<Rightarrow> u32 list \<Rightarrow> (memory \<times> u32 list option) option" where
  "parse_args m buf argv =
     Option.bind (gobble m buf) (\<lambda>(m, buf).
     if m buf = 0 then Some (m, Some argv)
     else if length argv = MAXARGS - 1 then Some (m, None)
     else Option.bind (skip_arg m buf) (\<lambda>next. parse_args m next (argv @ [buf])))"

text \<open>The lookup: the first command of that name.\<close>

fun find_command :: "(string \<times> string \<times> command) list \<Rightarrow> memory \<Rightarrow> u32 \<Rightarrow> command option option" where
  "find_command [] m arg = Some None"
| "find_command ((name, desc, c) # cs) m arg =
     Option.bind (strcmp (lits [name] m) arg (ARG 0)) (\<lambda>r.
     if r = 0 then Some (Some c) else find_command cs m arg)"

definition runcmd :: "machine \<Rightarrow> u32 \<Rightarrow> kio \<Rightarrow> (int \<times> kio) option" where
  "runcmd mc buf s =
     Option.bind (parse_args (kmem s) buf []) (\<lambda>(m, r). let s = s\<lparr>kmem := m\<rparr> in case r of
       None \<Rightarrow> map_option (Pair 0) (print (devs mc) (''Too many arguments (max %d)'' @ NL) [] [of_nat MAXARGS] s)
     | Some argv \<Rightarrow>
         if length argv = 0 then Some (0, s)
         else Option.bind (find_command commands (kmem s) (argv ! 0)) (\<lambda>found. case found of
             Some c \<Rightarrow> run_command c mc s
           | None \<Rightarrow> map_option (Pair 0) (print (devs mc) (''Unknown command '' @ [CHR 0x27] @ ''%s'' @ [CHR 0x27] @ NL) []
                       [argv ! 0] s)))"

section \<open>The loop\<close>

text \<open>\<open>buf\<close> is the buffer of \<open>readline\<close>.\<close>

partial_function (option) monitor_loop :: "machine \<Rightarrow> u32 \<Rightarrow> kio \<Rightarrow> kio option" where
  "monitor_loop mc buf s =
     Option.bind (readline (devs mc) buf (Some ''K> '') s) (\<lambda>(line, s).
     if line \<noteq> 0 then
       Option.bind (runcmd mc line s) (\<lambda>(r, s). if r < 0 then Some s else monitor_loop mc buf s)
     else monitor_loop mc buf s)"

definition monitor :: "machine \<Rightarrow> u32 \<Rightarrow> u32 \<Rightarrow> tf_ptr option \<Rightarrow> kio \<Rightarrow> kio option" where
  "monitor mc buf last_tf tf s = in_turn [
     print (devs mc) (''Welcome to the JOS kernel monitor!'' @ NL) [] [],
     print (devs mc) (''Type '' @ [CHR 0x27] @ ''help'' @ [CHR 0x27] @ '' for a list of commands.'' @ NL) [] [],
     (case tf of None \<Rightarrow> Some | Some p \<Rightarrow> print_trapframe mc last_tf p),
     monitor_loop mc buf] s"

section \<open>No command ends the monitor\<close>

lemma run_command_0: "run_command c mc s = Some (r, s') \<Longrightarrow> r = 0"
  by (cases c) (auto simp: mon_help_def mon_kerninfo_def mon_backtrace_def Let_def Option.bind_eq_Some_conv)

lemma runcmd_0: "runcmd mc buf s = Some (r, s') \<Longrightarrow> r = 0"
  by (auto simp: runcmd_def Let_def Option.bind_eq_Some_conv dest: run_command_0 split: option.splits if_splits)

lemma monitor_loop_runs: "monitor_loop mc buf s \<noteq> Some s'"
proof
  assume "monitor_loop mc buf s = Some s'"
  then show False
  proof (induction rule: monitor_loop.raw_induct [rotated 1, consumes 1, case_names step])
    case (step ml mc buf s s')
    then show ?case
      by (auto simp: Option.bind_eq_Some_conv dest: runcmd_0 split: if_splits)
  qed
qed

lemma monitor_None: "monitor mc buf ltf tf s = None"
proof -
  have "monitor_loop mc buf s = None" for s
    using monitor_loop_runs by (cases "monitor_loop mc buf s") auto
  then show ?thesis
    by (simp add: monitor_def Option.bind_eq_None_conv)
qed

section \<open>The words of a line\<close>

lemma in_whitespace_iff: "c \<noteq> 0 \<Longrightarrow> in_whitespace c \<longleftrightarrow> c \<in> {0x09, 0x0A, 0x0D, 0x20}"
proof -
  assume c: "c \<noteq> 0"
  have ws: "cstr (lit_mem WHITESPACE) LIT [0x09, 0x0D, 0x0A, 0x20]"
    using lit_mem_cstr [of WHITESPACE] by (simp add: WHITESPACE_def)
  show ?thesis
    using strchr_cstr [OF ws c] by (auto simp: in_whitespace_def LIT_def)
qed

definition blank :: "u8 \<Rightarrow> bool" where
  "blank c \<longleftrightarrow> c \<in> {0x09, 0x0A, 0x0D, 0x20}"

function words :: "u8 list \<Rightarrow> u8 list list" where
  "words l = (case dropWhile blank l of [] \<Rightarrow> []
     | x # xs \<Rightarrow> (x # takeWhile (\<lambda>c. \<not> blank c) xs) # words (dropWhile (\<lambda>c. \<not> blank c) xs))"
  by pat_completeness auto
termination
proof (relation "measure length", goal_cases)
  case (2 l x xs)
  have "length (dropWhile (\<lambda>c. \<not> blank c) xs) \<le> length xs" by (rule length_dropWhile_le)
  also have "length xs < length (dropWhile blank l)" using 2 by simp
  also have "length (dropWhile blank l) \<le> length l" by (rule length_dropWhile_le)
  finally show ?case by simp
qed simp

declare words.simps [simp del]

text \<open>What splitting leaves of a line: blanks become terminators.\<close>

definition cut :: "u8 \<Rightarrow> u8" where "cut c = (if blank c then 0 else c)"

lemma blank_nonzero: "blank c \<Longrightarrow> c \<noteq> 0" by (auto simp: blank_def)

lemma ws_blank: "c \<noteq> 0 \<Longrightarrow> in_whitespace c = blank c"
  by (simp add: in_whitespace_iff blank_def)

text \<open>The memory \<open>m'\<close> differs from \<open>m\<close> only in the \<open>n\<close> bytes from \<open>a\<close>.\<close>

definition only_in :: "memory \<Rightarrow> memory \<Rightarrow> u32 \<Rightarrow> nat \<Rightarrow> bool" where
  "only_in m m' a n \<longleftrightarrow> (\<forall>x. \<not> in_range a n x \<longrightarrow> m' x = m x)"

lemma only_in_refl [simp]: "only_in m m a n" by (simp add: only_in_def)

lemma only_in_split:
  assumes "only_in m m1 a j" and "only_in m1 m2 (a + of_nat k) n" and "j \<le> N" and "k + n \<le> N" and "N \<le> 2 ^ 32"
  shows "only_in m m2 a N"
proof -
  have "in_range a N x" if "in_range a j x \<or> in_range (a + of_nat k) n x" for x
    using that
  proof
    assume "in_range a j x"
    then show ?thesis using assms(3) by (simp add: in_range_def)
  next
    assume "in_range (a + of_nat k) n x"
    then obtain i where "i < n" "x = a + of_nat k + of_nat i"
      using assms(4,5) by (subst (asm) in_range_offset) auto
    then show ?thesis
      using assms(4,5) by (subst in_range_offset) (auto intro!: exI [of _ "k + i"] simp: add.assoc)
  qed
  then show ?thesis using assms(1,2) unfolding only_in_def by metis
qed

lemma only_in_bytes:
  assumes "only_in m m' (a + of_nat k) n" and "k + n \<le> 2 ^ 32" and "length xs \<le> k"
  shows "bytes_at m' a xs = bytes_at m a xs"
proof -
  have "\<not> in_range (a + of_nat k) n (a + of_nat i)" if "i < length xs" for i
  proof
    assume "in_range (a + of_nat k) n (a + of_nat i)"
    then obtain j where j: "j < n" "a + of_nat i = a + of_nat k + of_nat j"
      using assms(2) by (subst (asm) in_range_offset) auto
    then have "(of_nat i :: u32) = of_nat (k + j)" by simp
    from arg_cong [OF this, of unat] have "i = k + j"
      using j(1) that assms(2,3) unat_of_nat_small [of i, where 'a = 32]
        unat_of_nat_small [of "k + j", where 'a = 32]
      by simp
    then show False using that assms(3) by simp
  qed
  then show ?thesis using assms(1) by (simp add: bytes_at_nth only_in_def)
qed

lemma gobble_spec:
  assumes "bytes_at m b (bs @ [c])" and "\<forall>x \<in> set bs. blank x" and "\<not> blank c" and "length bs < 2 ^ 32"
  shows "\<exists>m'. gobble m b = Some (m', b + of_nat (length bs)) \<and> bytes_at m' b (map cut bs)
    \<and> only_in m m' b (length bs)"
  using assms
proof (induction bs arbitrary: m b)
  case Nil
  then have "\<not> (m b \<noteq> 0 \<and> in_whitespace (m b))" using ws_blank by (cases "m b = 0") auto
  then have "gobble m b = Some (m, b)" by (subst gobble.simps) auto
  then show ?case by simp
next
  case (Cons x bs)
  have x: "m b = x" "blank x" "x \<noteq> 0" using Cons.prems(1,2) blank_nonzero by auto
  let ?m = "m(b := 0)"
  have d: "b \<noteq> b + 1 + of_nat i" if "i < Suc (length bs)" for i
  proof
    assume "b = b + 1 + of_nat i"
    then have "b + of_nat (Suc i) = b + of_nat 0" by simp
    then have "(of_nat (Suc i) :: u32) = of_nat 0" by (simp only: add_left_cancel)
    from arg_cong [OF this, of unat] show False
      using that Cons.prems(4) unat_of_nat_small [of "Suc i", where 'a = 32] by simp
  qed
  have tail: "bytes_at m (b + 1) (bs @ [c])" using Cons.prems(1) by simp
  have "?m (b + 1 + of_nat i) = (bs @ [c]) ! i" if i: "i < length (bs @ [c])" for i
  proof -
    have "b + 1 + of_nat i \<noteq> b" using d [of i] i by auto
    then have "?m (b + 1 + of_nat i) = m (b + 1 + of_nat i)" by (rule fun_upd_other)
    also have "\<dots> = (bs @ [c]) ! i" using tail i unfolding bytes_at_nth by (elim allE impE)
    finally show ?thesis .
  qed
  then have rest: "bytes_at ?m (b + 1) (bs @ [c])" unfolding bytes_at_nth by (intro allI impI)
  have "length bs < 2 ^ 32" "\<forall>x \<in> set bs. blank x" using Cons.prems by simp_all
  from Cons.IH [OF rest this(2) Cons.prems(3) this(1)] obtain m' where
    m': "gobble ?m (b + 1) = Some (m', b + 1 + of_nat (length bs))" "bytes_at m' (b + 1) (map cut bs)"
      "only_in ?m m' (b + 1) (length bs)" by blast
  have "gobble m b = gobble ?m (b + 1)"
    using x ws_blank by (subst gobble.simps) simp
  then have g: "gobble m b = Some (m', b + of_nat (length (x # bs)))" by (simp add: m'(1) add.assoc)
  have "bytes_at m' b [0] = bytes_at ?m b [0]"
    using only_in_bytes [of ?m m' b 1 "length bs" "[0]"] m'(3) Cons.prems(4) by simp
  then have "bytes_at m' b (map cut (x # bs))" using m'(2) x(2) by (simp add: cut_def)
  moreover have "only_in m m' b (length (x # bs))"
  proof (rule only_in_split [of m ?m b 1 m' 1 "length bs"])
    show "only_in m ?m b 1" by (simp add: only_in_def in_range_def)
    show "only_in ?m m' (b + of_nat 1) (length bs)" using m'(3) by simp
  qed (use Cons.prems(4) in simp_all)
  ultimately show ?case using g by blast
qed

lemma skip_arg_spec:
  assumes "bytes_at m b (w @ [c])" and "\<forall>x \<in> set w. \<not> blank x \<and> x \<noteq> 0" and "blank c \<or> c = 0"
  shows "skip_arg m b = Some (b + of_nat (length w))"
  using assms
proof (induction w arbitrary: b)
  case Nil
  then have "\<not> (m b \<noteq> 0 \<and> \<not> in_whitespace (m b))" using ws_blank by auto
  then show ?case by (subst skip_arg.simps) auto
next
  case (Cons x w)
  then have "m b \<noteq> 0 \<and> \<not> in_whitespace (m b)" using ws_blank by auto
  then have "skip_arg m b = skip_arg m (b + 1)" by (subst skip_arg.simps) simp
  also have "\<dots> = Some (b + 1 + of_nat (length w))" using Cons by auto
  finally show ?case by (simp add: add.assoc)
qed

lemma words_Nil: "dropWhile blank l = [] \<Longrightarrow> words l = []"
  by (subst words.simps) (simp only: list.case)

lemma words_Cons:
  assumes "\<forall>x \<in> set bs. blank x" and "w \<noteq> []" and "\<forall>x \<in> set w. \<not> blank x"
    and "l' = [] \<or> blank (hd l')"
  shows "words (bs @ w @ l') = w # words l'"
proof -
  have d: "dropWhile blank (bs @ w @ l') = w @ l'"
    using assms(1-3) by (cases w) (simp_all add: dropWhile_append)
  obtain x xs where w: "w = x # xs" using assms(2) by (cases w) auto
  have "takeWhile (\<lambda>c. \<not> blank c) (xs @ l') = xs" "dropWhile (\<lambda>c. \<not> blank c) (xs @ l') = l'"
    using assms(3,4) w by (cases l'; simp)+
  then show ?thesis using d w by (subst words.simps) simp
qed

text \<open>The shape of a line: blanks, then the end or a word and what follows it.\<close>

lemma line_cases:
  obtains (blank) "\<forall>x \<in> set l. blank x"
  | (word) bs w l' where "l = bs @ w @ l'" "\<forall>x \<in> set bs. blank x" "w \<noteq> []" "\<forall>x \<in> set w. \<not> blank x"
      "l' = [] \<or> blank (hd l')"
proof (cases "\<forall>x \<in> set l. blank x")
  case False
  let ?r = "dropWhile blank l"
  have "?r \<noteq> []" using False by (auto simp: dropWhile_eq_Nil_conv)
  then have hd: "\<not> blank (hd ?r)" by (rule hd_dropWhile)
  have "l = takeWhile blank l @ takeWhile (\<lambda>c. \<not> blank c) ?r @ dropWhile (\<lambda>c. \<not> blank c) ?r" by simp
  moreover have "takeWhile (\<lambda>c. \<not> blank c) ?r \<noteq> []" using \<open>?r \<noteq> []\<close> hd by (cases ?r) auto
  moreover have "dropWhile (\<lambda>c. \<not> blank c) ?r = [] \<or> blank (hd (dropWhile (\<lambda>c. \<not> blank c) ?r))"
    using hd_dropWhile [of "\<lambda>c. \<not> blank c" ?r] by blast
  ultimately show ?thesis using word by (metis set_takeWhileD)
qed (rule blank)

text \<open>
  Splitting a line: its words, each a string of its own in the memory after it, or too many.
\<close>

definition parsed :: "memory \<Rightarrow> u32 \<Rightarrow> u8 list \<Rightarrow> u32 list \<Rightarrow> memory \<Rightarrow> u32 list option \<Rightarrow> bool" where
  "parsed m b l argv m' r \<longleftrightarrow> only_in m m' b (length l)
     \<and> (if length argv + length (words l) \<le> 15
        then bytes_at m' b (map cut l @ [0]) \<and> (\<exists>ps. r = Some (argv @ ps) \<and> list_all2 (cstr m') ps (words l)
          \<and> (\<forall>p \<in> set ps. \<exists>i < length l. p = b + of_nat i))
        else r = None)"

lemma parse_args_blank:
  assumes "bytes_at m b (l @ [0])" and "length l < 2 ^ 32" and "length argv \<le> 15"
    and blank: "\<forall>x \<in> set l. blank x"
  shows "\<exists>m' r. parse_args m b argv = Some (m', r) \<and> parsed m b l argv m' r"
proof -
  from gobble_spec [OF assms(1) blank _ assms(2)] obtain m' where
    m': "gobble m b = Some (m', b + of_nat (length l))" "bytes_at m' b (map cut l)" "only_in m m' b (length l)"
    by (auto simp: blank_def)
  have "\<not> in_range b (length l) (b + of_nat (length l))"
    using assms(2) by (simp add: in_range_def unat_of_nat_small)
  then have "m' (b + of_nat (length l)) = m (b + of_nat (length l))" using m'(3) by (simp add: only_in_def)
  then have end0: "m' (b + of_nat (length l)) = 0" using assms(1) by (simp add: bytes_at_append)
  have "parse_args m b argv = Some (m', Some argv)"
    by (subst parse_args.simps) (simp add: m'(1) end0)
  moreover have "words l = []" using blank by (intro words_Nil) simp
  ultimately show ?thesis
    using m'(2,3) end0 assms(3) by (auto simp: parsed_def bytes_at_append intro!: exI [of _ m'])
qed

text \<open>Blanks before a word: only they change, and the word and what follows it stay.\<close>

lemma gobble_to_word:
  assumes "bytes_at m b (bs @ w @ l' @ [0])" and "length bs + length w + length l' < 2 ^ 32"
    and "\<forall>x \<in> set bs. blank x" and "w \<noteq> []" and "\<forall>x \<in> set w. \<not> blank x \<and> x \<noteq> 0"
  shows "\<exists>m1. gobble m b = Some (m1, b + of_nat (length bs)) \<and> bytes_at m1 b (map cut bs) \<and> only_in m m1 b (length bs)
    \<and> bytes_at m1 (b + of_nat (length bs)) (w @ l' @ [0]) \<and> m1 (b + of_nat (length bs)) \<noteq> 0"
proof -
  let ?nb = "length bs"
  let ?a = "b + of_nat ?nb"
  have pre: "bytes_at m b (bs @ [hd w])" "\<not> blank (hd w)" "?nb < 2 ^ 32"
    using assms by (cases w; simp add: bytes_at_append)+
  from gobble_spec [OF pre(1) assms(3) pre(2,3)] obtain m1 where
    m1: "gobble m b = Some (m1, ?a)" "bytes_at m1 b (map cut bs)" "only_in m m1 b ?nb" by blast
  have "\<not> in_range b ?nb (?a + of_nat i)" if "i < length (w @ l' @ [0])" for i
  proof -
    have "unat (of_nat (?nb + i) :: u32) = ?nb + i"
      using that assms(2) by (intro unat_of_nat_small) simp
    then show ?thesis by (simp add: in_range_def add.assoc flip: of_nat_add)
  qed
  then have "bytes_at m1 ?a (w @ l' @ [0]) = bytes_at m ?a (w @ l' @ [0])"
    using m1(3) by (simp only: bytes_at_nth only_in_def) metis
  then have bytes: "bytes_at m1 ?a (w @ l' @ [0])" using assms(1) by (simp add: bytes_at_append)
  then have "m1 ?a \<noteq> 0" using assms(4,5) by (cases w) auto
  then show ?thesis using m1 bytes by blast
qed

text \<open>The first word is a string once the rest of the line has been split.\<close>

lemma parsed_word:
  fixes m1 m2 :: memory
  assumes "bytes_at m1 b (map cut bs @ w)" and "only_in m m1 b (length bs)"
    and rest: "parsed m1 (b + of_nat (length bs) + of_nat (length w)) l' (argv @ [b + of_nat (length bs)]) m2 r"
    and len: "length bs + length w + length l' < 2 ^ 32"
    and w: "w \<noteq> []" "\<forall>x \<in> set w. \<not> blank x \<and> x \<noteq> 0" "l' = [] \<or> blank (hd l')"
    and ws: "words (bs @ w @ l') = w # words l'"
  shows "parsed m b (bs @ w @ l') argv m2 r"
proof -
  let ?a = "b + of_nat (length bs)"
  let ?e = "?a + of_nat (length w)"
  have only2: "only_in m1 m2 (b + of_nat (length bs + length w)) (length l')"
    using rest by (simp add: parsed_def add.assoc)
  have only: "only_in m m2 b (length (bs @ w @ l'))"
    by (rule only_in_split [OF assms(2) only2]) (use len in simp_all)
  have keep: "bytes_at m2 b (map cut bs @ w)"
    using only_in_bytes [OF only2, of "map cut bs @ w"] assms(1) len by simp
  show ?thesis
  proof (cases "length argv + length (words (bs @ w @ l')) \<le> 15")
    case True
    then obtain ps where ps: "bytes_at m2 ?e (map cut l' @ [0])" "r = Some ((argv @ [?a]) @ ps)"
      "list_all2 (cstr m2) ps (words l')" "\<forall>p \<in> set ps. \<exists>i < length l'. p = ?e + of_nat i"
      using rest ws by (auto simp: parsed_def)
    have "m2 ?e = 0" using ps(1) w(3) by (cases l') (auto simp: cut_def)
    then have "cstr m2 ?a w" using keep w(2) by (auto simp: cstr_bytes bytes_at_append)
    then have strs: "list_all2 (cstr m2) (?a # ps) (words (bs @ w @ l'))" using ps(3) ws by simp
    have "map cut w = w" using w(2) by (simp add: cut_def map_idI)
    then have line: "bytes_at m2 b (map cut (bs @ w @ l') @ [0])"
      using keep ps(1) by (simp add: bytes_at_append add.assoc)
    have start: "\<exists>i < length (bs @ w @ l'). ?a = b + of_nat i"
      using w(1) by (intro exI [of _ "length bs"]) auto
    have later: "\<exists>i < length (bs @ w @ l'). ?e + of_nat k = b + of_nat i" if "k < length l'" for k
      using that by (intro exI [of _ "length bs + length w + k"]) (simp add: add.assoc)
    have ptrs: "\<forall>p \<in> set (?a # ps). \<exists>i < length (bs @ w @ l'). p = b + of_nat i"
    proof
      fix p
      assume "p \<in> set (?a # ps)"
      then consider "p = ?a" | k where "k < length l'" "p = ?e + of_nat k" using ps(4) by auto
      then show "\<exists>i < length (bs @ w @ l'). p = b + of_nat i" by cases (simp_all only: start later)
    qed
    have "r = Some (argv @ ?a # ps)" using ps(2) by simp
    then show ?thesis using True only strs line ptrs unfolding parsed_def by (simp only: if_True) blast
  next
    case False
    then show ?thesis using rest only ws by (simp add: parsed_def)
  qed
qed

lemma parse_args_spec:
  assumes "bytes_at m b (l @ [0])" and "0 \<notin> set l" and "length l < 2 ^ 32" and "length argv \<le> 15"
  shows "\<exists>m' r. parse_args m b argv = Some (m', r) \<and> parsed m b l argv m' r"
  using assms
proof (induction "length l" arbitrary: m b l argv rule: less_induct)
  case less
  show ?case
  proof (cases rule: line_cases [of l])
    case blank
    then show ?thesis using less.prems by (intro parse_args_blank) auto
  next
    case (word bs w l')
    let ?a = "b + of_nat (length bs)" let ?e = "?a + of_nat (length w)"
    have w: "\<forall>x \<in> set w. \<not> blank x \<and> x \<noteq> 0" using word(1,4) less.prems(2) by auto
    have len: "length bs + length w + length l' < 2 ^ 32" using word(1) less.prems(3) by simp
    obtain m1 where m1: "gobble m b = Some (m1, ?a)" "bytes_at m1 b (map cut bs)" "only_in m m1 b (length bs)"
      "bytes_at m1 ?a (w @ l' @ [0])" "m1 ?a \<noteq> 0"
      using gobble_to_word [OF _ len word(2,3) w] less.prems(1) word(1) by auto
    have ws: "words (bs @ w @ l') = w # words l'" by (rule words_Cons [OF word(2-5)])
    show ?thesis
    proof (cases "length argv = 15")
      case True
      then have "parse_args m b argv = Some (m1, None)"
        using m1(5) by (subst parse_args.simps) (simp add: m1(1) MAXARGS_def)
      moreover have "only_in m m1 b (length l)"
        using m1(3) word(1) by (auto simp: only_in_def in_range_def)
      ultimately show ?thesis using True ws word(1) by (auto simp: parsed_def)
    next
      case False
      have c: "bytes_at m1 ?a (w @ [hd (l' @ [0])])" "blank (hd (l' @ [0])) \<or> hd (l' @ [0]) = 0"
        using m1(4) word(5) by (cases l'; simp add: bytes_at_append)+
      have sub: "length l' < length l" "bytes_at m1 ?e (l' @ [0])" "0 \<notin> set l'" "length l' < 2 ^ 32"
        "length (argv @ [?a]) \<le> 15"
        using word(1,3) less.prems(2,3,4) False m1(4) by (auto simp: bytes_at_append)
      from less.hyps [OF sub] obtain m2 r where
        m2: "parse_args m1 ?e (argv @ [?a]) = Some (m2, r)" "parsed m1 ?e l' (argv @ [?a]) m2 r" by blast
      have "parse_args m b argv = Some (m2, r)"
        using m1(5) False by (subst parse_args.simps) (simp add: m1(1) MAXARGS_def skip_arg_spec [OF c(1) w c(2)] m2(1))
      moreover have "bytes_at m1 b (map cut bs @ w)" using m1(2,4) by (simp add: bytes_at_append)
      from parsed_word [OF this m1(3) m2(2) len word(3) w word(5) ws] have "parsed m b l argv m2 r"
        unfolding word(1) .
      ultimately show ?thesis by blast
    qed
  qed
qed

section \<open>Looking up the command\<close>

text \<open>The literal pages are below the kernel's data.\<close>

lemma lits_kernel:
  assumes "length ss < 1000" and "8192 + 4096 * length ss \<le> unat a"
  shows "lits ss m a = m a"
proof -
  have "2 + length ss \<le> unat a div 4096" using assms(2) by simp
  then show ?thesis by (simp add: lits_def)
qed

lemma cstr_lits_kernel:
  assumes "cstr m p w" and "0xF0000000 \<le> unat p" and "unat p + length w < 2 ^ 32" and "length ss < 1000"
  shows "cstr (lits ss m) p w"
proof -
  have "lits ss m (p + of_nat i) = m (p + of_nat i)" if "i \<le> length w" for i
  proof (rule lits_kernel [OF assms(4)])
    have "unat (of_nat i :: u32) = i" using that assms(3) by (intro unat_of_nat_small) simp
    then have "unat (p + of_nat i) = unat p + i" using that assms(3) by (subst unat_less_add) simp_all
    then show "8192 + 4096 * length ss \<le> unat (p + of_nat i)" using assms(2,4) by simp
  qed
  from cstr_cong [of w "lits ss m" p m, OF this] assms(1) show ?thesis by simp
qed

lemma lits_arg:
  assumes "0 \<notin> set (map chr name)" and "length name < 4096"
  shows "cstr (lits [name] m) (ARG 0) (map chr name)"
  using lits_nth [of 0 "[name]" m] assms by simp

definition command_named :: "u8 list \<Rightarrow> command option" where
  "command_named w = (if w = map chr ''help'' then Some Help else if w = map chr ''kerninfo'' then Some Kerninfo
     else if w = map chr ''backtrace'' then Some Backtrace else None)"

lemma find_command_spec:
  assumes "cstr m p w" and "0xF0000000 \<le> unat p" and "unat p + length w < 2 ^ 32"
  shows "find_command commands m p = Some (command_named w)"
proof -
  have cmp: "\<exists>r. strcmp (lits [name] m) p (ARG 0) = Some r \<and> (r = 0 \<longleftrightarrow> w = map chr name)"
    if "0 \<notin> set (map chr name)" "length name < 4096" for name
    using strcmp_cstr [OF cstr_lits_kernel [OF assms, of "[name]"] lits_arg [OF that, of m]] by auto
  obtain r1 where r1: "strcmp (lits [''help''] m) p (ARG 0) = Some r1" "r1 = 0 \<longleftrightarrow> w = map chr ''help''"
    using cmp [of "''help''"] by auto
  obtain r2 where r2: "strcmp (lits [''kerninfo''] m) p (ARG 0) = Some r2" "r2 = 0 \<longleftrightarrow> w = map chr ''kerninfo''"
    using cmp [of "''kerninfo''"] by auto
  obtain r3 where r3: "strcmp (lits [''backtrace''] m) p (ARG 0) = Some r3" "r3 = 0 \<longleftrightarrow> w = map chr ''backtrace''"
    using cmp [of "''backtrace''"] by auto
  show ?thesis
    unfolding commands_def find_command.simps r1(1) r2(1) r3(1) bind.simps command_named_def
      r1(2) r2(2) r3(2) by simp
qed

text \<open>A string that starts in the line ends in it.\<close>

lemma word_in_line:
  assumes "bytes_at m buf (map cut l @ [0])" and "cstr m p w" and "p = buf + of_nat i"
    and "i < length l" and "unat buf + length l < 2 ^ 32"
  shows "unat p = unat buf + i \<and> i + length w \<le> length l"
proof
  have "unat (of_nat i :: u32) = i" using assms(4,5) by (intro unat_of_nat_small) simp
  then show "unat p = unat buf + i" using assms(4,5) by (subst assms(3), subst unat_less_add) simp_all
  show "i + length w \<le> length l"
  proof (rule ccontr)
    assume "\<not> i + length w \<le> length l"
    then have k: "length l - i < length w" using assms(4) by simp
    have "m (p + of_nat (length l - i)) = w ! (length l - i)"
      using assms(2) k by (simp add: cstr_bytes bytes_at_nth)
    moreover have "p + of_nat (length l - i) = buf + of_nat (length l)"
      using assms(4) by (simp add: assms(3) add.assoc flip: of_nat_add)
    moreover have "m (buf + of_nat (length l)) = 0" using assms(1) by (simp add: bytes_at_append)
    ultimately have "0 \<in> set w" using k by (metis nth_mem)
    then show False using assms(2) by (simp add: cstr_def)
  qed
qed

text \<open>The first word of a parsed line selects the command.\<close>

lemma first_word_selects:
  assumes words: "list_all2 (cstr m) argv ws" "ws = w # ws'"
    and place: "\<forall>p \<in> set argv. \<exists>i < length l. p = buf + of_nat i" and line: "bytes_at m buf (map cut l @ [0])"
    and range: "0xF0000000 \<le> unat buf" "unat buf + length l < 2 ^ 32"
  shows "argv \<noteq> [] \<and> find_command commands m (argv ! 0) = Some (command_named w)"
proof -
  obtain p ps where p: "argv = p # ps" "cstr m p w" using words by (cases argv) auto
  then obtain i where i: "i < length l" "p = buf + of_nat i" using place by auto
  have "unat p = unat buf + i \<and> i + length w \<le> length l"
    by (rule word_in_line [OF line p(2) i(2,1) range(2)])
  then have "find_command commands m p = Some (command_named w)"
    using p(2) i(1) range by (intro find_command_spec) simp_all
  then show ?thesis using p(1) by simp
qed

section \<open>Contracts\<close>

text \<open>C27: \<open>runcmd\<close> splits a command line at blanks, tabulators and line ends. An empty line
  does nothing; with up to 15 words the first one selects the command of exactly that
  name, which runs on the memory where every word has become a string of its own, or the
  line is reported as unknown; more than 15 words are refused with a message that allows
  16. Only the bytes of the line change in memory before the command runs.\<close>

theorem runcmd_runs_command:
  assumes "bytes_at (kmem s) buf (l @ [0])" and "0 \<notin> set l"
    and "0xF0000000 \<le> unat buf" and "unat buf + length l < 2 ^ 32"
  shows "\<exists>m. (\<forall>a. \<not> in_range buf (length l) a \<longrightarrow> m a = kmem s a)
    \<and> (if length (words l) > 15
       then runcmd mc buf s = map_option (Pair 0)
         (print (devs mc) (''Too many arguments (max %d)'' @ NL) [] [16] (s\<lparr>kmem := m\<rparr>))
       else case words l of [] \<Rightarrow> runcmd mc buf s = Some (0, s\<lparr>kmem := m\<rparr>)
         | w # ws \<Rightarrow> (\<exists>argv. list_all2 (cstr m) argv (words l) \<and>
             runcmd mc buf s = (case command_named w of
                 Some c \<Rightarrow> run_command c mc (s\<lparr>kmem := m\<rparr>)
               | None \<Rightarrow> map_option (Pair 0) (print (devs mc)
                   (''Unknown command '' @ [CHR 0x27] @ ''%s'' @ [CHR 0x27] @ NL) [] [argv ! 0] (s\<lparr>kmem := m\<rparr>)))))"
proof -
  have "length l < 2 ^ 32" using assms(4) by simp
  from parse_args_spec [OF assms(1,2) this, of "[]"] obtain m r where
    parse: "parse_args (kmem s) buf [] = Some (m, r)" "parsed (kmem s) buf l [] m r" by auto
  have frame: "\<forall>a. \<not> in_range buf (length l) a \<longrightarrow> m a = kmem s a"
    using parse(2) by (simp add: parsed_def only_in_def)
  show ?thesis
  proof (cases "length (words l) > 15")
    case True
    then have "r = None" using parse(2) by (auto simp: parsed_def)
    then have "runcmd mc buf s = map_option (Pair 0)
        (print (devs mc) (''Too many arguments (max %d)'' @ NL) [] [16] (s\<lparr>kmem := m\<rparr>))"
      unfolding runcmd_def by (simp add: parse(1) Let_def MAXARGS_def)
    then show ?thesis using True frame by (intro exI [of _ m]) simp
  next
    case False
    then obtain ps where ps: "r = Some ps" "list_all2 (cstr m) ps (words l)"
      "\<forall>p \<in> set ps. \<exists>i < length l. p = buf + of_nat i" "bytes_at m buf (map cut l @ [0])"
      using parse(2) by (auto simp: parsed_def not_less)
    have len: "length ps = length (words l)" using ps(2) by (rule list_all2_lengthD)
    show ?thesis
    proof (cases "words l")
      case Nil
      then have "runcmd mc buf s = Some (0, s\<lparr>kmem := m\<rparr>)"
        using ps(1) len unfolding runcmd_def by (simp add: parse(1) Let_def)
      then show ?thesis using Nil frame by (intro exI [of _ m]) simp
    next
      case (Cons w ws)
      then have "ps \<noteq> [] \<and> find_command commands m (ps ! 0) = Some (command_named w)"
        by (rule first_word_selects [OF ps(2) _ ps(3,4) assms(3,4)])
      then have "runcmd mc buf s = (case command_named w of
             Some c \<Rightarrow> run_command c mc (s\<lparr>kmem := m\<rparr>)
           | None \<Rightarrow> map_option (Pair 0) (print (devs mc)
               (''Unknown command '' @ [CHR 0x27] @ ''%s'' @ [CHR 0x27] @ NL) [] [ps ! 0] (s\<lparr>kmem := m\<rparr>)))"
        using ps(1) unfolding runcmd_def by (simp add: parse(1) Let_def split: option.split)
      then show ?thesis using False Cons ps(2) frame by (intro exI [of _ m]) auto
    qed
  qed
qed

definition blank_machine :: machine where
  "blank_machine = \<lparr>devs = (\<lambda>_ _. 0xA0), cr2 = 0, ebp = 0, eflags = 0,
     stabs = \<lparr>STAB_BEGIN = 0xF0110000, STAB_END = 0xF0110018, STABSTR_BEGIN = 0xF0120000, STABSTR_END = 0xF0120010\<rparr>,
     syms = \<lparr>k_start = 0x10000C, k_entry = 0xF010000C, k_etext = 0xF0101000, k_edata = 0xF0112000, k_end = 0xF0113000\<rparr>\<rparr>"

lemma runcmd_runs_command_witness:
  "\<exists>m. runcmd blank_machine 0xF0130000 (blank_kio\<lparr>kmem := put_bytes (\<lambda>_. 0) 0xF0130000 (map chr ''help'')\<rparr>)
     = run_command Help blank_machine (blank_kio\<lparr>kmem := m\<rparr>)"
proof -
  let ?m0 = "put_bytes (\<lambda>_. 0) 0xF0130000 (map chr ''help'')"
  have bytes: "bytes_at (kmem (blank_kio\<lparr>kmem := ?m0\<rparr>)) 0xF0130000 (map chr ''help'' @ [0])"
    using bytes_at_put_zero [of "map chr ''help''" "0xF0130000"] by simp
  have "words (map chr ''help'') = [map chr ''help'']"
    using words_Cons [where bs = "[]" and w = "map chr ''help''" and l' = "[]"] words_Nil [where l = "[]"]
    by (simp add: blank_def)
  with runcmd_runs_command [OF bytes, of blank_machine] show ?thesis
    by (auto simp: command_named_def)
qed

text \<open>The kernel monitor never returns to its caller: no command's result is negative,
  so nothing ends its loop, and \<open>_panic\<close> and \<open>env_destroy\<close>, which enter it, stay in it.\<close>

theorem monitor_never_returns:
  "monitor mc buf last_tf tf s = None"
  by (rule monitor_None)

end
