(* ===== verification/Env.thy ===== *)
theory Env
  imports VmOps Monitor
begin

text \<open>
  Environments, the kernel's processes: \<^verbatim>\<open>kern/env.c\<close> and \<^verbatim>\<open>inc/env.h\<close>, with the global
  descriptor table and the processor registers the code loads.

  \<^item> \<open>kenv\<close> extends the memory state by the table \<open>envs\<close>, the running environment, the
    free list, the console and the processor. A \<^verbatim>\<open>struct Env *\<close> is an index into \<open>envs\<close>,
    \<open>None\<close> the null pointer; \<open>envs\<close> is empty while the C pointer \<^verbatim>\<open>envs\<close> is null.
  \<^item> An \<^verbatim>\<open>envid_t\<close> is a 32-bit word, read signed where the code compares it.
  \<^item> The lemmas give the identifier arithmetic, the lookup, and the tear-down of an
    address space by \<open>env_free\<close>.
\<close>

section \<open>Segments\<close>

definition GD_KT :: u16 where "GD_KT = 0x08"
definition GD_KD :: u16 where "GD_KD = 0x10"
definition GD_UT :: u16 where "GD_UT = 0x18"
definition GD_UD :: u16 where "GD_UD = 0x20"
definition GD_TSS0 :: u16 where "GD_TSS0 = 0x28"

definition STA_X :: "4 word" where "STA_X = 0x8"
definition STA_W :: "4 word" where "STA_W = 0x2"
definition STA_R :: "4 word" where "STA_R = 0x2"

lemmas selectors = GD_KT_def GD_KD_def GD_UT_def GD_UD_def GD_TSS0_def

definition gdt_init :: "segdesc list" where
  "gdt_init = [SEG_NULL,
     SEG (STA_X OR STA_R) 0x0 0xffffffff 0,
     SEG STA_W 0x0 0xffffffff 0,
     SEG (STA_X OR STA_R) 0x0 0xffffffff 3,
     SEG STA_W 0x0 0xffffffff 3,
     SEG_NULL]"

record pseudodesc =
  pd_lim :: u16
  pd_base :: u32

text \<open>\<open>gdt_addr\<close> is the address the linker gives the table; an entry has eight bytes.\<close>

definition gdt_pd :: "u32 \<Rightarrow> pseudodesc" where
  "gdt_pd gdt_addr = \<lparr>pd_lim = of_nat (length gdt_init * 8 - 1), pd_base = gdt_addr\<rparr>"

text \<open>The registers that \<^verbatim>\<open>lgdt\<close>, \<^verbatim>\<open>lldt\<close>, \<^verbatim>\<open>ltr\<close>, \<^verbatim>\<open>lidt\<close>, \<^verbatim>\<open>iret\<close> and the moves load.\<close>

record cpu =
  gdtr :: pseudodesc
  idtr :: pseudodesc
  ldtr :: u16
  task_reg :: u16
  seg_gs :: u16
  seg_fs :: u16
  seg_es :: u16
  seg_ds :: u16
  seg_ss :: u16
  seg_cs :: u16
  cpu_regs :: push_regs
  cpu_eip :: u32
  cpu_esp :: u32
  cpu_eflags :: u32
  cpu_cr0 :: u32

section \<open>Environments\<close>

definition LOG2NENV :: nat where "LOG2NENV = 10"
definition NENV :: u32 where "NENV = push_bit LOG2NENV 1"
definition ENVX :: "u32 \<Rightarrow> u32" where "ENVX envid = envid AND (NENV - 1)"

definition ENV_FREE :: u32 where "ENV_FREE = 0"
definition ENV_DYING :: u32 where "ENV_DYING = 1"
definition ENV_RUNNABLE :: u32 where "ENV_RUNNABLE = 2"
definition ENV_RUNNING :: u32 where "ENV_RUNNING = 3"
definition ENV_NOT_RUNNABLE :: u32 where "ENV_NOT_RUNNABLE = 4"

definition ENV_TYPE_USER :: u32 where "ENV_TYPE_USER = 0"

record env =
  env_tf :: trapframe
  env_link :: "nat option"
  env_id :: u32
  env_parent_id :: u32
  env_type :: u32
  env_status :: u32
  env_runs :: u32
  env_pgdir :: u32

record kenv = kstate +
  envs :: "env list"
  curenv :: "nat option"
  env_free_list :: "nat option"
  io :: kio
  cpu_state :: cpu
  last_tf :: u32

type_synonym 'z ke = "'z kenv_scheme"

definition ENVGENSHIFT :: nat where "ENVGENSHIFT = 12"

text \<open>
  A field of \<^verbatim>\<open>envs[i]\<close>, at offset \<open>off\<close> of the 96 bytes of an entry: with \<^verbatim>\<open>envs\<close> null the
  access faults at a low address.
\<close>

definition get_env :: "u32 \<Rightarrow> nat \<Rightarrow> 'z ke \<Rightarrow> kerr + env" where
  "get_env off i s = (if i < length (envs s) then Inr (envs s ! i)
     else if envs s = [] then Inl (Fault (96 * of_nat i + off)) else Inl (Stray i))"

definition upd_env :: "nat \<Rightarrow> (env \<Rightarrow> env) \<Rightarrow> 'z ke \<Rightarrow> kerr + 'z ke" where
  "upd_env i f s = (if i < length (envs s) then Inr (s\<lparr>envs := (envs s)[i := f (envs s ! i)]\<rparr>)
     else if envs s = [] then Inl (Fault (96 * of_nat i)) else Inl (Stray i))"

definition kprint :: "machine \<Rightarrow> string \<Rightarrow> u32 list \<Rightarrow> 'z ke \<Rightarrow> kerr + 'z ke" where
  "kprint mc fmt as s = (case print (devs mc) fmt [] as (io s) of
     None \<Rightarrow> Inl Endless | Some i \<Rightarrow> Inr (s\<lparr>io := i\<rparr>))"

definition lcr3 :: "u32 \<Rightarrow> 'z ke \<Rightarrow> 'z ke" where
  "lcr3 val s = s\<lparr>cr3 := val, tlb := (\<lambda>_. None)\<rparr>"

text \<open>\<^verbatim>\<open>curenv ? curenv->env_id : 0\<close>\<close>

definition cur_id :: "'z ke \<Rightarrow> kerr + u32" where
  "cur_id s = (case curenv s of None \<Rightarrow> Inr 0
     | Some c \<Rightarrow> bindE (get_env 72 c s) (\<lambda>info. Inr (env_id info)))"

section \<open>Looking an environment up\<close>

text \<open>The result is the return value and what is stored through \<^verbatim>\<open>env_store\<close>.\<close>

definition envid2env :: "u32 \<Rightarrow> bool \<Rightarrow> 'z ke \<Rightarrow> kerr + (int \<times> nat option)" where
  "envid2env envid checkperm s =
     (if envid = 0 then Inr (0, curenv s)
      else let e = unat (ENVX envid) in
      bindE (get_env 84 e s) (\<lambda>info.
      if env_status info = ENV_FREE \<or> env_id info \<noteq> envid then Inr (- E_BAD_ENV, None)
      else bindE (if checkperm \<and> Some e \<noteq> curenv s
                  then (case curenv s of None \<Rightarrow> Inl (Fault 72)
                        | Some c \<Rightarrow> bindE (get_env 72 c s) (\<lambda>cur. Inr (env_parent_id info \<noteq> env_id cur)))
                  else Inr False) (\<lambda>denied.
           if denied then Inr (- E_BAD_ENV, None) else Inr (0, Some e))))"

section \<open>Instructions on the processor's registers\<close>

text \<open>Where an instruction takes the address of a pseudo-descriptor, the model takes what is there.\<close>

definition lgdt :: "pseudodesc \<Rightarrow> 'z ke \<Rightarrow> 'z ke" where
  [simp]: "lgdt p s = s\<lparr>cpu_state := (cpu_state s)\<lparr>gdtr := p\<rparr>\<rparr>"

definition lidt :: "pseudodesc \<Rightarrow> 'z ke \<Rightarrow> 'z ke" where
  [simp]: "lidt p s = s\<lparr>cpu_state := (cpu_state s)\<lparr>idtr := p\<rparr>\<rparr>"

definition lldt :: "u16 \<Rightarrow> 'z ke \<Rightarrow> 'z ke" where
  [simp]: "lldt sel s = s\<lparr>cpu_state := (cpu_state s)\<lparr>ldtr := sel\<rparr>\<rparr>"

definition ltr :: "u16 \<Rightarrow> 'z ke \<Rightarrow> 'z ke" where
  [simp]: "ltr sel s = s\<lparr>cpu_state := (cpu_state s)\<lparr>task_reg := sel\<rparr>\<rparr>"

definition lcr0 :: "u32 \<Rightarrow> 'z ke \<Rightarrow> 'z ke" where
  [simp]: "lcr0 val s = s\<lparr>cpu_state := (cpu_state s)\<lparr>cpu_cr0 := val\<rparr>\<rparr>"

definition rcr0 :: "'z ke \<Rightarrow> u32" where
  [simp]: "rcr0 s = cpu_cr0 (cpu_state s)"

section \<open>Starting up\<close>

definition env_init_percpu :: "u32 \<Rightarrow> 'z ke \<Rightarrow> 'z ke" where
  "env_init_percpu gdt_addr s =
     (let s = lgdt (gdt_pd gdt_addr) s;
          s = s\<lparr>cpu_state := (cpu_state s)\<lparr>
            seg_gs := GD_UD OR 3, seg_fs := GD_UD OR 3,
            seg_es := GD_KD, seg_ds := GD_KD, seg_ss := GD_KD,
            seg_cs := GD_KT\<rparr>\<rparr>
      in lldt 0 s)"

definition env_init :: "u32 \<Rightarrow> 'z ke \<Rightarrow> 'z ke" where
  "env_init gdt_addr s = env_init_percpu gdt_addr s"

section \<open>Allocating an environment\<close>

definition env_setup_vm :: "nat \<Rightarrow> 'z ke \<Rightarrow> kerr + (int \<times> 'z ke)" where
  "env_setup_vm e s =
     bindE (page_alloc ALLOC_ZERO s) (\<lambda>(p, s). case p of
       None \<Rightarrow> Inr (- E_NO_MEM, s)
     | Some p \<Rightarrow>
         bindE (get_env 92 e s) (\<lambda>info.
         bindE (PADDR (env_pgdir info)) (\<lambda>pa.
         bindE (kstore (env_pgdir info + 4 * PDX UVPT) (pa OR PTE_P OR PTE_U) s) (\<lambda>s.
         Inr (0, s)))))"

definition zero_tf :: trapframe where
  "zero_tf = \<lparr>tf_regs = \<lparr>reg_edi = 0, reg_esi = 0, reg_ebp = 0, reg_oesp = 0, reg_ebx = 0,
       reg_edx = 0, reg_ecx = 0, reg_eax = 0\<rparr>,
     tf_es = 0, tf_padding1 = 0, tf_ds = 0, tf_padding2 = 0, tf_trapno = 0, tf_err = 0, tf_eip = 0,
     tf_cs = 0, tf_padding3 = 0, tf_eflags = 0, tf_esp = 0, tf_ss = 0, tf_padding4 = 0\<rparr>"

definition next_id :: "u32 \<Rightarrow> nat \<Rightarrow> u32" where
  "next_id old e =
     (let generation = (old + push_bit ENVGENSHIFT 1) AND NOT (NENV - 1);
          generation = (if sint generation \<le> 0 then push_bit ENVGENSHIFT 1 else generation)
      in generation OR of_nat e)"

text \<open>\<open>None\<close> where nothing is stored through \<^verbatim>\<open>newenv_store\<close>.\<close>

definition env_alloc :: "machine \<Rightarrow> u32 \<Rightarrow> 'z ke \<Rightarrow> kerr + (int \<times> nat option \<times> 'z ke)" where
  "env_alloc mc parent_id s =
     (case env_free_list s of
        None \<Rightarrow> Inr (- E_NO_FREE_ENV, None, s)
      | Some e \<Rightarrow>
          bindE (env_setup_vm e s) (\<lambda>(r, s).
          if r < 0 then Inr (r, None, s)
          else
          bindE (upd_env e (\<lambda>info. info\<lparr>
              env_id := next_id (env_id info) e,
              env_parent_id := parent_id,
              env_type := ENV_TYPE_USER,
              env_status := ENV_RUNNABLE,
              env_runs := 0,
              env_tf := zero_tf\<lparr>
                tf_ds := GD_UD OR 3,
                tf_es := GD_UD OR 3,
                tf_ss := GD_UD OR 3,
                tf_esp := USTACKTOP,
                tf_cs := GD_UT OR 3\<rparr>\<rparr>) s) (\<lambda>s.
          bindE (get_env 68 e s) (\<lambda>info.
          let s = s\<lparr>env_free_list := env_link info\<rparr> in
          bindE (cur_id s) (\<lambda>cur.
          bindE (kprint mc (''[%08x] new env %08x'' @ NL) [cur, env_id info] s) (\<lambda>s.
          Inr (0, Some e, s)))))))"

text \<open>The bodies of these are left to a later lab: they do nothing.\<close>

definition region_alloc :: "nat \<Rightarrow> u32 \<Rightarrow> u32 \<Rightarrow> 'z ke \<Rightarrow> 'z ke" where
  "region_alloc e va len s = s"

definition load_icode :: "nat \<Rightarrow> u32 \<Rightarrow> 'z ke \<Rightarrow> 'z ke" where
  "load_icode e binary s = s"

definition env_create :: "u32 \<Rightarrow> u32 \<Rightarrow> 'z ke \<Rightarrow> 'z ke" where
  "env_create binary type s = s"

section \<open>Freeing an environment\<close>

definition free_slot :: "u32 \<Rightarrow> u32 \<Rightarrow> nat \<Rightarrow> nat \<Rightarrow> 'z ke \<Rightarrow> kerr + 'z ke" where
  "free_slot pgdir pt pdeno pteno s =
     bindE (kload s (pt + 4 * of_nat pteno)) (\<lambda>pte.
     if present pte then page_remove pgdir (PGADDR (of_nat pdeno) (of_nat pteno) 0) s else Inr s)"

definition free_table :: "u32 \<Rightarrow> nat \<Rightarrow> 'z ke \<Rightarrow> kerr + 'z ke" where
  "free_table pgdir pdeno s =
     bindE (kload s (pgdir + 4 * of_nat pdeno)) (\<lambda>pde.
     if \<not> present pde then Inr s
     else let pa = PTE_ADDR pde in
       bindE (KADDR s pa) (\<lambda>pt.
       bindE (foldE (free_slot pgdir pt pdeno) [0..<Suc (unat (PTX (NOT 0)))] s) (\<lambda>s.
       bindE (kstore (pgdir + 4 * of_nat pdeno) 0 s) (\<lambda>s.
       bindE (pa2page s pa) (\<lambda>pp. page_decref pp s)))))"

definition env_free :: "machine \<Rightarrow> nat \<Rightarrow> 'z ke \<Rightarrow> kerr + 'z ke" where
  "env_free mc e s =
     bindE (if Some e = curenv s then bindE (PADDR (kern_pgdir s)) (\<lambda>pa. Inr (lcr3 pa s)) else Inr s) (\<lambda>s.
     bindE (cur_id s) (\<lambda>cur.
     bindE (get_env 72 e s) (\<lambda>info.
     bindE (kprint mc (''[%08x] free env %08x'' @ NL) [cur, env_id info] s) (\<lambda>s.
     bindE (foldE (free_table (env_pgdir info)) [0..<unat (PDX UTOP)] s) (\<lambda>s.
     bindE (PADDR (env_pgdir info)) (\<lambda>pa.
     bindE (upd_env e (\<lambda>i. i\<lparr>env_pgdir := 0\<rparr>) s) (\<lambda>s.
     bindE (pa2page s pa) (\<lambda>pp.
     bindE (page_decref pp s) (\<lambda>s.
     bindE (upd_env e (\<lambda>i. i\<lparr>env_status := ENV_FREE, env_link := env_free_list s\<rparr>) s) (\<lambda>s.
     Inr (s\<lparr>env_free_list := Some e\<rparr>)))))))))))"

text \<open>\<^verbatim>\<open>while (1) monitor(NULL)\<close>; \<open>buf\<close> is the buffer of \<open>readline\<close>.\<close>

partial_function (option) monitor_forever :: "machine \<Rightarrow> u32 \<Rightarrow> u32 \<Rightarrow> kio \<Rightarrow> kio option" where
  "monitor_forever mc buf ltf i = Option.bind (monitor mc buf ltf None i) (monitor_forever mc buf ltf)"

definition enter_monitor :: "machine \<Rightarrow> u32 \<Rightarrow> 'z ke \<Rightarrow> kerr + 'z ke" where
  "enter_monitor mc buf s = (case monitor_forever mc buf (last_tf s) (io s) of
     None \<Rightarrow> Inl Endless | Some i \<Rightarrow> Inr (s\<lparr>io := i\<rparr>))"

text \<open>
  \<open>env_destroy\<close> and the functions that end in it, over what stands for the endless loop: a
  theorem about every \<open>mon\<close> tells in which state the loop is entered.
\<close>

definition env_destroy_with :: "machine \<Rightarrow> ('z ke \<Rightarrow> kerr + 'z ke) \<Rightarrow> nat \<Rightarrow> 'z ke \<Rightarrow> kerr + 'z ke" where
  "env_destroy_with mc mon e s =
     bindE (env_free mc e s) (\<lambda>s.
     bindE (kprint mc (''Destroyed the only environment - nothing more to do!'' @ NL) [] s) mon)"

definition env_destroy :: "machine \<Rightarrow> u32 \<Rightarrow> nat \<Rightarrow> 'z ke \<Rightarrow> kerr + 'z ke" where
  "env_destroy mc buf = env_destroy_with mc (enter_monitor mc buf)"

section \<open>Running an environment\<close>

text \<open>
  The frame at address \<open>a\<close> is popped: the general registers except the useless \<^verbatim>\<open>oesp\<close>,
  \<^verbatim>\<open>%es\<close> and \<^verbatim>\<open>%ds\<close>, then \<^verbatim>\<open>iret\<close> takes the instruction pointer, code segment and flags, and
  the stack when the new privilege level is an outer one. The processor then runs on from
  that state; the code after \<^verbatim>\<open>iret\<close> is not reached.
\<close>

definition env_pop_tf :: "tf_ptr \<Rightarrow> cpu \<Rightarrow> cpu" where
  "env_pop_tf p c = (let (a, tf) = p; outer = tf_cs tf AND 3 \<noteq> 0 in
     c\<lparr>cpu_regs := (tf_regs tf)\<lparr>reg_oesp := reg_oesp (cpu_regs c)\<rparr>,
       seg_es := tf_es tf, seg_ds := tf_ds tf,
       cpu_eip := tf_eip tf, seg_cs := tf_cs tf, cpu_eflags := tf_eflags tf,
       cpu_esp := (if outer then tf_esp tf else a + 60),
       seg_ss := (if outer then tf_ss tf else seg_ss c)\<rparr>)"

definition env_run :: "nat \<Rightarrow> 'z ke \<Rightarrow> kerr + 'z ke" where
  "env_run e s = Inl (Panic ''env_run not yet implemented'')"

section \<open>Printing identifiers\<close>

text \<open>The messages about environments: two identifiers around a verb.\<close>

lemma kprint_ids:
  assumes "plain_text verb" and "length verb < 100"
  shows "\<exists>cs. kprint mc (''[%08x'' @ verb @ ''%08x'' @ NL) as s
    = Inr (s\<lparr>io := (io s)\<lparr>con := put_all (devs mc) cs (con (io s))\<rparr>\<rparr>)"
proof -
  let ?its = "plain ''['' @ Num True 8 Hex # plain verb @ Num True 8 Hex # plain NL"
  have "map chr (''[%08x'' @ verb @ ''%08x'' @ NL) = concat (map item_bytes ?its)"
    by (simp add: to_base.simps dchar_def)
  moreover have "good_items m ap 0 ?its" for m ap
    using assms(1) good_plain [of NL m ap _ "[]"] by (simp add: good_plain NL_def)
  ultimately show ?thesis
    using print_returns [of "''[%08x'' @ verb @ ''%08x'' @ NL" ?its "[]" "io s" as "devs mc"] assms(2)
    by (auto simp: kprint_def NL_def)
qed

lemma kprint_free: "\<exists>cs. kprint mc (''[%08x] free env %08x'' @ NL) as s
    = Inr (s\<lparr>io := (io s)\<lparr>con := put_all (devs mc) cs (con (io s))\<rparr>\<rparr>)"
  using kprint_ids [where verb = "''] free env ''"] by simp

lemma kprint_new: "\<exists>cs. kprint mc (''[%08x] new env %08x'' @ NL) as s
    = Inr (s\<lparr>io := (io s)\<lparr>con := put_all (devs mc) cs (con (io s))\<rparr>\<rparr>)"
  using kprint_ids [where verb = "''] new env ''"] by simp

section \<open>Identifier arithmetic\<close>

definition generation :: "u32 \<Rightarrow> u32" where
  "generation old = (let g = (old + 4096) AND NOT 1023 in if sint g \<le> 0 then 4096 else g)"

lemma next_id_generation: "next_id old e = generation old OR of_nat e"
  by (simp add: next_id_def generation_def ENVGENSHIFT_def NENV_def LOG2NENV_def Let_def push_bit_eq_mult)

lemma generation_low: "n < 10 \<Longrightarrow> \<not> bit (generation old) n"
proof -
  assume n: "n < 10"
  have "\<not> bit (x AND NOT 1023 :: u32) n" for x
  proof -
    have m: "(1023 :: u32) = mask 10" by (simp add: mask_eq_exp_minus_1)
    show ?thesis unfolding m using n by (simp add: bit_simps)
  qed
  moreover have "\<not> bit (4096 :: u32) n"
  proof -
    have "(4096 :: u32) = push_bit 12 1" by (simp add: push_bit_eq_mult)
    then show ?thesis using n by (simp only: bit_push_bit_iff) simp
  qed
  ultimately show ?thesis by (simp add: generation_def Let_def)
qed

lemma generation_pos: "0 < sint (generation old)"
  by (simp add: generation_def Let_def)

lemma next_id_index:
  assumes "e < 1024"
  shows "unat (ENVX (next_id old e)) = e"
proof -
  have e: "unat (of_nat e :: u32) = e" using assms by (simp add: unat_of_nat_small)
  have "ENVX (next_id old e) = of_nat e"
  proof (rule bit_word_eqI)
    fix n assume "n < LENGTH(32)"
    have m: "NENV - 1 = mask 10" by (simp add: NENV_def LOG2NENV_def mask_eq_exp_minus_1 push_bit_eq_mult)
    have "bit (of_nat e :: u32) n \<Longrightarrow> n < 10" using bit_less_exp [of "of_nat e :: u32" 10 n] e assms by simp
    then show "bit (ENVX (next_id old e)) n = bit (of_nat e :: u32) n"
      unfolding ENVX_def m using generation_low [of n old] \<open>n < LENGTH(32)\<close>
      by (auto simp: next_id_generation bit_simps)
  qed
  then show ?thesis using e by simp
qed

lemma next_id_high:
  assumes "e < 1024"
  shows "next_id old e AND NOT 1023 = generation old"
proof (rule bit_word_eqI)
  fix n assume n: "n < LENGTH(32)"
  have m: "(1023 :: u32) = mask 10" by (simp add: mask_eq_exp_minus_1)
  have e: "unat (of_nat e :: u32) = e" using assms by (simp add: unat_of_nat_small)
  have "bit (of_nat e :: u32) n \<Longrightarrow> n < 10" using bit_less_exp [of "of_nat e :: u32" 10 n] e assms by simp
  then show "bit (next_id old e AND NOT 1023) n = bit (generation old) n"
    unfolding m using generation_low [of n old] n by (auto simp: next_id_generation bit_simps)
qed

text \<open>The next generation is another one, and the identifier is positive.\<close>

lemma and_1023_add: "(x + 4096 :: u32) AND 1023 = x AND 1023"
proof -
  have m: "(1023 :: u32) = mask 10" by (simp add: mask_eq_exp_minus_1)
  have "unat (x + 4096) mod 1024 = unat x mod 1024"
  proof -
    have "unat (x + 4096) = (unat x + 4096) mod 4294967296" by (simp add: unat_word_ariths)
    also have "\<dots> mod 1024 = (unat x + 4096) mod 1024" by (rule mod_mod_cancel) simp
    also have "\<dots> = unat x mod 1024" using mod_mult_self1 [of "unat x" 4 1024] by simp
    finally show ?thesis .
  qed
  then have "unat ((x + 4096) AND 1023) = unat (x AND 1023)" unfolding m unat_mask_eq by simp
  then show ?thesis by (rule word_unat_eq_iff [THEN iffD2])
qed

lemma and_not_split: "(y AND NOT M) + (y AND M) = (y :: 'a::len word)"
proof -
  have none: "(y AND NOT M) AND (y AND M) = 0" by (simp add: bit_eq_iff bit_simps)
  have all: "(y AND NOT M) OR (y AND M) = y"
    by (auto simp: bit_eq_iff bit_simps dest: bit_imp_possible_bit)
  show ?thesis using word_plus_and_or [of "y AND NOT M" "y AND M"] unfolding none all by simp
qed

lemma and_not_1023_add: "(x + 4096 :: u32) AND - 1024 = (x AND - 1024) + 4096"
proof -
  note split = and_not_split [where M = "1023 :: u32"]
  have "((x + 4096) AND NOT 1023) + (x AND 1023) = x + 4096"
    using split [of "x + 4096"] by (simp only: and_1023_add)
  also have "\<dots> = (x AND NOT 1023) + 4096 + (x AND 1023)"
    using split [of x] by (simp add: algebra_simps)
  finally show ?thesis by simp
qed

lemma next_id_new: "e < 1024 \<Longrightarrow> next_id old e \<noteq> old"
proof
  assume "e < 1024" "next_id old e = old"
  then have *: "old AND - 1024 = generation old" using next_id_high [of e old] by simp
  let ?h = "old AND - 1024"
  have g: "generation old = (if sint (?h + 4096) \<le> 0 then 4096 else ?h + 4096)"
    by (simp add: generation_def and_not_1023_add Let_def)
  show False
  proof (cases "sint (?h + 4096) \<le> 0")
    case True
    then have "generation old = 4096" using g by simp
    with * have "?h = 4096" by (rule trans)
    then have "sint (4096 + 4096 :: u32) \<le> 0" using True by (simp only:)
    then show False by simp
  next
    case False
    then have "generation old = ?h + 4096" using g by simp
    with * have "?h = ?h + 4096" by (rule trans)
    then show False by simp
  qed
qed

lemma next_id_pos:
  assumes "e < 1024"
  shows "0 < sint (next_id old e)"
proof -
  have "\<not> bit (generation old) 31"
    using generation_pos [of old] bit_last_iff [of "generation old"] by simp
  moreover have "\<not> bit (of_nat e :: u32) 31"
    using bit_less_exp [of "of_nat e :: u32" 10 31] assms by (auto simp: unat_of_nat_small)
  ultimately have "\<not> bit (next_id old e) 31" by (simp add: next_id_generation bit_simps)
  then have "0 \<le> sint (next_id old e)" using bit_last_iff [of "next_id old e"] by simp
  moreover have "next_id old e \<noteq> 0"
    using next_id_high [OF assms, of old] generation_pos [of old] by auto
  ultimately show ?thesis by (metis order_le_less signed_eq_0_iff)
qed

end
