(* ===== verification/Programs.thy ===== *)
theory Programs
  imports User Env "HOL-Library.Signed_Division"
begin

text \<open>
  The user programs in \<^verbatim>\<open>user/\<close> that are written in C alone: \<^verbatim>\<open>hello.c\<close>, \<^verbatim>\<open>testbss.c\<close>,
  \<^verbatim>\<open>divzero.c\<close>, \<^verbatim>\<open>faultread.c\<close>, \<^verbatim>\<open>faultreadkernel.c\<close>, \<^verbatim>\<open>faultwrite.c\<close>, \<^verbatim>\<open>faultwritekernel.c\<close>,
  \<^verbatim>\<open>buggyhello.c\<close>, \<^verbatim>\<open>buggyhello2.c\<close>, \<^verbatim>\<open>evilhello.c\<close>, and \<^verbatim>\<open>breakpoint.c\<close>, \<^verbatim>\<open>softint.c\<close> and
  \<^verbatim>\<open>badsegment.c\<close>, whose one line of assembly depends on the kernel's descriptor tables.

  What the page tables allow a program is the parameter \<open>may\<close>: \<open>may a w\<close> says that the word at
  \<open>a\<close> can be read, and if \<open>w\<close> written. An access that is not allowed stops the program.
\<close>

type_synonym rights = "u32 \<Rightarrow> bool \<Rightarrow> bool"

type_synonym 'k run = "(kerr + 'k outcome) option"

definition uread :: "rights \<Rightarrow> u32 \<Rightarrow> 'k user \<Rightarrow> (u32 \<Rightarrow> 'k run) \<Rightarrow> 'k run" where
  "uread may a u k = (if may a False then k (load32 (umem u) a) else Some (Inr (Stopped T_PGFLT a u)))"

definition uwrite :: "rights \<Rightarrow> u32 \<Rightarrow> u32 \<Rightarrow> 'k user \<Rightarrow> ('k user \<Rightarrow> 'k run) \<Rightarrow> 'k run" where
  "uwrite may a v u k = (if may a True then k (u\<lparr>umem := store32 (umem u) a v\<rparr>)
     else Some (Inr (Stopped T_PGFLT a u)))"

text \<open>The processor traps a signed division by zero, and one whose quotient does not fit.\<close>

definition udiv :: "u32 \<Rightarrow> u32 \<Rightarrow> 'k user \<Rightarrow> (u32 \<Rightarrow> 'k run) \<Rightarrow> 'k run" where
  "udiv a b u k = (if b = 0 \<or> a = 0x80000000 \<and> b = - 1 then Some (Inr (Stopped T_DIVIDE 0 u))
     else k (of_int (sint a sdiv sint b)))"

text \<open>
  \<^verbatim>\<open>int n\<close> in user mode goes through gate \<open>n\<close> only if the gate is present and its privilege level
  is 3; loading \<open>ds\<close> takes a null selector or a present segment of level 3 that can be read.
\<close>

definition int_n :: "gatedesc list \<Rightarrow> nat \<Rightarrow> 'k user \<Rightarrow> 'k run" where
  "int_n gates n u = Some (Inr (Stopped
     (if unat (gd_dpl (gates ! n)) < 3 then T_GPFLT else if gd_p (gates ! n) = 0 then T_SEGNP else of_nat n) 0 u))"

definition STA_C :: "4 word" where "STA_C = 0x4"

definition load_ds :: "segdesc list \<Rightarrow> u16 \<Rightarrow> 'k user \<Rightarrow> ('k user \<Rightarrow> 'k run) \<Rightarrow> 'k run" where
  "load_ds segs sel u k =
     (let i = unat (drop_bit 3 sel); d = segs ! i in
      if sel AND NOT 3 = 0 then k u
      else if length segs \<le> i \<or> sd_s d = 0 \<or> sd_type d AND (STA_X OR STA_R) = STA_X
        \<or> sd_type d AND (STA_X OR STA_C) \<noteq> STA_X OR STA_C \<and> unat (sd_dpl d) < 3
        then Some (Inr (Stopped T_GPFLT 0 u))
      else if sd_p d = 0 then Some (Inr (Stopped T_SEGNP 0 u))
      else k u)"

text \<open>A call of \<^verbatim>\<open>cprintf\<close> whose result is not used, and of \<^verbatim>\<open>sys_cputs\<close>.\<close>

definition say :: "'k trap \<Rightarrow> u32 \<Rightarrow> string \<Rightarrow> u32 list \<Rightarrow> 'k user \<Rightarrow> ('k user \<Rightarrow> 'k run) \<Rightarrow> 'k run" where
  "say trap buf fmt as u k = (case ucprintf trap buf fmt [] as u of
     None \<Rightarrow> None | Some (Inl e) \<Rightarrow> Some (Inl e) | Some (Inr (cnt, u)) \<Rightarrow> k u)"

definition cputs :: "'k trap \<Rightarrow> u32 \<Rightarrow> u32 \<Rightarrow> 'k user \<Rightarrow> 'k run" where
  "cputs trap s len u = Some (bindE (sys_cputs trap s len u) (\<lambda>u. Inr (Ran u)))"

text \<open>\<open>strs\<close> is where the linker puts a string literal. A panic ends in breakpoint
  instructions.\<close>

definition upanics :: "'k trap \<Rightarrow> gatedesc list \<Rightarrow> (string \<Rightarrow> u32) \<Rightarrow> u32 \<Rightarrow> ulib \<Rightarrow> string \<Rightarrow> u32 \<Rightarrow> string \<Rightarrow> u32 list \<Rightarrow> 'k user \<Rightarrow> 'k run" where
  "upanics trap gates strs buf l file line msg as u =
     Option.bind (upanic trap buf l (strs file) line (strs msg) (arg_list as) u)
       (\<lambda>r. case r of Inl e \<Rightarrow> Some (Inl e) | Inr u \<Rightarrow> int_n gates 3 u)"

section \<open>The programs\<close>

text \<open>72 is the offset of \<^verbatim>\<open>env_id\<close> in \<^verbatim>\<open>struct Env\<close>.\<close>

definition hello :: "'k trap \<Rightarrow> rights \<Rightarrow> u32 \<Rightarrow> ulib \<Rightarrow> int \<Rightarrow> u32 \<Rightarrow> 'k user \<Rightarrow> 'k run" where
  "hello trap may buf l argc argv u =
     say trap buf (''hello, world'' @ NL) [] u (\<lambda>u.
     uread may (thisenv l + 72) u (\<lambda>id.
     say trap buf (''i am environment %08x'' @ NL) [id] u (\<lambda>u. Some (Inr (Ran u)))))"

definition ARRAYSIZE :: nat where "ARRAYSIZE = 1024 * 1024"

text \<open>A \<^verbatim>\<open>for\<close> loop from \<open>i\<close>, \<open>n\<close> times round, before \<open>k\<close>.\<close>

fun for_each :: "nat \<Rightarrow> nat \<Rightarrow> (nat \<Rightarrow> 'k user \<Rightarrow> ('k user \<Rightarrow> 'k run) \<Rightarrow> 'k run) \<Rightarrow> 'k user \<Rightarrow> ('k user \<Rightarrow> 'k run) \<Rightarrow> 'k run" where
  "for_each i 0 body u k = k u"
| "for_each i (Suc n) body u k = body i u (\<lambda>u. for_each (Suc i) n body u k)"

text \<open>\<open>arr\<close> is the address of \<^verbatim>\<open>bigarray\<close>.\<close>

definition testbss ::
    "'k trap \<Rightarrow> rights \<Rightarrow> gatedesc list \<Rightarrow> (string \<Rightarrow> u32) \<Rightarrow> u32 \<Rightarrow> u32 \<Rightarrow> ulib \<Rightarrow> int \<Rightarrow> u32 \<Rightarrow> 'k user \<Rightarrow> 'k run" where
  "testbss trap may gates strs arr buf l argc argv u =
     say trap buf (''Making sure bss works right...'' @ NL) [] u (\<lambda>u.
     for_each 0 ARRAYSIZE (\<lambda>i u k. uread may (arr + 4 * of_nat i) u (\<lambda>v.
       if v \<noteq> 0 then upanics trap gates strs buf l ''user/testbss.c'' 17 (''bigarray[%d] isn'' @ [CHR 0x27] @ ''t cleared!'' @ NL) [of_nat i] u
       else k u)) u (\<lambda>u.
     for_each 0 ARRAYSIZE (\<lambda>i u k. uwrite may (arr + 4 * of_nat i) (of_nat i) u k) u (\<lambda>u.
     for_each 0 ARRAYSIZE (\<lambda>i u k. uread may (arr + 4 * of_nat i) u (\<lambda>v.
       if v \<noteq> of_nat i then upanics trap gates strs buf l ''user/testbss.c'' 22 (''bigarray[%d] didn'' @ [CHR 0x27] @ ''t hold its value!'' @ NL) [of_nat i] u
       else k u)) u (\<lambda>u.
     say trap buf (''Yes, good.  Now doing a wild write off the end...'' @ NL) [] u (\<lambda>u.
     uwrite may (arr + 4 * of_nat (ARRAYSIZE + 1024)) 0 u (\<lambda>u.
     upanics trap gates strs buf l ''user/testbss.c'' 26 ''SHOULD HAVE TRAPPED!!!'' [] u))))))"

text \<open>\<open>zero\<close> is the address of the global \<^verbatim>\<open>zero\<close>.\<close>

definition divzero :: "'k trap \<Rightarrow> rights \<Rightarrow> u32 \<Rightarrow> u32 \<Rightarrow> ulib \<Rightarrow> int \<Rightarrow> u32 \<Rightarrow> 'k user \<Rightarrow> 'k run" where
  "divzero trap may zero buf l argc argv u =
     uwrite may zero 0 u (\<lambda>u.
     uread may zero u (\<lambda>z.
     udiv 1 z u (\<lambda>q.
     say trap buf (''1/0 is %08x!'' @ NL) [q] u (\<lambda>u. Some (Inr (Ran u))))))"

definition faultread :: "'k trap \<Rightarrow> rights \<Rightarrow> u32 \<Rightarrow> ulib \<Rightarrow> int \<Rightarrow> u32 \<Rightarrow> 'k user \<Rightarrow> 'k run" where
  "faultread trap may buf l argc argv u =
     uread may 0 u (\<lambda>v. say trap buf (''I read %08x from location 0!'' @ NL) [v] u (\<lambda>u. Some (Inr (Ran u))))"

definition faultreadkernel :: "'k trap \<Rightarrow> rights \<Rightarrow> u32 \<Rightarrow> ulib \<Rightarrow> int \<Rightarrow> u32 \<Rightarrow> 'k user \<Rightarrow> 'k run" where
  "faultreadkernel trap may buf l argc argv u =
     uread may 0xf0100000 u (\<lambda>v. say trap buf (''I read %08x from location 0xf0100000!'' @ NL) [v] u (\<lambda>u. Some (Inr (Ran u))))"

definition faultwrite :: "rights \<Rightarrow> ulib \<Rightarrow> int \<Rightarrow> u32 \<Rightarrow> 'k user \<Rightarrow> 'k run" where
  "faultwrite may l argc argv u = uwrite may 0 0 u (\<lambda>u. Some (Inr (Ran u)))"

definition faultwritekernel :: "rights \<Rightarrow> ulib \<Rightarrow> int \<Rightarrow> u32 \<Rightarrow> 'k user \<Rightarrow> 'k run" where
  "faultwritekernel may l argc argv u = uwrite may 0xf0100000 0 u (\<lambda>u. Some (Inr (Ran u)))"

definition buggyhello :: "'k trap \<Rightarrow> ulib \<Rightarrow> int \<Rightarrow> u32 \<Rightarrow> 'k user \<Rightarrow> 'k run" where
  "buggyhello trap l argc argv u = cputs trap 1 1 u"

text \<open>\<open>p\<close> is the address of the global pointer \<^verbatim>\<open>hello\<close>.\<close>

definition buggyhello2 :: "'k trap \<Rightarrow> rights \<Rightarrow> u32 \<Rightarrow> ulib \<Rightarrow> int \<Rightarrow> u32 \<Rightarrow> 'k user \<Rightarrow> 'k run" where
  "buggyhello2 trap may p l argc argv u = uread may p u (\<lambda>s. cputs trap s (1024 * 1024) u)"

definition evilhello :: "'k trap \<Rightarrow> ulib \<Rightarrow> int \<Rightarrow> u32 \<Rightarrow> 'k user \<Rightarrow> 'k run" where
  "evilhello trap l argc argv u = cputs trap 0xf010000c 100 u"

definition breakpoint_umain :: "gatedesc list \<Rightarrow> ulib \<Rightarrow> int \<Rightarrow> u32 \<Rightarrow> 'k user \<Rightarrow> 'k run" where
  "breakpoint_umain gates l argc argv u = int_n gates 3 u"

definition softint :: "gatedesc list \<Rightarrow> ulib \<Rightarrow> int \<Rightarrow> u32 \<Rightarrow> 'k user \<Rightarrow> 'k run" where
  "softint gates l argc argv u = int_n gates 14 u"

definition badsegment :: "segdesc list \<Rightarrow> ulib \<Rightarrow> int \<Rightarrow> u32 \<Rightarrow> 'k user \<Rightarrow> 'k run" where
  "badsegment segs l argc argv u = load_ds segs 0x28 u (\<lambda>u. Some (Inr (Ran u)))"

section \<open>What the programs do\<close>

lemma say_plain:
  assumes puts: "prints_bytes trap puts" and buf: "buf \<noteq> 0" and t: "plain_text cs" "length cs < 255"
  shows "\<exists>u'. (\<forall>k :: 'k user \<Rightarrow> 'k run. say trap buf cs [] u k = k u')
    \<and> kern u' = puts (map (of_int \<circ> chi) cs) (kern u)
    \<and> (\<forall>a. \<not> in_range buf 255 a \<longrightarrow> umem u' a = umem u a)"
proof -
  have "sent (lit_mem cs) m LIT ap = Some (map chi cs)" for m ap
    by (rule sent_plain) (use t in \<open>auto simp: list_all_iff\<close>)
  from uvcprintf_prints [OF puts buf this, where u = u]
  obtain u' where u: "uvcprintf trap (lit_mem cs) (lits [] (umem u)) buf LIT (arg_list []) u
        = Some (Inr (sint (of_nat (length (map chi cs)) :: u32), u'))"
    "kern u' = fold puts (batches (map of_int (map chi cs))) (kern u)"
    "\<forall>a. \<not> in_range buf 255 a \<longrightarrow> umem u' a = umem u a" by blast
  have "batches (map of_int (map chi cs) :: u8 list) = [map of_int (map chi cs)]"
    using t(2) by (intro batches_short) simp
  then show ?thesis using u by (intro exI [of _ u']) (simp add: say_def ucprintf_def)
qed

text \<open>C37: On a kernel whose \<open>sys_cputs\<close> prints what it is given, which is the hypothesis, \<open>hello\<close>
  started by \<open>libmain\<close> prints its first line and then stops at a page fault at address 72, where
  it looks for its environment's identifier, because \<open>libmain\<close> leaves \<^verbatim>\<open>thisenv\<close> null; \<open>exit\<close> is
  never called. The repository's own kernel does not provide the hypothesis: its interrupt
  table is empty and its \<open>syscall\<close> panics.\<close>

theorem hello_stops:
  assumes "prints_bytes trap puts" and "buf \<noteq> 0" and "\<not> may 72 False"
  shows "\<exists>u'. libmain trap (hello trap may buf) argc argv argv0 l u = Some (Inr (Stopped T_PGFLT 72 u'))
    \<and> kern u' = puts (map (of_int \<circ> chi) (''hello, world'' @ NL)) (kern u)"
proof -
  have "plain_text (''hello, world'' @ NL)" "length (''hello, world'' @ NL) < 255" by (simp_all add: NL_def)
  from say_plain [OF assms(1,2) this, of u] obtain u' where
    say: "\<And>k. say trap buf (''hello, world'' @ NL) [] u k = k u'"
    and out: "kern u' = puts (map (of_int \<circ> chi) (''hello, world'' @ NL)) (kern u)" by blast
  have "hello trap may buf m argc argv u = Some (Inr (Stopped T_PGFLT 72 u'))" if "thisenv m = 0" for m
    unfolding hello_def say by (simp add: uread_def that assms(3))
  then show ?thesis using out by (simp add: libmain_def Let_def)
qed

lemma hello_stops_witness:
  "\<exists>u'. libmain log_trap (hello log_trap (\<lambda>a w. 0x800000 \<le> a) 0xeebfd000) 0 0 0 \<lparr>thisenv = 1, binaryname = 0\<rparr>
       \<lparr>umem = (\<lambda>_. 0), kern = []\<rparr> = Some (Inr (Stopped T_PGFLT 72 u'))
    \<and> length (concat (kern u')) = 13"
proof -
  have puts: "prints_bytes log_trap (\<lambda>b k. k @ [b])" by (simp add: prints_bytes_def log_trap_def)
  from hello_stops [where buf = "0xeebfd000", OF puts _, where may = "\<lambda>a w. 0x800000 \<le> a" and u = "\<lparr>umem = (\<lambda>_. 0), kern = []\<rparr>"]
  obtain u' where "libmain log_trap (hello log_trap (\<lambda>a w. 0x800000 \<le> a) 0xeebfd000) 0 0 0 \<lparr>thisenv = 1, binaryname = 0\<rparr>
       \<lparr>umem = (\<lambda>_. 0), kern = []\<rparr> = Some (Inr (Stopped T_PGFLT 72 u'))"
    "length (concat (kern u')) = 13" by (force simp: NL_def)
  then show ?thesis by blast
qed

lemma for_each_run:
  assumes step: "\<And>j u. i \<le> j \<Longrightarrow> j < i + n \<Longrightarrow> I j u \<Longrightarrow>
      \<exists>u'. (\<forall>k :: 'k user \<Rightarrow> 'k run. body j u k = k u') \<and> I (Suc j) u'"
    and start: "I i u"
  shows "\<exists>u'. (\<forall>k. for_each i n body u k = k u') \<and> I (i + n) u'"
  using assms
proof (induction n arbitrary: i u)
  case 0
  then show ?case by auto
next
  case (Suc n)
  from Suc.prems(1) [of i u] Suc.prems(2) obtain v where
    v: "\<And>k. body i u k = k v" "I (Suc i) v" by auto
  have "\<exists>u'. (\<forall>k. for_each (Suc i) n body v k = k u') \<and> I (Suc i + n) u'"
    by (rule Suc.IH [OF Suc.prems(1) v(2)]) simp_all
  then show ?case using v(1) by auto
qed

text \<open>The words of an array, and the addresses they take.\<close>

lemma array_offset:
  assumes "i < j" "j < ARRAYSIZE" "p < 4" "q < 4"
  shows "(arr :: u32) + 4 * of_nat i + of_nat p \<noteq> arr + 4 * of_nat j + of_nat q"
proof
  assume "arr + 4 * of_nat i + of_nat p = arr + 4 * of_nat j + of_nat q"
  then have "(of_nat (4 * i + p) :: u32) = of_nat (4 * j + q)" by (simp add: add.assoc)
  then have "unat (of_nat (4 * i + p) :: u32) = unat (of_nat (4 * j + q) :: u32)" by (simp only:)
  moreover have "unat (of_nat (4 * i + p) :: u32) = 4 * i + p" "unat (of_nat (4 * j + q) :: u32) = 4 * j + q"
    by (rule unat_of_nat_small; use assms in \<open>simp add: ARRAYSIZE_def\<close>)+
  ultimately have "4 * i + p = 4 * j + q" by (simp only:)
  then show False using assms by simp
qed

definition holds :: "memory \<Rightarrow> u32 \<Rightarrow> (nat \<Rightarrow> u32) \<Rightarrow> bool" where
  "holds m arr f \<longleftrightarrow> (\<forall>i < ARRAYSIZE. load32 m (arr + 4 * of_nat i) = f i)"

lemma load32_four: "load32 m a = load32 m' a" if "\<And>p. p < 4 \<Longrightarrow> m (a + of_nat p) = m' (a + of_nat p)"
  using that [of 0] that [of 1] that [of 2] that [of 3] by (simp add: load32_def)

lemma holds_store:
  assumes "holds m arr f" "i < ARRAYSIZE"
  shows "holds (store32 m (arr + 4 * of_nat i) v) arr (f(i := v))"
  unfolding holds_def
proof (intro allI impI)
  fix j
  assume j: "j < ARRAYSIZE"
  show "load32 (store32 m (arr + 4 * of_nat i) v) (arr + 4 * of_nat j) = (f(i := v)) j"
  proof (cases "j = i")
    case False
    have "load32 (store32 m (arr + 4 * of_nat i) v) (arr + 4 * of_nat j) = load32 m (arr + 4 * of_nat j)"
    proof (rule load32_four)
      fix p :: nat
      assume p: "p < 4"
      have "arr + 4 * of_nat j + of_nat p \<noteq> arr + 4 * of_nat i + of_nat q" if "q < 4" for q
        using False array_offset [of i j q p arr] array_offset [of j i p q arr] assms(2) j p that
        by (metis nat_neq_iff)
      then show "store32 m (arr + 4 * of_nat i) v (arr + 4 * of_nat j + of_nat p) = m (arr + 4 * of_nat j + of_nat p)"
        by (intro store32_outside) (simp add: in_range_offset)
    qed
    then show ?thesis using assms(1) j False by (simp add: holds_def)
  qed simp
qed

lemma holds_frame:
  assumes "holds m arr f" "\<forall>a. \<not> in_range buf 255 a \<longrightarrow> m' a = m a"
    and "\<forall>i < ARRAYSIZE. \<forall>p < 4. \<not> in_range buf 255 (arr + 4 * of_nat i + of_nat p)"
  shows "holds m' arr f"
  unfolding holds_def
proof (intro allI impI)
  fix i
  assume i: "i < ARRAYSIZE"
  have "load32 m' (arr + 4 * of_nat i) = load32 m (arr + 4 * of_nat i)"
    by (rule load32_four) (use assms(2,3) i in auto)
  then show "load32 m' (arr + 4 * of_nat i) = f i" using assms(1) i by (simp add: holds_def)
qed

lemma read_loop:
  assumes "holds (umem u) arr f" and "\<forall>i < ARRAYSIZE. may (arr + 4 * of_nat i) False"
  shows "for_each 0 ARRAYSIZE (\<lambda>i u k. uread may (arr + 4 * of_nat i) u (\<lambda>v. if v \<noteq> f i then bad i u else k u)) u k = k u"
proof -
  have "\<exists>u'. (\<forall>k. for_each 0 ARRAYSIZE (\<lambda>i u k. uread may (arr + 4 * of_nat i) u (\<lambda>v. if v \<noteq> f i then bad i u else k u)) u k = k u')
    \<and> u' = u"
    by (rule for_each_run [where I = "\<lambda>_ v. v = u"]) (use assms in \<open>auto simp: uread_def holds_def\<close>)
  then show ?thesis by auto
qed

lemma write_loop:
  fixes u :: "'k user"
  assumes "holds (umem u) arr f" and "\<forall>i < ARRAYSIZE. may (arr + 4 * of_nat i) True"
  shows "\<exists>u'. (\<forall>k. for_each 0 ARRAYSIZE (\<lambda>i u k. uwrite may (arr + 4 * of_nat i) (of_nat i) u k) u k = k u')
    \<and> kern u' = kern u \<and> holds (umem u') arr of_nat"
proof -
  let ?I = "\<lambda>j v. kern v = kern u \<and> holds (umem v) arr (\<lambda>i. if i < j then of_nat i else f i)"
  have "\<exists>u'. (\<forall>k. for_each 0 ARRAYSIZE (\<lambda>i u k. uwrite may (arr + 4 * of_nat i) (of_nat i) u k) u k = k u') \<and> ?I (0 + ARRAYSIZE) u'"
  proof (rule for_each_run)
    fix j and v :: "'k user"
    assume j: "j < 0 + ARRAYSIZE" and v: "?I j v"
    let ?v = "v\<lparr>umem := store32 (umem v) (arr + 4 * of_nat j) (of_nat j)\<rparr>"
    have upd: "(\<lambda>i. if i < j then of_nat i else f i)(j := of_nat j) = (\<lambda>i. if i < Suc j then of_nat i else f i)"
      by (auto simp: less_Suc_eq)
    have "?I (Suc j) ?v" using holds_store [of "umem v" arr _ j "of_nat j", OF v [THEN conjunct2]] v j
      unfolding upd by simp
    then show "\<exists>u'. (\<forall>k. uwrite may (arr + 4 * of_nat j) (of_nat j) v k = k u') \<and> ?I (Suc j) u'"
      using assms(2) j by (intro exI [of _ ?v]) (simp add: uwrite_def)
  qed (use assms(1) in simp)
  then show ?thesis by (auto simp: holds_def)
qed

text \<open>C36: When its array can be read and written and starts out zero, \<open>testbss\<close> finds every word
  zero, stores each word's index there, finds every index again, and stops at a page fault at
  its wild write 4096 bytes past the array, after exactly its two messages: no word is reported
  and it does not run on to the last panic.\<close>

theorem testbss_checks_array:
  assumes "prints_bytes trap puts" and "buf \<noteq> 0"
    and "\<forall>i < ARRAYSIZE. \<forall>w. may (arr + 4 * of_nat i) w"
    and "\<not> may (arr + 4 * of_nat (ARRAYSIZE + 1024)) True"
    and "\<forall>i < ARRAYSIZE. load32 (umem u) (arr + 4 * of_nat i) = 0"
    and "\<forall>i < ARRAYSIZE. \<forall>p < 4. \<not> in_range buf 255 (arr + 4 * of_nat i + of_nat p)"
  shows "\<exists>u'. testbss trap may gates strs arr buf l argc argv u
      = Some (Inr (Stopped T_PGFLT (arr + 4 * of_nat (ARRAYSIZE + 1024)) u'))
    \<and> kern u' = puts (map (of_int \<circ> chi) (''Yes, good.  Now doing a wild write off the end...'' @ NL))
        (puts (map (of_int \<circ> chi) (''Making sure bss works right...'' @ NL)) (kern u))
    \<and> (\<forall>i < ARRAYSIZE. load32 (umem u') (arr + 4 * of_nat i) = of_nat i)"
proof -
  have "plain_text (''Making sure bss works right...'' @ NL)" "length (''Making sure bss works right...'' @ NL) < 255"
    by (simp_all add: NL_def)
  from say_plain [OF assms(1,2) this, of u] obtain u1 where
    u1: "\<And>k. say trap buf (''Making sure bss works right...'' @ NL) [] u k = k u1"
      "kern u1 = puts (map (of_int \<circ> chi) (''Making sure bss works right...'' @ NL)) (kern u)"
      "\<forall>a. \<not> in_range buf 255 a \<longrightarrow> umem u1 a = umem u a" by blast
  have zero: "holds (umem u1) arr (\<lambda>_. 0)"
    by (rule holds_frame [OF _ u1(3) assms(6)]) (use assms(5) in \<open>simp add: holds_def\<close>)
  obtain u2 where
    u2: "\<And>k. for_each 0 ARRAYSIZE (\<lambda>i u k. uwrite may (arr + 4 * of_nat i) (of_nat i) u k) u1 k = k u2"
      "kern u2 = kern u1" "holds (umem u2) arr of_nat"
    using write_loop [OF zero] assms(3) by blast
  have "plain_text (''Yes, good.  Now doing a wild write off the end...'' @ NL)"
    "length (''Yes, good.  Now doing a wild write off the end...'' @ NL) < 255" by (simp_all add: NL_def)
  from say_plain [OF assms(1,2) this, of u2] obtain u3 where
    u3: "\<And>k. say trap buf (''Yes, good.  Now doing a wild write off the end...'' @ NL) [] u2 k = k u3"
      "kern u3 = puts (map (of_int \<circ> chi) (''Yes, good.  Now doing a wild write off the end...'' @ NL)) (kern u2)"
      "\<forall>a. \<not> in_range buf 255 a \<longrightarrow> umem u3 a = umem u2 a" by blast
  have reads: "\<forall>i < ARRAYSIZE. may (arr + 4 * of_nat i) False" using assms(3) by blast
  have "testbss trap may gates strs arr buf l argc argv u
      = Some (Inr (Stopped T_PGFLT (arr + 4 * of_nat (ARRAYSIZE + 1024)) u3))"
    unfolding testbss_def u1(1) read_loop [where f = "\<lambda>_. 0" and may = may, OF zero reads] u2(1)
      read_loop [where f = of_nat and may = may, OF u2(3) reads] u3(1)
    using assms(4) by (simp only: uwrite_def if_False)
  then show ?thesis using u1(2) u2(2) u3(2) holds_frame [OF u2(3) u3(3) assms(6)]
    by (simp add: holds_def)
qed

lemma testbss_checks_array_witness:
  "\<exists>u'. testbss log_trap (\<lambda>a w. in_range 0x800000 (4 * ARRAYSIZE) a) [] (\<lambda>_. 0) 0x800000 0xeebfd000
      \<lparr>thisenv = 0, binaryname = 0\<rparr> 0 0 \<lparr>umem = (\<lambda>_. 0), kern = []\<rparr>
      = Some (Inr (Stopped T_PGFLT 0xc01000 u')) \<and> length (kern u') = 2
    \<and> load32 (umem u') (0x800000 + 4 * 1000) = 1000"
proof -
  have puts: "prints_bytes log_trap (\<lambda>b k. k @ [b])" by (simp add: prints_bytes_def log_trap_def)
  have off: "unat (4 * of_nat i + of_nat p :: u32) = 4 * i + p" if "i < ARRAYSIZE" "p < 4" for i p
    using unat_of_nat_small [of "4 * i + p", where 'a = 32] that by (simp add: ARRAYSIZE_def)
  have may: "\<forall>i < ARRAYSIZE. \<forall>w. in_range 0x800000 (4 * ARRAYSIZE) (0x800000 + 4 * of_nat i)"
    using off [of _ 0] by (simp add: in_range_def)
  have wild: "\<not> in_range 0x800000 (4 * ARRAYSIZE) (0x800000 + 4 * of_nat (ARRAYSIZE + 1024))"
    by (simp add: in_range_def ARRAYSIZE_def)
  have zero: "\<forall>i < ARRAYSIZE. load32 (umem \<lparr>umem = (\<lambda>_. 0), kern = []\<rparr>) (0x800000 + 4 * of_nat i) = 0"
    by (simp add: load32_def)
  have apart: "\<forall>i < ARRAYSIZE. \<forall>p < 4. \<not> in_range 0xeebfd000 255 (0x800000 + 4 * of_nat i + of_nat p)"
  proof (intro allI impI)
    fix i p :: nat
    assume ip: "i < ARRAYSIZE" "p < 4"
    have "0x800000 + 4 * of_nat i + of_nat p - 0xeebfd000 = (of_nat (0x11c03000 + (4 * i + p)) :: u32)" by simp
    moreover have "unat (of_nat (0x11c03000 + (4 * i + p)) :: u32) = 0x11c03000 + (4 * i + p)"
      by (rule unat_of_nat_small) (use ip in \<open>simp add: ARRAYSIZE_def\<close>)
    ultimately show "\<not> in_range 0xeebfd000 255 (0x800000 + 4 * of_nat i + of_nat p)"
      unfolding in_range_def by (simp only:)
  qed
  from testbss_checks_array [OF puts _ may wild zero apart, of "[]" "\<lambda>_. 0" "\<lparr>thisenv = 0, binaryname = 0\<rparr>" 0 0]
  obtain u' where "testbss log_trap (\<lambda>a w. in_range 0x800000 (4 * ARRAYSIZE) a) [] (\<lambda>_. 0) 0x800000 0xeebfd000
      \<lparr>thisenv = 0, binaryname = 0\<rparr> 0 0 \<lparr>umem = (\<lambda>_. 0), kern = []\<rparr>
      = Some (Inr (Stopped T_PGFLT (0x800000 + 4 * of_nat (ARRAYSIZE + 1024)) u'))" "length (kern u') = 2"
    "\<forall>i < ARRAYSIZE. load32 (umem u') (0x800000 + 4 * of_nat i) = of_nat i" by auto
  moreover have "0x800000 + 4 * of_nat (ARRAYSIZE + 1024) = (0xc01000 :: u32)" by (simp add: ARRAYSIZE_def)
  ultimately show ?thesis by (auto simp: ARRAYSIZE_def dest: spec [of _ 1000])
qed

end
