(* ===== verification/EnvFree.thy ===== *)
theory EnvFree
  imports Env
begin

text \<open>
  The tear-down of an address space by \<open>env_free\<close>: dropping a reference held outside the
  tables, taking an empty page table out of its directory, the loop over one page table and
  the loop over the user part of the directory, each with the address space invariant
  \<open>vm_inv\<close>; then the contract of \<open>env_free\<close>.
\<close>

section \<open>Dropping a reference\<close>

lemma vm_inv_drop:
  assumes inv: "vm_inv s xs pd (ext(f := ext f + 1))" and f: "f < length (pages s)"
    and ext: "1 \<le> ext pd" "1 \<le> ext 0"
  shows "page_decref f s = Inr (drop_ref f s)"
    and "vm_inv (drop_ref f s) (drop_free f s xs) pd ext"
proof -
  note wf = vm_invD(1) [OF inv]
  have refs: "unat (pp_ref (pages s ! f)) = pte_refs (mem s) pd f + pt_refs (mem s) pd f + ext f + 1"
    using vm_invD(5) [OF inv f] by simp
  then have "pp_ref (pages s ! f) \<noteq> 0" by auto
  then have nf: "f \<notin> set xs" using wf_pdD(1) [OF wf] f by (auto simp: free_inv_def)
  show "page_decref f s = Inr (drop_ref f s)" by (rule page_decref_drop [OF wf_pdD(1) [OF wf] f nf])
  have last: "pte_refs (mem s) pd f = 0 \<and> pt_refs (mem s) pd f = 0 \<and> ext f = 0"
    if "pp_ref (pages s ! f) = 1"
    using refs that by simp
  have "0 < f" if "pp_ref (pages s ! f) = 1" using last [OF that] ext by (cases f) auto
  then have fr: "free_inv (drop_ref f s) (drop_free f s xs)"
    using drop_ref_free_inv [OF wf_pdD(1) [OF wf] f nf] by blast
  have pd: "pd \<notin> set (drop_free f s xs)"
    using wf_pdD(5) [OF wf] last ext by (auto simp: drop_free_def)
  have tables: "frame_of (entry (mem s) pd d) \<notin> set (drop_free f s xs)"
    if "d < 1024" "present (entry (mem s) pd d)" for d
  proof (cases "d = UVPT_D")
    case True
    then show ?thesis using wf_pdD(11) [OF wf] that pd by simp
  next
    case False
    then show ?thesis
      using pt_refs_pos [OF that(1) False that(2)] wf_pdD(8) [OF wf that] last by (auto simp: drop_free_def)
  qed
  have wf1: "wf_pd (drop_ref f s) (drop_free f s xs) pd"
    using wf_pd_transfer [OF wf _ _ fr pd tables] by simp
  have "unat (pp_ref (pages s ! f) - 1) = unat (pp_ref (pages s ! f)) - 1"
    using refs by (intro unat_minus_one) auto
  then have "unat (pp_ref (pages (drop_ref f s) ! i)) = pte_refs (mem s) pd i + pt_refs (mem s) pd i + ext i"
    if "i < length (pages s)" for i
    using vm_invD(5) [OF inv that] refs drop_ref_ref [OF that, of f] by (cases "i = f") auto
  then show "vm_inv (drop_ref f s) (drop_free f s xs) pd ext"
    unfolding vm_inv_def using wf1 ext vm_invD(4) [OF inv] by auto
qed

section \<open>Taking a page table out of the directory\<close>

lemma clear_table_entry:
  assumes "wf_pd s xs pd" and "d < UTOP_D" and "i < 1024"
  shows "entry (set_entry pd d 0 (mem s)) pd i = (if i = d then 0 else entry (mem s) pd i)"
  using entry_set_entry [of pd d pd i 0 "mem s"] wf_pdD(4) [OF assms(1)] assms(2,3) by (simp add: UTOP_D_def)

lemma clear_table_pte:
  assumes wf: "wf_pd s xs pd" and d: "d < UTOP_D" and e: "e < 1024" "t < 1024" "e \<noteq> UVPT_D"
  shows "pte_at (set_entry pd d 0 (mem s)) pd e t = (if e = d then 0 else pte_at (mem s) pd e t)"
proof (cases "e = d \<or> \<not> present (entry (mem s) pd e)")
  case True
  then show ?thesis using clear_table_entry [OF wf d e(1)] by (auto simp: pte_at_def Let_def)
next
  case False
  note D = wf_pdD [OF wf]
  have "frame_of (entry (mem s) pd e) < 65536" "frame_of (entry (mem s) pd e) \<noteq> pd"
    using D(6) [OF e(1)] D(9) [OF e(1,3)] False by blast+
  then have "entry (set_entry pd d 0 (mem s)) (frame_of (entry (mem s) pd e)) t
      = entry (mem s) (frame_of (entry (mem s) pd e)) t"
    using entry_set_entry [of pd d _ t 0 "mem s"] D(4) d e(2) by (simp add: UTOP_D_def)
  then show ?thesis
    using False clear_table_entry [OF wf d e(1)] by (simp add: pte_at_def Let_def)
qed

lemma vm_inv_clear_table:
  assumes inv: "vm_inv s xs pd ext" and d: "d < UTOP_D" and pde: "present (entry (mem s) pd d)"
    and empty: "\<And>t. t < 1024 \<Longrightarrow> \<not> present (pte_at (mem s) pd d t)"
  defines "f \<equiv> frame_of (entry (mem s) pd d)"
  shows "vm_inv (s\<lparr>mem := set_entry pd d 0 (mem s)\<rparr>) xs pd (ext(f := ext f + 1))"
proof -
  let ?m = "set_entry pd d 0 (mem s)"
  note wf = vm_invD(1) [OF inv]
  note ent = clear_table_entry [OF wf d] and pte = clear_table_pte [OF wf d]
  have d': "d < 1024" "d \<noteq> UVPT_D" using d by (simp_all add: UTOP_D_def UVPT_D_def)
  have wf': "wf_pd (s\<lparr>mem := ?m\<rparr>) xs pd"
    using wf by (auto simp: wf_pd_def ent free_inv_def)
  have refs: "pte_refs ?m pd i = pte_refs (mem s) pd i" for i
  proof -
    have "{(e, t) \<in> user_slots. present (pte_at ?m pd e t) \<and> frame_of (pte_at ?m pd e t) = i}
      = {(e, t) \<in> user_slots. present (pte_at (mem s) pd e t) \<and> frame_of (pte_at (mem s) pd e t) = i}"
      using pte user_slotsD empty by (auto split: if_splits)
    then show ?thesis unfolding pte_refs_def by (rule arg_cong)
  qed
  have pts: "pt_refs (mem s) pd i = pt_refs ?m pd i + (if i = f then 1 else 0)" for i
  proof -
    let ?h = "\<lambda>m e. present (entry m pd e) \<and> frame_of (entry m pd e) = i"
    have same: "?h ?m e = ?h (mem s) e" if "e \<in> {..<1024} - {UVPT_D}" "e \<noteq> d" for e
      using ent [of e] that by simp
    have "card {e \<in> {..<1024} - {UVPT_D}. ?h ?m e} + (if ?h (mem s) d then 1 else 0)
        = card {e \<in> {..<1024} - {UVPT_D}. ?h (mem s) e} + (if ?h ?m d then 1 else 0)"
      by (rule card_change_one) (use d' same in auto)
    then show ?thesis using ent [OF d'(1)] pde by (auto simp: pt_refs_def f_def)
  qed
  have "unat (pp_ref (pages s ! i)) = pte_refs ?m pd i + pt_refs ?m pd i + (ext(f := ext f + 1)) i"
    if "i < length (pages s)" for i
    using vm_invD(5) [OF inv that] refs [of i] pts [of i] by simp
  moreover have "present (pte_at ?m pd e t) \<longrightarrow> frame_of (pte_at ?m pd e t) < length (pages s)"
    if "(e, t) \<in> user_slots" for e t
    using pte user_slotsD [OF that] vm_invD(4) [OF inv that] by auto
  ultimately show ?thesis
    unfolding vm_inv_def using wf' vm_invD(2,3) [OF inv] by (auto simp: le_Suc_eq)
qed

section \<open>What a tear-down may change\<close>

text \<open>
  \<open>torn pd D s xs s' xs'\<close>: from \<open>s\<close> with free list \<open>xs\<close> to \<open>s'\<close> with \<open>xs'\<close> only memory, the
  page array, the free list and the TLB changed; the TLB lost entries, the directory \<open>pd\<close>
  changed in the slots \<open>D\<close> only, no user mapping appeared, and every page that lost its last
  reference went to the free list.
\<close>

definition mem_part :: "'z ks \<Rightarrow> 'z ks \<Rightarrow> bool" where
  "mem_part s s' \<longleftrightarrow> s' = s\<lparr>mem := mem s', pages := pages s', page_free_list := page_free_list s', tlb := tlb s'\<rparr>"

lemma mem_part_trans: "mem_part s s1 \<Longrightarrow> mem_part s1 s2 \<Longrightarrow> mem_part s s2"
proof -
  assume a: "mem_part s s1" and b: "mem_part s1 s2"
  have "s2 = s1\<lparr>mem := mem s2, pages := pages s2, page_free_list := page_free_list s2, tlb := tlb s2\<rparr>"
    using b by (simp only: mem_part_def)
  also have "s1 = s\<lparr>mem := mem s1, pages := pages s1, page_free_list := page_free_list s1, tlb := tlb s1\<rparr>"
    using a by (simp only: mem_part_def)
  finally show ?thesis by (simp add: mem_part_def)
qed

lemma mem_part_simps: "mem_part s s" "mem_part s (drop_ref q s)" "mem_part s (s\<lparr>mem := m\<rparr>)"
  "mem_part s (s\<lparr>mem := m, tlb := t\<rparr>)"
  by (simp_all add: mem_part_def drop_ref_def free_state_def decref_state_def)

definition torn :: "nat \<Rightarrow> nat set \<Rightarrow> 'z ks \<Rightarrow> nat list \<Rightarrow> 'z ks \<Rightarrow> nat list \<Rightarrow> bool" where
  "torn pd D s xs s' xs' \<longleftrightarrow>
     mem_part s s' \<and> length (pages s') = length (pages s)
     \<and> (\<forall>p. tlb s' p = None \<or> tlb s' p = tlb s p)
     \<and> (\<forall>i < 1024. i \<notin> D \<longrightarrow> entry (mem s') pd i = entry (mem s) pd i)
     \<and> (\<forall>(d, t) \<in> user_slots. \<not> present (pte_at (mem s) pd d t) \<longrightarrow> \<not> present (pte_at (mem s') pd d t))
     \<and> set xs \<subseteq> set xs'
     \<and> (\<forall>i < length (pages s). pp_ref (pages s' ! i) = 0 \<longrightarrow> pp_ref (pages s ! i) = 0 \<or> i \<in> set xs')"

lemma torn_refl: "torn pd D s xs s xs"
  by (simp add: torn_def mem_part_simps)

lemma tornD:
  assumes "torn pd D s xs s' xs'"
  shows "mem_part s s'" "length (pages s') = length (pages s)" "set xs \<subseteq> set xs'"
    and "\<And>p. tlb s' p = None \<or> tlb s' p = tlb s p"
    and "\<And>i. i < 1024 \<Longrightarrow> i \<notin> D \<Longrightarrow> entry (mem s') pd i = entry (mem s) pd i"
    and "\<And>d t. (d, t) \<in> user_slots \<Longrightarrow> \<not> present (pte_at (mem s) pd d t) \<Longrightarrow> \<not> present (pte_at (mem s') pd d t)"
    and "\<And>i. i < length (pages s) \<Longrightarrow> pp_ref (pages s' ! i) = 0 \<Longrightarrow> pp_ref (pages s ! i) = 0 \<or> i \<in> set xs'"
  using assms unfolding torn_def by blast+

lemma tornI:
  assumes "mem_part s s'" "length (pages s') = length (pages s)" "set xs \<subseteq> set xs'"
    and "\<And>p. tlb s' p = None \<or> tlb s' p = tlb s p"
    and "\<And>i. i < 1024 \<Longrightarrow> i \<notin> D \<Longrightarrow> entry (mem s') pd i = entry (mem s) pd i"
    and "\<And>d t. (d, t) \<in> user_slots \<Longrightarrow> \<not> present (pte_at (mem s) pd d t) \<Longrightarrow> \<not> present (pte_at (mem s') pd d t)"
    and "\<And>i. i < length (pages s) \<Longrightarrow> pp_ref (pages s' ! i) = 0 \<Longrightarrow> pp_ref (pages s ! i) = 0 \<or> i \<in> set xs'"
  shows "torn pd D s xs s' xs'"
  unfolding torn_def using assms by blast

lemma torn_trans:
  assumes "torn pd D s xs s1 xs1" and "torn pd E s1 xs1 s2 xs2"
  shows "torn pd (D \<union> E) s xs s2 xs2"
proof (rule tornI)
  show "mem_part s s2" using tornD(1) [OF assms(1)] tornD(1) [OF assms(2)] by (rule mem_part_trans)
  show "length (pages s2) = length (pages s)" "set xs \<subseteq> set xs2"
    using tornD(2,3) [OF assms(1)] tornD(2,3) [OF assms(2)] by auto
  show "tlb s2 p = None \<or> tlb s2 p = tlb s p" for p
    using tornD(4) [OF assms(1), of p] tornD(4) [OF assms(2), of p] by auto
  show "entry (mem s2) pd i = entry (mem s) pd i" if "i < 1024" "i \<notin> D \<union> E" for i
    using tornD(5) [OF assms(1) that(1)] tornD(5) [OF assms(2) that(1)] that(2) by simp
  show "\<not> present (pte_at (mem s2) pd d t)"
    if "(d, t) \<in> user_slots" "\<not> present (pte_at (mem s) pd d t)" for d t
    using tornD(6) [OF assms(2) that(1) tornD(6) [OF assms(1) that]] .
  show "pp_ref (pages s ! i) = 0 \<or> i \<in> set xs2"
    if "i < length (pages s)" "pp_ref (pages s2 ! i) = 0" for i
    using tornD(7) [OF assms(1) that(1)] tornD(7) [OF assms(2), of i] tornD(2) [OF assms(1)]
      tornD(3) [OF assms(2)] that by auto
qed

lemma torn_drop: "torn pd D s xs (drop_ref q s) (drop_free q s xs)"
proof (rule tornI)
  show "pp_ref (pages s ! i) = 0 \<or> i \<in> set (drop_free q s xs)"
    if "i < length (pages s)" "pp_ref (pages (drop_ref q s) ! i) = 0" for i
    using that drop_ref_ref [OF that(1), of q] by (auto simp: drop_free_def split: if_splits)
  show "set xs \<subseteq> set (drop_free q s xs)" by (auto simp: drop_free_def)
qed (simp_all add: mem_part_simps)

text \<open>A change of memory and TLB alone.\<close>

lemma torn_mem:
  assumes "\<And>p. t p = None \<or> t p = tlb s p"
    and "\<And>i. i < 1024 \<Longrightarrow> i \<notin> D \<Longrightarrow> entry m pd i = entry (mem s) pd i"
    and "\<And>d t. (d, t) \<in> user_slots \<Longrightarrow> \<not> present (pte_at (mem s) pd d t) \<Longrightarrow> \<not> present (pte_at m pd d t)"
  shows "torn pd D s xs (s\<lparr>mem := m, tlb := t\<rparr>) xs"
  by (rule tornI) (use assms in \<open>simp_all add: mem_part_simps\<close>)

lemma torn_remove:
  assumes inv: "vm_inv s xs pd ext" and slot: "(pdi va, pti va) \<in> user_slots"
    and pres: "present (pte_at (mem s) pd (pdi va) (pti va))"
  defines "q \<equiv> frame_of (pte_at (mem s) pd (pdi va) (pti va))"
  shows "torn pd {} s xs (remove_state pd va s) (drop_free q s xs)"
proof -
  note wf = vm_invD(1) [OF inv]
  have pde: "present (entry (mem s) pd (pdi va))"
    using pres by (auto simp: pte_at_def Let_def split: if_splits)
  have q: "q < length (pages s)" using vm_invD(4) [OF inv slot pres] by (simp add: q_def)
  let ?m = "mem (remove_state pd va s)" and ?t = "tlb (remove_state pd va s)"
  have st: "remove_state pd va s = (drop_ref q s)\<lparr>mem := ?m, tlb := ?t\<rparr>"
    using pde by (simp add: remove_state_def q_def pte_at_def Let_def)
  note e = remove_state_entries [OF wf slot pde]
  have "torn pd {} (drop_ref q s) (drop_free q s xs) ((drop_ref q s)\<lparr>mem := ?m, tlb := ?t\<rparr>) (drop_free q s xs)"
    by (rule torn_mem) (use e(1-3) in auto)
  from torn_trans [OF torn_drop [of pd "{}" s xs q] this] st show ?thesis by simp
qed

section \<open>One page table\<close>

lemma free_slot_step:
  assumes inv: "vm_inv s xs pd ext" and d: "d < UTOP_D" and t: "t < 1024"
    and pde: "present (entry (mem s) pd d)"
  shows "\<exists>s' xs'. free_slot (kva pd) (kva (frame_of (entry (mem s) pd d))) d t s = Inr s'
    \<and> vm_inv s' xs' pd ext \<and> torn pd {} s xs s' xs' \<and> \<not> present (pte_at (mem s') pd d t)"
proof -
  note wf = vm_invD(1) [OF inv]
  let ?va = "PGADDR (of_nat d) (of_nat t) 0"
  have d': "d < 1024" using d by (simp add: UTOP_D_def)
  have ud: "unat (of_nat d :: u32) = d" "unat (of_nat t :: u32) = t"
    using d' t by (simp_all add: unat_of_nat_small)
  then have "(of_nat d :: u32) < 1024" "(of_nat t :: u32) < 1024"
    using d' t by (simp_all add: word_less_nat_alt)
  then have va: "pdi ?va = d" "pti ?va = t"
    using PDX_PGADDR [of "of_nat d" "of_nat t" 0] ud by simp_all
  have slot: "(pdi ?va, pti ?va) \<in> user_slots" using d t by (simp add: va user_slots_def)
  have pte: "pte_at (mem s) pd d t = entry (mem s) (frame_of (entry (mem s) pd d)) t"
    using pde by (simp add: pte_at_def)
  have ld: "kload s (kva (frame_of (entry (mem s) pd d)) + 4 * of_nat t) = Inr (pte_at (mem s) pd d t)"
    using kload_entry [OF wf_pdD(6) [OF wf d' pde] t, of s] by (simp add: pte)
  show ?thesis
  proof (cases "present (pte_at (mem s) pd d t)")
    case False
    have "free_slot (kva pd) (kva (frame_of (entry (mem s) pd d))) d t s = Inr s"
      using ld False by (simp add: free_slot_def)
    then show ?thesis using inv torn_refl [of pd "{}" s xs] False by blast
  next
    case True
    then have pres: "present (pte_at (mem s) pd (pdi ?va) (pti ?va))" unfolding va .
    have pde': "present (entry (mem s) pd (pdi ?va))" using pde unfolding va .
    have "free_slot (kva pd) (kva (frame_of (entry (mem s) pd d))) d t s = Inr (remove_state pd ?va s)"
      using ld True vm_inv_remove(1) [OF inv slot pres] by (simp add: free_slot_def)
    moreover have "\<not> present (pte_at (mem (remove_state pd ?va s)) pd d t)"
      using remove_state_entries(1) [OF wf slot pde', of d t] slot by (simp add: va)
    ultimately show ?thesis
      using vm_inv_remove(2) [OF inv slot pres] torn_remove [OF inv slot pres] by blast
  qed
qed

lemma free_slots:
  assumes "vm_inv s xs pd ext" and "d < UTOP_D" and "k \<le> 1024" and "present (entry (mem s) pd d)"
  shows "\<exists>s' xs'. foldE (free_slot (kva pd) (kva (frame_of (entry (mem s) pd d))) d) [0..<k] s = Inr s'
    \<and> vm_inv s' xs' pd ext \<and> torn pd {} s xs s' xs' \<and> (\<forall>t < k. \<not> present (pte_at (mem s') pd d t))"
  using assms(3)
proof (induction k)
  case 0
  then show ?case using assms(1) torn_refl [of pd "{}" s xs] by auto
next
  case (Suc k)
  let ?f = "free_slot (kva pd) (kva (frame_of (entry (mem s) pd d))) d :: nat \<Rightarrow> 'a ke \<Rightarrow> kerr + 'a ke"
  obtain s1 xs1 where s1: "foldE ?f [0..<k] s = Inr s1" "vm_inv s1 xs1 pd ext" "torn pd {} s xs s1 xs1"
    "\<forall>t < k. \<not> present (pte_at (mem s1) pd d t)"
    using Suc by auto
  have d: "d < 1024" using assms(2) by (simp add: UTOP_D_def)
  have e: "entry (mem s1) pd d = entry (mem s) pd d" using tornD(5) [OF s1(3) d] by simp
  then have "present (entry (mem s1) pd d)" using assms(4) by simp
  from free_slot_step [OF s1(2) assms(2) _ this, of k] Suc.prems obtain s2 xs2 where
    s2: "?f k s1 = Inr s2" "vm_inv s2 xs2 pd ext" "torn pd {} s1 xs1 s2 xs2"
    "\<not> present (pte_at (mem s2) pd d k)"
    unfolding e by auto
  have "foldE ?f [0..<Suc k] s = Inr s2" using s1(1) s2(1) by (simp add: foldE_append)
  moreover have "\<not> present (pte_at (mem s2) pd d t)" if "t < Suc k" for t
  proof (cases "t = k")
    case True
    then show ?thesis using s2(4) by simp
  next
    case False
    then have "t < k" using that by simp
    then have "(d, t) \<in> user_slots" "\<not> present (pte_at (mem s1) pd d t)"
      using s1(4) assms(2) Suc.prems by (auto simp: user_slots_def)
    then show ?thesis by (rule tornD(6) [OF s2(3)])
  qed
  ultimately show ?case using s2(2) torn_trans [OF s1(3) s2(3)] by (intro exI [of _ s2] exI [of _ xs2]) simp
qed

section \<open>The whole user part\<close>

lemma PTX_all: "Suc (unat (PTX (NOT 0))) = 1024"
  by code_simp

lemma free_table_step:
  assumes inv: "vm_inv s xs pd ext" and d: "d < UTOP_D"
  shows "\<exists>s' xs'. free_table (kva pd) d s = Inr s' \<and> vm_inv s' xs' pd ext
    \<and> torn pd {d} s xs s' xs' \<and> \<not> present (entry (mem s') pd d)"
proof -
  let ?pde = "entry (mem s) pd d"
  let ?f = "frame_of ?pde"
  note wf = vm_invD(1) [OF inv]
  note D = wf_pdD [OF wf]
  have d': "d < 1024" "d \<noteq> UVPT_D" using d by (simp_all add: UTOP_D_def UVPT_D_def)
  have ld: "kload s (kva pd + 4 * of_nat d) = Inr ?pde" using kload_entry [OF D(4) d'(1)] .
  show ?thesis
  proof (cases "present ?pde")
    case False
    then have "free_table (kva pd) d s = Inr s" using ld by (simp add: free_table_def)
    then show ?thesis using inv torn_refl [of pd "{d}" s xs] False by blast
  next
    case True
    from free_slots [OF inv d order_refl True] obtain s1 xs1 where
      s1: "foldE (free_slot (kva pd) (kva ?f) d) [0..<1024] s = Inr s1"
      and inv1: "vm_inv s1 xs1 pd ext" and t1: "torn pd {} s xs s1 xs1"
      and none: "\<forall>t < 1024. \<not> present (pte_at (mem s1) pd d t)" by blast
    have e1: "entry (mem s1) pd d = ?pde" using tornD(5) [OF t1 d'(1)] by simp
    let ?m = "set_entry pd d 0 (mem s1)"
    let ?s2 = "s1\<lparr>mem := ?m\<rparr>"
    note wf1 = vm_invD(1) [OF inv1]
    have inv2: "vm_inv ?s2 xs1 pd (ext(?f := ext ?f + 1))"
      using vm_inv_clear_table [OF inv1 d] True none by (simp add: e1)
    have "torn pd {d} s1 xs1 (s1\<lparr>mem := ?m, tlb := tlb s1\<rparr>) xs1"
    proof (rule torn_mem)
      show "entry ?m pd i = entry (mem s1) pd i" if "i < 1024" "i \<notin> {d}" for i
        using clear_table_entry [OF wf1 d that(1)] that(2) by simp
      show "\<not> present (pte_at ?m pd e t)" if "(e, t) \<in> user_slots" "\<not> present (pte_at (mem s1) pd e t)" for e t
        using clear_table_pte [OF wf1 d, of e t] user_slotsD [OF that(1)] that(2) by simp
    qed simp
    then have t2: "torn pd {d} s1 xs1 ?s2 xs1" by simp
    have f: "?f < length (pages ?s2)" using D(7) [OF d'(1) True] tornD(2) [OF t1] by simp
    note drop = vm_inv_drop [OF inv2 f vm_invD(2,3) [OF inv1]]
    have st: "kstore (kva pd + 4 * of_nat d) 0 s1 = Inr ?s2"
      using kstore_entry [OF D(4) d'(1)] .
    have "KADDR s (PTE_ADDR ?pde) = Inr (kva ?f)"
      using KADDR_frame [OF D(2) D(7) [OF d'(1) True]] .
    moreover have "pa2page ?s2 (PTE_ADDR ?pde) = Inr ?f"
      by (rule pa2page_frame [OF wf_pdD(2) [OF vm_invD(1) [OF inv2]] f])
    ultimately have "free_table (kva pd) d s = Inr (drop_ref ?f ?s2)"
      unfolding free_table_def PTX_all Let_def using ld True s1 st drop(1) by simp
    moreover have "torn pd {d} s xs (drop_ref ?f ?s2) (drop_free ?f ?s2 xs1)"
      using torn_trans [OF torn_trans [OF t1 t2] torn_drop [of pd "{}"]] by simp
    moreover have "\<not> present (entry (mem (drop_ref ?f ?s2)) pd d)"
      using clear_table_entry [OF wf1 d d'(1)] by simp
    ultimately show ?thesis using drop(2) by blast
  qed
qed

lemma free_tables:
  assumes "vm_inv s xs pd ext" and "k \<le> UTOP_D"
  shows "\<exists>s' xs'. foldE (free_table (kva pd)) [0..<k] s = Inr s' \<and> vm_inv s' xs' pd ext
    \<and> torn pd {..<k} s xs s' xs' \<and> (\<forall>d < k. \<not> present (entry (mem s') pd d))"
  using assms(2)
proof (induction k)
  case 0
  then show ?case using assms(1) torn_refl [of pd "{}" s xs] by auto
next
  case (Suc k)
  then obtain s1 xs1 where s1: "foldE (free_table (kva pd)) [0..<k] s = Inr s1" "vm_inv s1 xs1 pd ext"
    "torn pd {..<k} s xs s1 xs1" "\<forall>d < k. \<not> present (entry (mem s1) pd d)" by auto
  from free_table_step [OF s1(2), of k] Suc.prems obtain s2 xs2 where
    s2: "free_table (kva pd) k s1 = Inr s2" "vm_inv s2 xs2 pd ext" "torn pd {k} s1 xs1 s2 xs2"
    "\<not> present (entry (mem s2) pd k)" by auto
  have k: "k < 1024" using Suc.prems by (simp add: UTOP_D_def)
  have "\<not> present (entry (mem s2) pd d)" if "d < Suc k" for d
  proof (cases "d = k")
    case True
    then show ?thesis using s2(4) by simp
  next
    case False
    then have "entry (mem s2) pd d = entry (mem s1) pd d" "d < k"
      using tornD(5) [OF s2(3), of d] that k by simp_all
    then show ?thesis using s1(4) by simp
  qed
  moreover have "torn pd {..<Suc k} s xs s2 xs2"
    using torn_trans [OF s1(3) s2(3)] by (simp add: lessThan_Suc)
  ultimately show ?case using s1(1) s2(1,2) by (intro exI [of _ s2] exI [of _ xs2]) (simp add: foldE_append)
qed

section \<open>The contract\<close>

lemma mem_part_kenv:
  assumes "mem_part (s :: 'z ke) s'"
  shows "envs s' = envs s" "curenv s' = curenv s" "env_free_list s' = env_free_list s"
    "kern_pgdir s' = kern_pgdir s" "cr3 s' = cr3 s" "io s' = io s" "npages s' = npages s" "last_tf s' = last_tf s"
proof -
  have *: "s' = s\<lparr>mem := mem s', pages := pages s', page_free_list := page_free_list s', tlb := tlb s'\<rparr>"
    using assms by (simp only: mem_part_def)
  show "envs s' = envs s" "curenv s' = curenv s" "env_free_list s' = env_free_list s"
    "kern_pgdir s' = kern_pgdir s" "cr3 s' = cr3 s" "io s' = io s" "npages s' = npages s" "last_tf s' = last_tf s"
    by (subst *, simp)+
qed

lemma vm_inv_other [simp]:
  "vm_inv (s\<lparr>io := i\<rparr> :: 'z ke) xs pd ext = vm_inv s xs pd ext"
  "vm_inv (lcr3 v s :: 'z ke) xs pd ext = vm_inv s xs pd ext"
  by (simp_all add: vm_inv_def wf_pd_def free_inv_def wf_pages_def lcr3_def)

lemma drop_ref_envs: "drop_ref q (s\<lparr>envs := x\<rparr>) = (drop_ref q s :: 'z ke)\<lparr>envs := x\<rparr>"
  by (simp add: drop_ref_def free_state_def decref_state_def)

lemma free_inv_envs [simp]: "free_inv (s\<lparr>envs := x\<rparr> :: 'z ke) xs = free_inv s xs"
  "free_inv (s\<lparr>env_free_list := y\<rparr> :: 'z ke) xs = free_inv s xs"
  by (simp_all add: free_inv_def wf_pages_def)

lemma no_user_refs:
  assumes "\<forall>d < UTOP_D. \<not> present (entry m pd d)"
  shows "pte_refs m pd i = 0"
proof -
  have "{(d, t) \<in> user_slots. present (pte_at m pd d t) \<and> frame_of (pte_at m pd d t) = i} = {}"
    using assms user_slotsD by (auto simp: pte_at_def Let_def)
  then show ?thesis unfolding pte_refs_def by (simp only: card.empty)
qed

lemma drop_ref_curenv: "curenv (drop_ref q s :: 'z ke) = curenv s"
  "env_free_list (drop_ref q s) = env_free_list s"
  by (simp_all add: drop_ref_def free_state_def decref_state_def)

text \<open>The page directory's own reference, the last one the environment holds.\<close>

lemma free_directory:
  assumes inv: "vm_inv s xs pd ext" and none: "\<forall>d < UTOP_D. \<not> present (entry (mem s) pd d)" and pd: "0 < pd"
  shows "page_decref pd s = Inr (drop_ref pd s)" and "free_inv (drop_ref pd s) (drop_free pd s xs)"
    and "\<And>i. i < length (pages s) \<Longrightarrow> unat (pp_ref (pages (drop_ref pd s) ! i))
      = pt_refs (mem s) pd i + ext i - (if i = pd then 1 else 0)"
proof -
  note D = wf_pdD [OF vm_invD(1) [OF inv]]
  have refs: "unat (pp_ref (pages s ! i)) = pt_refs (mem s) pd i + ext i" if "i < length (pages s)" for i
    using vm_invD(5) [OF inv that] no_user_refs [OF none] by simp
  then have pos: "pp_ref (pages s ! pd) \<noteq> 0" using vm_invD(2) [OF inv] D(3) by fastforce
  show "page_decref pd s = Inr (drop_ref pd s)" by (rule page_decref_drop [OF D(1,3,5)])
  show "free_inv (drop_ref pd s) (drop_free pd s xs)" by (rule drop_ref_free_inv [OF D(1,3,5)]) (rule pd)
  have "unat (pp_ref (pages s ! pd) - 1) = unat (pp_ref (pages s ! pd)) - 1"
    using pos by (rule unat_minus_one)
  then show "unat (pp_ref (pages (drop_ref pd s) ! i))
      = pt_refs (mem s) pd i + ext i - (if i = pd then 1 else 0)" if "i < length (pages s)" for i
    using refs [OF that] drop_ref_ref [OF that, of pd] by auto
qed

text \<open>The part before the loop: switching away from the dying address space, the message.\<close>

definition left_space :: "nat \<Rightarrow> 'z ke \<Rightarrow> 'z ke" where
  "left_space e s = (if curenv s = Some e then lcr3 (kern_pgdir s - KERNBASE) s else s)"

lemma left_space_simps [simp]: "envs (left_space e s) = envs s" "curenv (left_space e s) = curenv s"
  "env_free_list (left_space e s) = env_free_list s" "mem (left_space e s) = mem s"
  "pages (left_space e s) = pages s" "vm_inv (left_space e s) xs pd ext = vm_inv s xs pd ext"
  "io (left_space e s) = io s"
  by (simp_all add: left_space_def) (simp_all add: lcr3_def)

lemma cur_id_Inr: "\<forall>c. curenv s = Some c \<longrightarrow> c < length (envs s) \<Longrightarrow> \<exists>i. cur_id s = Inr i"
  by (auto simp: cur_id_def get_env_def split: option.splits)

text \<open>The state \<open>env_free\<close> returns, through the one the loop over the directory leaves.\<close>

definition freed_env :: "'z ke \<Rightarrow> env \<Rightarrow> env" where
  "freed_env s x = x\<lparr>env_pgdir := 0, env_status := ENV_FREE, env_link := env_free_list s\<rparr>"

lemma env_free_state:
  fixes s :: "'z ke"
  assumes inv: "vm_inv s xs pd ext"
    and e: "e < length (envs s)" "env_pgdir (envs s ! e) = kva pd"
    and cur: "\<forall>c. curenv s = Some c \<longrightarrow> c < length (envs s)"
    and kern: "curenv s = Some e \<longrightarrow> KERNBASE \<le> kern_pgdir s"
  shows "\<exists>i s2 xs2. env_free mc e s
      = Inr ((drop_ref pd s2)\<lparr>envs := (envs s)[e := freed_env s (envs s ! e)], env_free_list := Some e\<rparr>)
    \<and> vm_inv s2 xs2 pd ext \<and> (\<forall>d < UTOP_D. \<not> present (entry (mem s2) pd d))
    \<and> torn pd {..<UTOP_D} ((left_space e s)\<lparr>io := i\<rparr>) xs s2 xs2"
proof -
  let ?s0 = "left_space e s"
  obtain cid where cid: "cur_id ?s0 = Inr cid" using cur_id_Inr [of ?s0] cur by auto
  obtain cs where pr: "kprint mc (''[%08x] free env %08x'' @ NL) [cid, env_id (envs s ! e)] ?s0
      = Inr (?s0\<lparr>io := (io s)\<lparr>con := put_all (devs mc) cs (con (io s))\<rparr>\<rparr>)"
    using kprint_free [of mc "[cid, env_id (envs s ! e)]" ?s0] by auto
  define s1 where "s1 = ?s0\<lparr>io := (io s)\<lparr>con := put_all (devs mc) cs (con (io s))\<rparr>\<rparr>"
  have s1: "vm_inv s1 xs pd ext" "envs s1 = envs s" "curenv s1 = curenv s" "env_free_list s1 = env_free_list s"
    using inv by (simp_all add: s1_def)
  obtain s2 xs2 where s2: "foldE (free_table (kva pd)) [0..<UTOP_D] s1 = Inr s2" "vm_inv s2 xs2 pd ext"
    "torn pd {..<UTOP_D} s1 xs s2 xs2" "\<forall>d < UTOP_D. \<not> present (entry (mem s2) pd d)"
    using free_tables [OF s1(1) order_refl] by blast
  note D = wf_pdD [OF vm_invD(1) [OF s2(2)]] and M = mem_part_kenv [OF tornD(1) [OF s2(3)]]
  have pa: "PADDR (kva pd) = Inr (page2pa pd)"
    using page2pa_bound [OF D(2,3)] by (intro PADDR_kva) simp
  have pp: "pa2page (s2\<lparr>envs := x\<rparr>) (page2pa pd) = Inr pd" for x
    using pa2page_page2pa [of s2 pd] D(2,3) by (simp add: pa2page_def)
  have dec: "page_decref pd (s2\<lparr>envs := x\<rparr>) = Inr ((drop_ref pd s2)\<lparr>envs := x\<rparr>)" for x
    using page_decref_drop [of "s2\<lparr>envs := x\<rparr>" xs2 pd] D(1,3,5) by (simp add: drop_ref_envs)
  have head: "(if Some e = curenv s then bindE (PADDR (kern_pgdir s)) (\<lambda>pa. Inr (lcr3 pa s)) else Inr s) = Inr ?s0"
    using kern by (auto simp: left_space_def PADDR_def)
  have "env_free mc e s
      = Inr ((drop_ref pd s2)\<lparr>envs := (envs s)[e := freed_env s (envs s ! e)], env_free_list := Some e\<rparr>)"
    unfolding env_free_def head UTOP_D_eq [symmetric]
    using e cid pr s2(1) pa pp dec M s1
    by (simp add: get_env_def upd_env_def s1_def [symmetric] freed_env_def drop_ref_curenv)
  then show ?thesis using s2 unfolding s1_def by blast
qed

lemma env_free_effect:
  fixes s :: "'z ke"
  assumes inv: "vm_inv s xs pd ext" and pd: "0 < pd"
    and e: "e < length (envs s)" "env_pgdir (envs s ! e) = kva pd"
    and cur: "\<forall>c. curenv s = Some c \<longrightarrow> c < length (envs s)"
    and kern: "curenv s = Some e \<longrightarrow> KERNBASE \<le> kern_pgdir s"
  shows "\<exists>s' xs'. env_free mc e s = Inr s' \<and> free_inv s' xs' \<and> set xs \<subseteq> set xs'
    \<and> (\<forall>d < UTOP_D. \<not> present (entry (mem s') pd d))
    \<and> (\<forall>d < 1024. UTOP_D \<le> d \<longrightarrow> entry (mem s') pd d = entry (mem s) pd d)
    \<and> (\<forall>i < length (pages s). unat (pp_ref (pages s' ! i))
          = pt_refs (mem s') pd i + ext i - (if i = pd then 1 else 0))
    \<and> (\<forall>i < length (pages s). pp_ref (pages s' ! i) = 0 \<longrightarrow> pp_ref (pages s ! i) = 0 \<or> i \<in> set xs')
    \<and> envs s' = (envs s)[e := (envs s ! e)\<lparr>env_pgdir := 0, env_status := ENV_FREE,
                                              env_link := env_free_list s\<rparr>]
    \<and> env_free_list s' = Some e \<and> curenv s' = curenv s
    \<and> (curenv s = Some e \<longrightarrow> cr3 s' = kern_pgdir s - KERNBASE \<and> tlb s' = (\<lambda>_. None))
    \<and> last_tf s' = last_tf s"
proof -
  obtain i s2 xs2 where eq: "env_free mc e s
      = Inr ((drop_ref pd s2)\<lparr>envs := (envs s)[e := freed_env s (envs s ! e)], env_free_list := Some e\<rparr>)"
    and inv2: "vm_inv s2 xs2 pd ext" and none: "\<forall>d < UTOP_D. \<not> present (entry (mem s2) pd d)"
    and T: "torn pd {..<UTOP_D} ((left_space e s)\<lparr>io := i\<rparr>) xs s2 xs2"
    using env_free_state [OF inv e cur kern] by blast
  let ?s1 = "(left_space e s)\<lparr>io := i\<rparr>" and ?s' = "(drop_ref pd s2)\<lparr>envs := (envs s)[e := freed_env s (envs s ! e)], env_free_list := Some e\<rparr>"
  note F = free_directory [OF inv2 none pd] and M = mem_part_kenv [OF tornD(1) [OF T]]
  have T': "torn pd {..<UTOP_D} ?s1 xs (drop_ref pd s2) (drop_free pd s2 xs2)"
    using torn_trans [OF T torn_drop [of pd "{}"]] by simp
  have "free_inv ?s' (drop_free pd s2 xs2)" using F(2) by simp
  moreover have "cr3 ?s' = kern_pgdir s - KERNBASE \<and> tlb ?s' = (\<lambda>_. None)" if c: "curenv s = Some e"
  proof -
    have "tlb ?s1 = (\<lambda>_. None)" "cr3 ?s1 = kern_pgdir s - KERNBASE"
      using c by (simp_all add: left_space_def lcr3_def)
    then show ?thesis using tornD(4) [OF T] M(5) by (auto simp: drop_ref_def free_state_def decref_state_def)
  qed
  moreover have "last_tf ?s' = last_tf s"
    using M(8) by (simp add: drop_ref_def free_state_def decref_state_def left_space_def lcr3_def)
  ultimately show ?thesis
    using eq F(3) none tornD(2,3,5,7) [OF T'] tornD(2) [OF T] M
    by (intro exI [of _ ?s'] exI [of _ "drop_free pd s2 xs2"] conjI) (auto simp: freed_env_def drop_ref_curenv)
qed

text \<open>C5: \<open>env_free\<close> of an environment whose address space satisfies the invariant returns;
  nothing is mapped in the user part of its directory any more, every reference its mappings,
  page tables and directory held is dropped and no other, pages that lost their last
  reference are on the free list, the kernel part of the directory is untouched, the entry
  is the head of the environment free list, and if it was the running one the processor is on
  the kernel's own directory with an empty TLB. \<open>curenv\<close> still points at the freed entry.\<close>

theorem env_free_contract:
  fixes s :: "'z ke"
  assumes inv: "vm_inv s xs pd ext" and pd: "0 < pd"
    and e: "e < length (envs s)" "env_pgdir (envs s ! e) = kva pd"
    and cur: "\<forall>c. curenv s = Some c \<longrightarrow> c < length (envs s)"
    and kern: "curenv s = Some e \<longrightarrow> KERNBASE \<le> kern_pgdir s"
  shows "\<exists>s' xs'. env_free mc e s = Inr s' \<and> free_inv s' xs' \<and> set xs \<subseteq> set xs'
    \<and> (\<forall>d < UTOP_D. \<not> present (entry (mem s') pd d))
    \<and> (\<forall>d < 1024. UTOP_D \<le> d \<longrightarrow> entry (mem s') pd d = entry (mem s) pd d)
    \<and> (\<forall>i < length (pages s). unat (pp_ref (pages s' ! i))
          = pt_refs (mem s') pd i + ext i - (if i = pd then 1 else 0))
    \<and> (\<forall>i < length (pages s). pp_ref (pages s' ! i) = 0 \<longrightarrow> pp_ref (pages s ! i) = 0 \<or> i \<in> set xs')
    \<and> envs s' = (envs s)[e := (envs s ! e)\<lparr>env_pgdir := 0, env_status := ENV_FREE,
                                              env_link := env_free_list s\<rparr>]
    \<and> env_free_list s' = Some e \<and> curenv s' = curenv s
    \<and> (curenv s = Some e \<longrightarrow> cr3 s' = kern_pgdir s - KERNBASE \<and> tlb s' = (\<lambda>_. None))"
  using env_free_effect [OF assms] by blast

text \<open>The five-page machine, with its mapped page in the address space of the running environment.\<close>

definition blank_env :: env where
  "blank_env = \<lparr>env_tf = zero_tf, env_link = None, env_id = 0, env_parent_id = 0, env_type = 0,
     env_status = ENV_FREE, env_runs = 0, env_pgdir = 0\<rparr>"

definition blank_cpu :: cpu where
  "blank_cpu = \<lparr>gdtr = \<lparr>pd_lim = 0, pd_base = 0\<rparr>, idtr = \<lparr>pd_lim = 0, pd_base = 0\<rparr>, ldtr = 0, task_reg = 0,
     seg_gs = 0, seg_fs = 0, seg_es = 0, seg_ds = 0, seg_ss = 0, seg_cs = 0, cpu_regs = tf_regs zero_tf,
     cpu_eip = 0, cpu_esp = 0, cpu_eflags = 0, cpu_cr0 = 0\<rparr>"

definition with_envs :: "kstate \<Rightarrow> env list \<Rightarrow> nat option \<Rightarrow> nat option \<Rightarrow> kenv" where
  "with_envs s es c fl = kstate.extend s (kenv.fields es c fl blank_kio blank_cpu 0)"

lemma with_envs_simps [simp]: "mem (with_envs s es c fl) = mem s" "pages (with_envs s es c fl) = pages s"
  "envs (with_envs s es c fl) = es" "curenv (with_envs s es c fl) = c"
  "env_free_list (with_envs s es c fl) = fl" "kern_pgdir (with_envs s es c fl) = kern_pgdir s"
  "io (with_envs s es c fl) = blank_kio" "page_free_list (with_envs s es c fl) = page_free_list s"
  "npages (with_envs s es c fl) = npages s"
  "vm_inv (with_envs s es c fl) xs pd ext = vm_inv s xs pd ext"
  by (simp_all add: with_envs_def kstate.extend_def kenv.fields_def vm_inv_def wf_pd_def free_inv_def wf_pages_def)

lemma vm_inv_kern_pgdir: "vm_inv (s\<lparr>kern_pgdir := k\<rparr>) xs pd ext = vm_inv s xs pd ext"
  by (simp add: vm_inv_def wf_pd_def free_inv_def wf_pages_def)

definition demo_env :: kenv where
  "demo_env = with_envs (demo_mapped\<lparr>kern_pgdir := 0xF0002000\<rparr>)
     [blank_env\<lparr>env_id := 0x1000, env_status := ENV_RUNNING, env_pgdir := kva 1\<rparr>] (Some 0) None"

lemma env_free_contract_witness:
  "\<exists>s' xs'. env_free blank_machine 0 demo_env = Inr s' \<and> free_inv s' xs'
     \<and> (\<forall>d < UTOP_D. \<not> present (entry (mem s') 1 d)) \<and> env_free_list s' = Some 0
     \<and> cr3 s' = 0x2000 \<and> tlb s' = (\<lambda>_. None)"
proof -
  have inv: "vm_inv demo_env [4] 1 demo_ext"
    using demo_mapped(1) by (simp only: demo_env_def with_envs_simps(10) vm_inv_kern_pgdir)
  have "0 < length (envs demo_env)" "env_pgdir (envs demo_env ! 0) = kva 1"
    "\<forall>c. curenv demo_env = Some c \<longrightarrow> c < length (envs demo_env)"
    "curenv demo_env = Some 0 \<longrightarrow> KERNBASE \<le> kern_pgdir demo_env"
    "curenv demo_env = Some 0" "kern_pgdir demo_env - KERNBASE = 0x2000"
    by (simp_all add: demo_env_def KERNBASE_def)
  note h = this
  from env_free_contract [OF inv _ h(1-4), of blank_machine] h(5,6) show ?thesis by auto
qed

end
