(* ===== verification/EnvTable.thy ===== *)
theory EnvTable
  imports EnvFree
begin

text \<open>
  The table of environments as a finite map from identifiers to slots: \<open>live s\<close> is the
  abstraction, \<open>table_ok\<close> the invariant of the table and its free list, and \<open>envid2env\<close>,
  \<open>env_alloc\<close> and \<open>env_free\<close> are lookup, insertion under a fresh identifier and deletion.
  The locale \<open>handle_table\<close> states that contract and derives what a client relies on.
\<close>

section \<open>Memory management leaves the table alone\<close>

definition same_envs :: "'z ke \<Rightarrow> 'z ke \<Rightarrow> bool" where
  "same_envs s s' \<longleftrightarrow> envs s' = envs s \<and> env_free_list s' = env_free_list s \<and> curenv s' = curenv s"

lemma same_envs_refl [simp]: "same_envs s s" by (simp add: same_envs_def)

lemma same_envs_trans: "same_envs s s1 \<Longrightarrow> same_envs s1 s2 \<Longrightarrow> same_envs s s2"
  by (simp add: same_envs_def)

lemma same_upd_page: "upd_page i f s = Inr s' \<Longrightarrow> same_envs s s'"
  by (auto simp: upd_page_def same_envs_def split: if_splits)

lemma same_kstore: "kstore a v s = Inr s' \<Longrightarrow> same_envs s s'"
  by (auto simp: kstore_def same_envs_def split: if_splits)

lemma same_kmemset: "kmemset a v n s = Inr s' \<Longrightarrow> same_envs s s'"
  by (auto simp: kmemset_def same_envs_def split: if_splits)

lemma same_free_list [simp]: "same_envs s (s\<lparr>page_free_list := q\<rparr>)" "same_envs s (s\<lparr>tlb := t\<rparr>)"
  "same_envs s (s\<lparr>io := i\<rparr>)" "same_envs s (lcr3 v s)"
  by (simp_all add: same_envs_def lcr3_def)

lemma same_page_alloc:
  assumes "page_alloc flags s = Inr (p, s')"
  shows "same_envs s s'"
proof (cases "page_free_list s")
  case None
  then show ?thesis using assms by (simp add: page_alloc_def)
next
  case (Some pp)
  then obtain q s1 where s1: "upd_page pp (\<lambda>p. p\<lparr>pp_link := None\<rparr>) (s\<lparr>page_free_list := q\<rparr>) = Inr s1"
    and s': "s' = s1 \<or> (\<exists>a. kmemset a 0 PGSIZE s1 = Inr s')"
    using assms by (auto simp: page_alloc_def bindE_eq_Inr Let_def split: if_splits)
  have "same_envs s s1" using same_upd_page [OF s1] by (simp add: same_envs_def)
  then show ?thesis using s' same_kmemset same_envs_trans by blast
qed

lemma same_page_decref:
  assumes "page_decref pp s = Inr s'"
  shows "same_envs s s'"
proof -
  obtain s1 where s1: "upd_page pp (\<lambda>p. p\<lparr>pp_ref := pp_ref p - 1\<rparr>) s = Inr s1"
    and s': "s' = s1 \<or> page_free pp s1 = Inr s'"
    using assms by (auto simp: page_decref_def bindE_eq_Inr split: if_splits)
  have "same_envs s1 s'" if free: "page_free pp s1 = Inr s'"
  proof -
    obtain s2 where "upd_page pp (\<lambda>p. p\<lparr>pp_link := page_free_list s1\<rparr>) s1 = Inr s2"
      "s' = s2\<lparr>page_free_list := Some pp\<rparr>"
      using free by (auto simp: page_free_def bindE_eq_Inr split: if_splits)
    then show ?thesis using same_upd_page [of pp _ s1 s2] by (simp add: same_envs_def)
  qed
  then show ?thesis using same_upd_page [OF s1] s' same_envs_trans by blast
qed

lemma same_page_remove:
  assumes "page_remove pgdir va s = Inr s'"
  shows "same_envs s s'"
proof -
  have walk: "s1 = s" if "page_lookup pgdir va s = Inr (r, s1)" for r s1
    using that by (auto simp: page_lookup_def pgdir_walk_def Let_def bindE_eq_Inr split: if_splits)
  obtain r s1 where r: "page_lookup pgdir va s = Inr (r, s1)" using assms by (auto simp: page_remove_def bindE_eq_Inr)
  with walk have s1: "s1 = s" by blast
  show ?thesis
  proof (cases r)
    case None
    then show ?thesis using assms r s1 by (simp add: page_remove_def)
  next
    case (Some q)
    obtain pp pt where q: "q = (pp, pt)" by (cases q)
    then obtain s2 s3 where "page_decref pp s = Inr s2" "kstore pt 0 s2 = Inr s3" "s' = tlb_invalidate pgdir va s3"
      using assms r s1 Some by (auto simp: page_remove_def bindE_eq_Inr)
    then show ?thesis
      using same_page_decref same_kstore same_envs_trans same_free_list(2) unfolding tlb_invalidate_def invlpg_def by metis
  qed
qed

lemma same_free_slot: "free_slot pgdir pt d t s = Inr s' \<Longrightarrow> same_envs s s'"
  by (auto simp: free_slot_def bindE_eq_Inr dest: same_page_remove split: if_splits)

lemma same_fold:
  assumes "foldE f xs s = Inr s'" and "\<And>x s s'. f x s = Inr s' \<Longrightarrow> same_envs s s'"
  shows "same_envs s s'"
  by (rule foldE_invariant [where P = "same_envs s", OF _ _ assms(1)])
    (auto intro: same_envs_trans assms(2))

lemma same_free_table: "free_table pgdir d s = Inr s' \<Longrightarrow> same_envs s s'"
  unfolding free_table_def Let_def
  by (auto simp: bindE_eq_Inr split: if_splits
      dest!: same_fold [OF _ same_free_slot] same_kstore same_page_decref intro: same_envs_trans)

lemma same_free_tables: "foldE (free_table pgdir) ds s = Inr s' \<Longrightarrow> same_envs s s'"
  by (erule same_fold) (erule same_free_table)

lemma same_kprint: "kprint mc fmt as s = Inr s' \<Longrightarrow> same_envs s s'"
  by (auto simp: kprint_def split: option.splits)

lemma same_setup_vm:
  assumes "env_setup_vm e s = Inr (r, s')"
  shows "same_envs s s'"
  using assms unfolding env_setup_vm_def
  by (auto simp: bindE_eq_Inr dest!: same_page_alloc dest: same_kstore intro: same_envs_trans split: option.splits)

section \<open>The table and its free list\<close>

fun env_chain :: "env list \<Rightarrow> nat option \<Rightarrow> nat list \<Rightarrow> bool" where
  "env_chain es p [] \<longleftrightarrow> p = None"
| "env_chain es p (x # xs) \<longleftrightarrow> p = Some x \<and> x < length es \<and> env_chain es (env_link (es ! x)) xs"

lemma env_chain_upd: "i \<notin> set xs \<Longrightarrow> env_chain (es[i := e]) p xs = env_chain es p xs"
  by (induction xs arbitrary: p) auto

abbreviation free_slots_of :: "env list \<Rightarrow> nat set" where
  "free_slots_of es \<equiv> {i. i < length es \<and> env_status (es ! i) = ENV_FREE}"

definition table_ok :: "'z ke \<Rightarrow> bool" where
  "table_ok s \<longleftrightarrow> length (envs s) = 1024
     \<and> (\<exists>fs. env_chain (envs s) (env_free_list s) fs \<and> distinct fs \<and> set fs = free_slots_of (envs s))
     \<and> (\<forall>i < 1024. env_status (envs s ! i) \<noteq> ENV_FREE \<longrightarrow>
           unat (ENVX (env_id (envs s ! i))) = i \<and> env_id (envs s ! i) \<noteq> 0)"

definition live :: "u32 \<Rightarrow> 'z ke \<Rightarrow> (nat \<times> u32) option" where
  "live i s = (let e = unat (ENVX i) in
     if i \<noteq> 0 \<and> e < length (envs s) \<and> env_status (envs s ! e) \<noteq> ENV_FREE \<and> env_id (envs s ! e) = i
     then Some (e, env_parent_id (envs s ! e)) else None)"

lemma ENVX_bound: "unat (ENVX i) < 1024"
proof -
  have "NENV - 1 = mask 10" by (simp add: NENV_def LOG2NENV_def mask_eq_exp_minus_1 push_bit_eq_mult)
  then show ?thesis by (simp add: ENVX_def unat_mask_eq)
qed

lemma live_cong: "same_envs s s' \<Longrightarrow> live i s' = live i s" "same_envs s s' \<Longrightarrow> table_ok s' = table_ok s"
  by (simp_all add: same_envs_def live_def table_ok_def Let_def)

text \<open>One slot changes: every other identifier resolves as before.\<close>

lemma live_upd:
  assumes "envs s' = (envs s)[e := x]" and "unat (ENVX i) \<noteq> e"
  shows "live i s' = live i s"
  using assms by (simp add: live_def Let_def)

lemma lookup_live:
  assumes "table_ok s" and "i \<noteq> 0"
  shows "envid2env i False s = Inr (case live i s of None \<Rightarrow> (- E_BAD_ENV, None) | Some (e, parent) \<Rightarrow> (0, Some e))"
  using assms ENVX_bound [of i]
  by (auto simp: envid2env_def live_def table_ok_def get_env_def Let_def)

definition new_env :: "nat \<Rightarrow> u32 \<Rightarrow> env \<Rightarrow> env" where
  "new_env e parent_id info = info\<lparr>env_id := next_id (env_id info) e, env_parent_id := parent_id,
     env_type := ENV_TYPE_USER, env_status := ENV_RUNNABLE, env_runs := 0,
     env_tf := zero_tf\<lparr>tf_ds := GD_UD OR 3, tf_es := GD_UD OR 3, tf_ss := GD_UD OR 3,
       tf_esp := USTACKTOP, tf_cs := GD_UT OR 3\<rparr>\<rparr>"

lemma env_alloc_table:
  assumes "env_alloc mc parent_id s = Inr (r, p, s')"
  shows "(p = None \<longrightarrow> r < 0 \<and> same_envs s s')
    \<and> (\<forall>e. p = Some e \<longrightarrow> r = 0 \<and> env_free_list s = Some e \<and> e < length (envs s)
         \<and> envs s' = (envs s)[e := new_env e parent_id (envs s ! e)]
         \<and> env_free_list s' = env_link (envs s ! e) \<and> curenv s' = curenv s)"
proof (cases "env_free_list s")
  case None
  then show ?thesis using assms by (simp add: env_alloc_def E_NO_FREE_ENV_def)
next
  case (Some e)
  obtain r1 s1 where vm: "env_setup_vm e s = Inr (r1, s1)"
    using assms Some by (auto simp: env_alloc_def bindE_eq_Inr)
  note same = same_setup_vm [OF vm, unfolded same_envs_def]
  show ?thesis
  proof (cases "r1 < 0")
    case True
    then show ?thesis using assms Some vm same_setup_vm [OF vm] by (simp add: env_alloc_def)
  next
    case False
    then obtain s2 info cur s3 where up: "upd_env e (new_env e parent_id) s1 = Inr s2"
      and info: "get_env 68 e s2 = Inr info"
      and pr: "kprint mc (''[%08x] new env %08x'' @ NL) [cur, env_id info] (s2\<lparr>env_free_list := env_link info\<rparr>) = Inr s3"
      and res: "r = 0" "p = Some e" "s' = s3"
      using assms Some vm by (auto simp: env_alloc_def new_env_def [abs_def] bindE_eq_Inr Let_def)
    have s2: "s2 = s1\<lparr>envs := (envs s1)[e := new_env e parent_id (envs s1 ! e)]\<rparr>" "e < length (envs s1)"
      using up by (auto simp: upd_env_def split: if_splits)
    have "info = new_env e parent_id (envs s1 ! e)" using info s2 by (simp add: get_env_def)
    then have "env_link info = env_link (envs s ! e)" using same by (simp add: new_env_def)
    then show ?thesis using res s2 same same_kprint [OF pr] Some by (simp add: same_envs_def)
  qed
qed

lemma env_free_table:
  assumes "env_free mc e s = Inr s'"
  shows "e < length (envs s) \<and> envs s' = (envs s)[e := (envs s ! e)\<lparr>env_pgdir := 0, env_status := ENV_FREE,
      env_link := env_free_list s\<rparr>] \<and> env_free_list s' = Some e \<and> curenv s' = curenv s"
proof -
  obtain s0 cid info s1 s2 pa s3 pp s4 s5 where
    s0: "(if Some e = curenv s then bindE (PADDR (kern_pgdir s)) (\<lambda>pa. Inr (lcr3 pa s)) else Inr s) = Inr s0"
    and "get_env 72 e s0 = Inr info"
    and s1: "kprint mc (''[%08x] free env %08x'' @ NL) [cid, env_id info] s0 = Inr s1"
    and s2: "foldE (free_table (env_pgdir info)) [0..<unat (PDX UTOP)] s1 = Inr s2"
    and s3: "upd_env e (\<lambda>i. i\<lparr>env_pgdir := 0\<rparr>) s2 = Inr s3"
    and s4: "page_decref pp s3 = Inr s4"
    and s5: "upd_env e (\<lambda>i. i\<lparr>env_status := ENV_FREE, env_link := env_free_list s4\<rparr>) s4 = Inr s5"
    and s': "s' = s5\<lparr>env_free_list := Some e\<rparr>"
    using assms unfolding env_free_def bindE_eq_Inr Let_def by auto
  have "same_envs s s0" using s0 by (auto simp: bindE_eq_Inr split: if_splits)
  moreover have "same_envs s0 s2"
    using same_kprint [OF s1] same_free_tables [OF s2] by (rule same_envs_trans)
  ultimately have "same_envs s s2" by (rule same_envs_trans)
  then show ?thesis
    using s3 same_page_decref [OF s4] s5 s' by (auto simp: upd_env_def same_envs_def split: if_splits)
qed

section \<open>Insertion and deletion\<close>

lemma new_env_fields [simp]: "env_id (new_env e p x) = next_id (env_id x) e" "env_parent_id (new_env e p x) = p"
  "env_status (new_env e p x) = ENV_RUNNABLE" "ENV_RUNNABLE \<noteq> ENV_FREE"
  by (simp_all add: new_env_def ENV_RUNNABLE_def ENV_FREE_def)

lemma table_okD:
  assumes "table_ok s"
  shows "length (envs s) = 1024"
    and "\<And>i. i < 1024 \<Longrightarrow> env_status (envs s ! i) \<noteq> ENV_FREE \<Longrightarrow> unat (ENVX (env_id (envs s ! i))) = i"
    and "\<And>i. i < 1024 \<Longrightarrow> env_status (envs s ! i) \<noteq> ENV_FREE \<Longrightarrow> env_id (envs s ! i) \<noteq> 0"
  using assms by (auto simp: table_ok_def)

lemma alloc_live:
  assumes ok: "table_ok s" and a: "env_alloc mc parent_id s = Inr (r, Some e, s')"
  defines "h \<equiv> next_id (env_id (envs s ! e)) e"
  shows "table_ok s'" and "env_id (envs s' ! e) = h" and "live h s = None"
    and "live i s' = ((\<lambda>i. live i s)(h \<mapsto> (e, parent_id))) i"
proof -
  note T = env_alloc_table [OF a, THEN conjunct2, rule_format, OF refl]
  have len: "length (envs s) = 1024" by (rule table_okD(1) [OF ok])
  obtain fs where fs: "env_chain (envs s) (Some e) fs" "distinct fs" "set fs = free_slots_of (envs s)"
    using ok T by (auto simp: table_ok_def)
  then obtain gs where gs: "fs = e # gs" by (cases fs) auto
  have e: "e < 1024" "env_status (envs s ! e) = ENV_FREE" using fs gs len by auto
  have h: "unat (ENVX h) = e" "h \<noteq> 0"
    using next_id_index [OF e(1)] next_id_pos [OF e(1), of "env_id (envs s ! e)"] by (auto simp: h_def)
  have es: "envs s' = (envs s)[e := new_env e parent_id (envs s ! e)]" "env_free_list s' = env_link (envs s ! e)"
    using T by auto
  have at: "length (envs s') = 1024" "envs s' ! e = new_env e parent_id (envs s ! e)" using es(1) len e by simp_all
  have "env_chain (envs s') (env_free_list s') gs"
    using fs(1,2) gs by (simp add: es env_chain_upd)
  moreover have "set gs = free_slots_of (envs s')"
  proof -
    have other: "envs s' ! i = envs s ! i" if "i \<noteq> e" for i using that by (simp add: es)
    have "set gs = set fs - {e}" using fs(2) gs by auto
    also have "\<dots> = free_slots_of (envs s')"
      unfolding fs(3) at(1) len using at(2) other by (intro set_eqI, case_tac "x = e") auto
    finally show ?thesis .
  qed
  moreover have "unat (ENVX (env_id (envs s' ! i))) = i \<and> env_id (envs s' ! i) \<noteq> 0"
    if "i < 1024" "env_status (envs s' ! i) \<noteq> ENV_FREE" for i
    using that table_okD(2,3) [OF ok] h len by (cases "i = e") (auto simp: es h_def)
  ultimately show "table_ok s'" using fs(2) gs len by (auto simp: table_ok_def es)
  show "env_id (envs s' ! e) = h" using at by (simp add: h_def)
  show "live h s = None" using e(2) h by (simp add: live_def)
  show "live i s' = ((\<lambda>i. live i s)(h \<mapsto> (e, parent_id))) i"
  proof (cases "i = h")
    case True
    then show ?thesis using h e at by (simp add: live_def h_def [symmetric])
  next
    case False
    show ?thesis
    proof (cases "unat (ENVX i) = e")
      case True
      then show ?thesis using False e at by (simp add: live_def h_def [symmetric])
    next
      case other: False
      then show ?thesis using False live_upd [OF es(1) other] by simp
    qed
  qed
qed

lemma free_live:
  assumes ok: "table_ok s" and f: "env_free mc e s = Inr s'" and used: "env_status (envs s ! e) \<noteq> ENV_FREE"
  shows "table_ok s'" and "live (env_id (envs s ! e)) s = Some (e, env_parent_id (envs s ! e))"
    and "live i s' = ((\<lambda>i. live i s)(env_id (envs s ! e) := None)) i"
proof -
  note T = env_free_table [OF f]
  have len: "length (envs s) = 1024" by (rule table_okD(1) [OF ok])
  have e: "e < 1024" using T len by simp
  note E = table_okD(2,3) [OF ok e used]
  let ?x = "(envs s ! e)\<lparr>env_pgdir := 0, env_status := ENV_FREE, env_link := env_free_list s\<rparr>"
  have es: "envs s' = (envs s)[e := ?x]" "env_free_list s' = Some e" using T by auto
  obtain fs where fs: "env_chain (envs s) (env_free_list s) fs" "distinct fs" "set fs = free_slots_of (envs s)"
    using ok by (auto simp: table_ok_def)
  have ne: "e \<notin> set fs" using fs(3) used by simp
  have "env_chain (envs s') (env_free_list s') (e # fs)"
    using fs(1) ne e len by (simp add: es env_chain_upd)
  moreover have "distinct (e # fs)" using fs(2) ne by simp
  moreover have "set (e # fs) = free_slots_of (envs s')"
  proof -
    have other: "envs s' ! i = envs s ! i" if "i \<noteq> e" for i using that by (simp add: es)
    have at: "length (envs s') = 1024" "envs s' ! e = ?x" using es(1) e len by simp_all
    have "insert e (set fs) = free_slots_of (envs s')"
      unfolding fs(3) at(1) len using at(2) other e by (intro set_eqI, case_tac "x = e") auto
    then show ?thesis by simp
  qed
  moreover have "unat (ENVX (env_id (envs s' ! i))) = i \<and> env_id (envs s' ! i) \<noteq> 0"
    if "i < 1024" "env_status (envs s' ! i) \<noteq> ENV_FREE" for i
    using that table_okD(2,3) [OF ok] len by (cases "i = e") (auto simp: es)
  ultimately show "table_ok s'" unfolding table_ok_def using len by (auto simp: es simp del: env_chain.simps)
  show "live (env_id (envs s ! e)) s = Some (e, env_parent_id (envs s ! e))"
    using E e len used by (simp add: live_def)
  show "live i s' = ((\<lambda>i. live i s)(env_id (envs s ! e) := None)) i"
  proof (cases "unat (ENVX i) = e")
    case True
    then show ?thesis using e len by (auto simp: live_def es Let_def)
  next
    case False
    then have "i \<noteq> env_id (envs s ! e)" using E by auto
    then show ?thesis using live_upd [OF es(1) False] by simp
  qed
qed

section \<open>The contract as an interface\<close>

text \<open>Steps that do not concern the handle \<open>h\<close>.\<close>

inductive steps_apart :: "('h \<Rightarrow> 's \<Rightarrow> 's \<Rightarrow> bool) \<Rightarrow> 'h \<Rightarrow> 's \<Rightarrow> 's \<Rightarrow> bool" for step h where
  none: "steps_apart step h s s"
| more: "k \<noteq> h \<Longrightarrow> step k s s1 \<Longrightarrow> steps_apart step h s1 s2 \<Longrightarrow> steps_apart step h s s2"

inductive_simps steps_apart_simp: "steps_apart step h s s'"

locale handle_table =
  fixes ok :: "'s \<Rightarrow> bool" and look :: "'h \<Rightarrow> 's \<Rightarrow> 'v option"
    and take :: "'h \<Rightarrow> 'v \<Rightarrow> 's \<Rightarrow> 's \<Rightarrow> bool" and drop :: "'h \<Rightarrow> 's \<Rightarrow> 's \<Rightarrow> bool"
  assumes take: "\<lbrakk>ok s; take h v s s'\<rbrakk> \<Longrightarrow> ok s' \<and> look h s = None \<and> look h s' = Some v \<and> (\<forall>k. k \<noteq> h \<longrightarrow> look k s' = look k s)"
    and drop: "\<lbrakk>ok s; drop h s s'\<rbrakk> \<Longrightarrow> ok s' \<and> look h s' = None \<and> (\<forall>k. k \<noteq> h \<longrightarrow> look k s' = look k s)"
begin

abbreviation step :: "'h \<Rightarrow> 's \<Rightarrow> 's \<Rightarrow> bool" where
  "step h s s' \<equiv> (\<exists>v. take h v s s') \<or> drop h s s'"

lemma stable: "steps_apart step h s s' \<Longrightarrow> ok s \<Longrightarrow> ok s' \<and> look h s' = look h s"
proof (induction rule: steps_apart.induct)
  case (more k s s1 s2)
  have "ok s1 \<and> look h s1 = look h s"
    using more.hyps(1,2) take [OF more.prems] drop [OF more.prems] by metis
  then show ?case using more.IH by simp
qed simp

text \<open>A handle resolves from the moment it is taken, and no more once it was dropped.\<close>

lemma taken_resolves:
  assumes "ok s" and "take h v s s1" and "steps_apart step h s1 s2"
  shows "ok s2 \<and> look h s2 = Some v"
  using take [OF assms(1,2)] stable [OF assms(3)] by simp

lemma dropped_is_stale:
  assumes "ok s" and "drop h s s1" and "steps_apart step h s1 s2"
  shows "ok s2 \<and> look h s2 = None"
  using drop [OF assms(1,2)] stable [OF assms(3)] by simp

end

text \<open>The environment table: \<open>env_alloc\<close> takes an identifier, \<open>env_free\<close> drops one.\<close>

definition env_take :: "u32 \<Rightarrow> nat \<times> u32 \<Rightarrow> 'z ke \<Rightarrow> 'z ke \<Rightarrow> bool" where
  "env_take h v s s' \<longleftrightarrow> (\<exists>mc r. env_alloc mc (snd v) s = Inr (r, Some (fst v), s') \<and> h = env_id (envs s' ! fst v))"

definition env_drop :: "u32 \<Rightarrow> 'z ke \<Rightarrow> 'z ke \<Rightarrow> bool" where
  "env_drop h s s' \<longleftrightarrow> (\<exists>mc e. env_free mc e s = Inr s' \<and> env_status (envs s ! e) \<noteq> ENV_FREE \<and> h = env_id (envs s ! e))"

interpretation env_handles: handle_table table_ok live env_take env_drop
proof
  show "table_ok s' \<and> live h s = None \<and> live h s' = Some v \<and> (\<forall>k. k \<noteq> h \<longrightarrow> live k s' = live k s)"
    if ok: "table_ok s" and t: "env_take h v s s'" for s s' :: "'z ke" and h v
  proof -
    obtain mc r e p where v: "v = (e, p)" and a: "env_alloc mc p s = Inr (r, Some e, s')"
      and h: "h = env_id (envs s' ! e)" using t by (cases v) (auto simp: env_take_def)
    note A = alloc_live [OF ok a]
    show ?thesis using A(1,3) by (simp add: h v A(2) A(4))
  qed
  show "table_ok s' \<and> live h s' = None \<and> (\<forall>k. k \<noteq> h \<longrightarrow> live k s' = live k s)"
    if ok: "table_ok s" and t: "env_drop h s s'" for s s' :: "'z ke" and h
  proof -
    obtain mc e where f: "env_free mc e s = Inr s'" "env_status (envs s ! e) \<noteq> ENV_FREE"
      and h: "h = env_id (envs s ! e)" using t by (auto simp: env_drop_def)
    note A = free_live [OF ok f]
    show ?thesis using A(1) by (simp add: h A(3))
  qed
qed

section \<open>Contracts\<close>

text \<open>C4: The environment table implements a finite map from identifiers to slots and parents:
  \<open>envid2env\<close> is its lookup, a successful \<open>env_alloc\<close> inserts under a positive identifier that
  nothing had and that differs from the slot's previous one, an unsuccessful one changes
  nothing, and \<open>env_free\<close> of a used slot deletes exactly its identifier; the table and its free
  list stay well formed.\<close>

theorem env_table_refines_map:
  assumes "table_ok s"
  shows "(\<forall>i. i \<noteq> 0 \<longrightarrow> envid2env i False s
        = Inr (case live i s of None \<Rightarrow> (- E_BAD_ENV, None) | Some (e, parent) \<Rightarrow> (0, Some e)))
    \<and> (\<forall>mc parent r p s'. env_alloc mc parent s = Inr (r, p, s') \<longrightarrow> table_ok s'
        \<and> (case p of None \<Rightarrow> r < 0 \<and> (\<forall>i. live i s' = live i s)
           | Some e \<Rightarrow> r = 0 \<and> (\<exists>h. 0 < sint h \<and> h \<noteq> env_id (envs s ! e) \<and> live h s = None
               \<and> (\<forall>i. live i s' = ((\<lambda>i. live i s)(h \<mapsto> (e, parent))) i))))
    \<and> (\<forall>mc e s'. env_free mc e s = Inr s' \<longrightarrow> env_status (envs s ! e) \<noteq> ENV_FREE \<longrightarrow> table_ok s'
        \<and> (\<forall>i. live i s' = ((\<lambda>i. live i s)(env_id (envs s ! e) := None)) i))"
proof (intro conjI allI impI)
  show "envid2env i False s = Inr (case live i s of None \<Rightarrow> (- E_BAD_ENV, None) | Some (e, parent) \<Rightarrow> (0, Some e))"
    if "i \<noteq> 0" for i by (rule lookup_live [OF assms that])
next
  fix mc parent r p s' assume a: "env_alloc mc parent s = Inr (r, p, s')"
  show "table_ok s'"
    using env_alloc_table [OF a] live_cong(2) alloc_live(1) [OF assms] a assms by (cases p) auto
  show "case p of None \<Rightarrow> r < 0 \<and> (\<forall>i. live i s' = live i s)
           | Some e \<Rightarrow> r = 0 \<and> (\<exists>h. 0 < sint h \<and> h \<noteq> env_id (envs s ! e) \<and> live h s = None
               \<and> (\<forall>i. live i s' = ((\<lambda>i. live i s)(h \<mapsto> (e, parent))) i))"
  proof (cases p)
    case None
    then show ?thesis using env_alloc_table [OF a] live_cong(1) [of s s'] by simp
  next
    case (Some e)
    note A = alloc_live [OF assms a [unfolded Some]]
    have "e < 1024" using env_alloc_table [OF a] Some table_okD(1) [OF assms] by simp
    then have "0 < sint (next_id (env_id (envs s ! e)) e)" "next_id (env_id (envs s ! e)) e \<noteq> env_id (envs s ! e)"
      by (rule next_id_pos, rule next_id_new)
    then show ?thesis using A(3,4) env_alloc_table [OF a] Some by (simp only: option.case) blast
  qed
next
  fix mc e s' assume f: "env_free mc e s = Inr s'" "env_status (envs s ! e) \<noteq> ENV_FREE"
  show "table_ok s'" by (rule free_live(1) [OF assms f])
  show "live i s' = ((\<lambda>i. live i s)(env_id (envs s ! e) := None)) i" for i by (rule free_live(3) [OF assms f])
qed

text \<open>A full table but for slot 0, over the five-page machine.\<close>

definition demo_envs :: "env list" where
  "demo_envs = blank_env\<lparr>env_id := 0x3000, env_pgdir := kva 1\<rparr>
     # map (\<lambda>i. blank_env\<lparr>env_id := of_nat (4096 + i), env_status := ENV_RUNNABLE\<rparr>) [1..<1024]"

definition demo_table_state :: kenv where
  "demo_table_state = with_envs demo demo_envs (Some 1) (Some 0)"

lemma demo_envs_nth: "length demo_envs = 1024" "demo_envs ! 0 = blank_env\<lparr>env_id := 0x3000, env_pgdir := kva 1\<rparr>"
  "0 < i \<Longrightarrow> i < 1024 \<Longrightarrow> demo_envs ! i = blank_env\<lparr>env_id := of_nat (4096 + i), env_status := ENV_RUNNABLE\<rparr>"
proof -
  show "length demo_envs = 1024" by (simp add: demo_envs_def del: upt_rec_numeral upt_conv_Cons)
  show "demo_envs ! 0 = blank_env\<lparr>env_id := 0x3000, env_pgdir := kva 1\<rparr>" by (simp add: demo_envs_def)
  show "demo_envs ! i = blank_env\<lparr>env_id := of_nat (4096 + i), env_status := ENV_RUNNABLE\<rparr>" if "0 < i" "i < 1024"
    using that by (cases i) (simp_all add: demo_envs_def del: upt_rec_numeral upt_conv_Cons)
qed

lemma demo_table_ok: "table_ok demo_table_state"
proof -
  have st: "env_status (demo_envs ! i) = ENV_FREE \<longleftrightarrow> i = 0" if "i < 1024" for i
    using that demo_envs_nth(2) demo_envs_nth(3) [of i]
    by (cases "i = 0") (simp_all add: blank_env_def ENV_FREE_def ENV_RUNNABLE_def)
  have "unat (ENVX (env_id (demo_envs ! i))) = i \<and> env_id (demo_envs ! i) \<noteq> 0" if "i < 1024" "i \<noteq> 0" for i
  proof -
    have "unat (of_nat (4096 + i) :: u32) = 4096 + i" using that by (intro unat_of_nat_small) simp
    moreover have "NENV - 1 = mask 10" by (simp add: NENV_def LOG2NENV_def mask_eq_exp_minus_1 push_bit_eq_mult)
    moreover have "(4096 + i) mod 1024 = i" using that mod_mult_self1 [of i 4 1024] by (simp add: add.commute)
    ultimately show ?thesis using that demo_envs_nth(3) [of i]
      by (auto simp: ENVX_def unat_mask_eq simp flip: unat_eq_0 simp del: of_nat_add)
  qed
  moreover have "env_chain demo_envs (Some 0) [0]" using demo_envs_nth(1,2) by (simp add: blank_env_def)
  moreover have "set [0] = free_slots_of demo_envs" using st demo_envs_nth(1) by auto
  ultimately show ?thesis
    unfolding table_ok_def demo_table_state_def with_envs_simps
    using demo_envs_nth(1) st by (intro conjI exI [of _ "[0]"]) auto
qed

lemma env_table_refines_map_witness:
  "envid2env 4097 False demo_table_state = Inr (0, Some 1)"
proof -
  have "live 4097 demo_table_state = Some (1, 0)"
  proof -
    have "unat (ENVX 4097) = 1" by code_simp
    then show ?thesis
      using demo_envs_nth(1) demo_envs_nth(3) [of 1]
      by (simp add: live_def demo_table_state_def blank_env_def ENV_FREE_def ENV_RUNNABLE_def)
  qed
  then show ?thesis using env_table_refines_map [OF demo_table_ok] by auto
qed

text \<open>An identifier \<open>env_alloc\<close> returned resolves to its slot through any sequence of
  allocations and frees of other environments, and from the moment the environment is freed
  it is refused with \<open>-E_BAD_ENV\<close> through any such sequence.\<close>

lemma env_identifier_until_freed:
  assumes "table_ok s" and "env_alloc mc parent s = Inr (r, Some e, s1)"
    and "steps_apart (\<lambda>h s s'. (\<exists>v. env_take h v s s') \<or> env_drop h s s') (env_id (envs s1 ! e)) s1 s2"
  shows "envid2env (env_id (envs s1 ! e)) False s2 = Inr (0, Some e)
    \<and> (\<forall>mc s3 s4. env_free mc e s2 = Inr s3
        \<longrightarrow> steps_apart (\<lambda>h s s'. (\<exists>v. env_take h v s s') \<or> env_drop h s s') (env_id (envs s1 ! e)) s3 s4
        \<longrightarrow> envid2env (env_id (envs s1 ! e)) False s4 = Inr (- E_BAD_ENV, None))"
proof -
  let ?h = "env_id (envs s1 ! e)"
  have t: "env_take ?h (e, parent) s s1" using assms(2) by (auto simp: env_take_def)
  have nz: "?h \<noteq> 0" using env_handles.take [OF assms(1) t] by (auto simp: live_def)
  have ok2: "table_ok s2" and l2: "live ?h s2 = Some (e, parent)"
    using env_handles.taken_resolves [OF assms(1) t assms(3)] by simp_all
  have at: "env_status (envs s2 ! e) \<noteq> ENV_FREE" "env_id (envs s2 ! e) = ?h"
    using l2 by (auto simp: live_def Let_def split: if_splits)
  have "envid2env ?h False s4 = Inr (- E_BAD_ENV, None)"
    if f: "env_free mc e s2 = Inr s3"
      and p: "steps_apart (\<lambda>h s s'. (\<exists>v. env_take h v s s') \<or> env_drop h s s') ?h s3 s4" for mc s3 s4
  proof -
    have "env_drop ?h s2 s3" using f at unfolding env_drop_def by metis
    from env_handles.dropped_is_stale [OF ok2 this p] lookup_live [OF _ nz, of s4] show ?thesis by simp
  qed
  then show ?thesis using lookup_live [OF ok2 nz] l2 by auto
qed

text \<open>
  The identifiers of one slot: bits 10 and 11 are 0 from the first one on, and the 19 bits above
  them count from 1 to \<open>2 ^ 19 - 1\<close> and start again.
\<close>

definition generations :: nat where "generations = 2 ^ 19 - 1"

lemma high_part: "unat (y AND NOT 1023 :: u32) = unat y - unat y mod 1024"
proof -
  have m: "(1023 :: u32) = mask 10" by (simp add: mask_eq_exp_minus_1)
  have low: "unat (y AND 1023) = unat y mod 1024" unfolding m by (simp add: unat_mask_eq)
  have "(y AND NOT 1023) = y - (y AND 1023)" using and_not_split [of y 1023] by (simp add: algebra_simps)
  moreover have "y AND 1023 \<le> y" by (simp add: word_le_nat_alt low)
  ultimately show ?thesis using low by (simp add: unat_sub)
qed

lemma next_id_value:
  assumes "e < 1024" and "unat x mod 4096 < 1024"
  shows "unat (next_id x e) = 4096 * (if unat x div 4096 < generations then Suc (unat x div 4096) else 1) + e"
proof -
  define g r where "g = unat x div 4096" and "r = unat x mod 4096"
  have g: "g < 1048576" using u32_bound [of x] by (simp add: g_def)
  have r: "r < 1024" using assms(2) by (simp add: r_def)
  have x: "unat x = 4096 * g + r" by (simp add: g_def r_def)
  have sum: "unat (x + 4096) = (if g = 1048575 then r else 4096 * Suc g + r)"
  proof (cases "g = 1048575")
    case True
    have "unat (x + 4096) = (unat x + 4096) mod 4294967296" by (simp add: unat_word_ariths)
    also have "unat x + 4096 = 4294967296 + r" using x True by simp
    finally show ?thesis using True r by simp
  next
    case False
    then have "g < 1048575" using g by simp
    then show ?thesis using r False by (simp add: unat_word_ariths x)
  qed
  have mods: "(4096 * k + r) mod 1024 = r" for k
    using mod_mult_self2 [of r 1024 "4 * k"] r by (simp add: add.commute)
  have step: "unat ((x + 4096) AND NOT 1023) = (if g = 1048575 then 0 else 4096 * Suc g)"
    using r mods [of "Suc g"] unfolding high_part sum by simp
  have neg: "sint (y :: u32) \<le> 0 \<longleftrightarrow> unat y = 0 \<or> 2147483648 \<le> unat y" for y
    using u32_bound [of y] unfolding sint_u32 by (auto split: if_splits simp del: of_nat_unat)
  let ?g = "if g < generations then Suc g else 1"
  have gen: "unat (generation x) = 4096 * ?g"
    using g step unfolding generation_def Let_def neg by (auto simp: generations_def)
  have e: "unat (of_nat e :: u32) = e" using assms(1) by (simp add: unat_of_nat_small)
  have "bit (of_nat e :: u32) n \<Longrightarrow> n < 10" for n using bit_less_exp [of "of_nat e :: u32" 10 n] e assms(1) by simp
  then have "generation x AND of_nat e = 0" using generation_low [of _ x] by (auto simp: bit_eq_iff bit_and_iff)
  then have "next_id x e = generation x + of_nat e"
    using word_plus_and_or [of "generation x" "of_nat e"] by (simp add: next_id_generation)
  moreover have "4096 * ?g + e < 2 ^ LENGTH(32)" using assms(1) by (simp add: generations_def)
  ultimately show ?thesis using gen e unat_less_add [of "generation x" "of_nat e"] by (simp only: g_def)
qed

text \<open>Allocations and frees of a table; \<open>k\<close> counts the allocations of slot \<open>e\<close> among them.\<close>

inductive table_steps :: "nat \<Rightarrow> 'z ke \<Rightarrow> nat \<Rightarrow> 'z ke \<Rightarrow> bool" for e s where
  start: "table_steps e s 0 s"
| alloc: "table_steps e s k s1 \<Longrightarrow> env_alloc mc parent s1 = Inr (r, p, s2)
    \<Longrightarrow> table_steps e s (if p = Some e then Suc k else k) s2"
| free: "table_steps e s k s1 \<Longrightarrow> env_free mc d s1 = Inr s2 \<Longrightarrow> env_status (envs s1 ! d) \<noteq> ENV_FREE
    \<Longrightarrow> table_steps e s k s2"

lemma next_turn: "n = Suc (m mod generations) \<Longrightarrow>
   (if n < generations then Suc n else 1) = Suc (Suc m mod generations)"
proof -
  assume n: "n = Suc (m mod generations)"
  have "m mod generations < generations" by (simp add: generations_def)
  then show ?thesis using n by (simp add: mod_Suc)
qed

lemma steps_identifier:
  assumes "table_steps e s k s'" and "table_ok s" and "e < 1024" and "unat (env_id (envs s ! e)) = 4096 * Suc g + e" and "g < generations"
  shows "table_ok s' \<and> unat (env_id (envs s' ! e)) = 4096 * Suc ((g + k) mod generations) + e"
  using assms(1)
proof (induction rule: table_steps.induct)
  case start
  then show ?case using assms(2,4,5) by simp
next
  case (alloc k s1 mc parent r p s2)
  note T = env_alloc_table [OF alloc.hyps(2)]
  show ?case
  proof (cases "p = Some e")
    case True
    let ?x = "env_id (envs s1 ! e)"
    have a: "env_alloc mc parent s1 = Inr (r, Some e, s2)" using alloc.hyps(2) True by simp
    note A = alloc_live(1,2) [OF alloc.IH [THEN conjunct1] a]
    obtain n where n: "n = Suc ((g + k) mod generations)" "unat ?x = 4096 * n + e" using alloc.IH by blast
    have x: "unat ?x div 4096 = Suc ((g + k) mod generations)" "unat ?x mod 4096 < 1024"
      unfolding n(2) n(1) [symmetric] using assms(3) by simp_all
    show ?thesis using A True next_id_value [OF assms(3) x(2)] next_turn [OF x(1)] by simp
  next
    case False
    then have "env_id (envs s2 ! e) = env_id (envs s1 ! e)" using T by (cases p) (auto simp: same_envs_def)
    moreover have "table_ok s2"
      using T live_cong(2) alloc_live(1) alloc.hyps(2) alloc.IH by (cases p) auto
    ultimately show ?thesis using alloc.IH False by simp
  qed
next
  case (free k s1 mc d s2)
  have "env_id (envs s2 ! e) = env_id (envs s1 ! e)"
    using env_free_table [OF free.hyps(2)] by (cases "d = e") auto
  then show ?case using free_live(1) [OF _ free.hyps(2,3)] free.IH by simp
qed

lemma same_turn: "g < generations \<Longrightarrow> (g + k) mod generations = g \<longleftrightarrow> generations dvd k"
proof -
  assume g: "g < generations"
  have "(g + k) mod generations = g mod generations \<longleftrightarrow> generations dvd k"
    using mod_eq_dvd_iff_nat [of g "g + k" generations] by auto
  then show ?thesis using g by simp
qed


lemma env_alloc_succeeds:
  assumes inv: "free_inv s (x # ys)" and Some: "env_free_list s = Some e" and e: "e < length (envs s)" "e < 1024"
    and f: "env_pgdir (envs s ! e) = kva f" "f < 65536" and cur: "\<forall>c. curenv s = Some c \<longrightarrow> c < length (envs s)"
  shows "\<exists>s'. env_alloc mc parent s = Inr (0, Some e, s') \<and> env_free_list s' = env_link (envs s ! e)
    \<and> envs s' = (envs s)[e := new_env e parent (envs s ! e)]"
proof -
  let ?a = "alloc_state ALLOC_ZERO x s"
  have pg: "page_alloc ALLOC_ZERO s = Inr (Some x, ?a)" by (rule page_alloc_Cons [OF inv])
  have a: "envs ?a = envs s" "env_free_list ?a = env_free_list s" "curenv ?a = curenv s"
    using same_page_alloc [OF pg] by (simp_all add: same_envs_def)
  have pad: "PADDR (kva f) = Inr (page2pa f)"
    using unat_page2pa [of f] f(2) by (intro PADDR_kva) simp
  have "PDX UVPT = of_nat UVPT_D" by code_simp
  then obtain m where "kstore (kva f + 4 * PDX UVPT) (page2pa f OR PTE_P OR PTE_U) ?a = Inr (?a\<lparr>mem := m\<rparr>)"
    using kstore_entry [OF f(2), of UVPT_D "page2pa f OR PTE_P OR PTE_U" ?a] by (auto simp: UVPT_D_def)
  then have vm: "env_setup_vm e s = Inr (0, ?a\<lparr>mem := m\<rparr>)"
    using pg e a f pad by (simp add: env_setup_vm_def get_env_def)
  let ?E = "(envs s)[e := new_env e parent (envs s ! e)]"
  let ?s2 = "?a\<lparr>mem := m, envs := ?E, env_free_list := env_link (envs s ! e)\<rparr>"
  have up: "upd_env e (new_env e parent) (?a\<lparr>mem := m\<rparr>) = Inr (?a\<lparr>mem := m, envs := ?E\<rparr>)"
    using e a by (simp add: upd_env_def)
  have ln: "env_link (new_env e parent (envs s ! e)) = env_link (envs s ! e)" by (simp add: new_env_def)
  obtain cid where cid: "cur_id ?s2 = Inr cid" using cur_id_Inr [of ?s2] cur a by auto
  obtain i where pr: "kprint mc (''[%08x] new env %08x'' @ NL) [cid, next_id (env_id (envs s ! e)) e] ?s2 = Inr (?s2\<lparr>io := i\<rparr>)"
    using kprint_new [of mc _ ?s2] by blast
  have "env_alloc mc parent s = Inr (0, Some e, ?s2\<lparr>io := i\<rparr>)"
    using vm up e cid pr ln Some unfolding env_alloc_def new_env_def [symmetric, abs_def]
    by (simp add: get_env_def)
  then show ?thesis by auto
qed

text \<open>C29: \<open>env_alloc\<close> reports \<open>-E_NO_FREE_ENV\<close> when no slot is free and \<open>-E_NO_MEM\<close> when no
  page is, and otherwise depends on what the slot's \<open>env_pgdir\<close> held before: \<open>env_setup_vm\<close>
  takes a page but never stores it there, so the kernel panics on a cleared slot, and on one
  with an old value the environment gets that old directory. When it succeeds the identifier
  is positive, names the slot and is new to it, the registers are those of a user program
  that has not started, and the slot has left the free list.\<close>

theorem env_alloc_outcomes:
  assumes inv: "free_inv s xs"
    and slot: "\<forall>e. env_free_list s = Some e \<longrightarrow> e < length (envs s) \<and> e < 1024
      \<and> (env_pgdir (envs s ! e) < KERNBASE \<or> (\<exists>f < 65536. env_pgdir (envs s ! e) = kva f))"
    and cur: "\<forall>c. curenv s = Some c \<longrightarrow> c < length (envs s)"
  shows "case env_free_list s of
      None \<Rightarrow> env_alloc mc parent s = Inr (- E_NO_FREE_ENV, None, s)
    | Some e \<Rightarrow>
        if xs = [] then env_alloc mc parent s = Inr (- E_NO_MEM, None, s)
        else if env_pgdir (envs s ! e) < KERNBASE
        then env_alloc mc parent s = Inl (Panic ''PADDR called with invalid kva'')
        else \<exists>s'. env_alloc mc parent s = Inr (0, Some e, s')
          \<and> env_free_list s' = env_link (envs s ! e)
          \<and> envs s' = (envs s)[e := new_env e parent (envs s ! e)]
          \<and> env_pgdir (envs s' ! e) = env_pgdir (envs s ! e)
          \<and> 0 < sint (env_id (envs s' ! e)) \<and> unat (ENVX (env_id (envs s' ! e))) = e
          \<and> env_id (envs s' ! e) \<noteq> env_id (envs s ! e)"
proof (cases "env_free_list s")
  case None
  then show ?thesis by (simp add: env_alloc_def)
next
  case (Some e)
  then have e: "e < length (envs s)" "e < 1024" using slot by auto
  show ?thesis
  proof (cases xs)
    case Nil
    then have "env_setup_vm e s = Inr (- E_NO_MEM, s)"
      using page_alloc_Nil [of s ALLOC_ZERO] inv by (simp add: env_setup_vm_def)
    then show ?thesis using Some Nil by (simp add: env_alloc_def E_NO_MEM_def)
  next
    case (Cons x ys)
    let ?a = "alloc_state ALLOC_ZERO x s"
    have pg: "page_alloc ALLOC_ZERO s = Inr (Some x, ?a)" using page_alloc_Cons inv Cons by blast
    have a: "envs ?a = envs s" "env_free_list ?a = env_free_list s" "curenv ?a = curenv s"
      using same_page_alloc [OF pg] by (simp_all add: same_envs_def)
    show ?thesis
    proof (cases "env_pgdir (envs s ! e) < KERNBASE")
      case True
      then have "env_setup_vm e s = Inl (Panic ''PADDR called with invalid kva'')"
        using pg e a by (simp add: env_setup_vm_def get_env_def PADDR_def)
      then show ?thesis using Some Cons True by (simp add: env_alloc_def)
    next
      case False
      then obtain f where f: "f < 65536" "env_pgdir (envs s ! e) = kva f" using slot Some by auto
      from env_alloc_succeeds [OF inv [unfolded Cons] Some e f(2,1) cur, of mc parent] obtain s' where
        "env_alloc mc parent s = Inr (0, Some e, s')" "env_free_list s' = env_link (envs s ! e)"
        "envs s' = (envs s)[e := new_env e parent (envs s ! e)]" by blast
      then show ?thesis
        using Some Cons False e next_id_pos [OF e(2)] next_id_index [OF e(2)] next_id_new [OF e(2)]
        by (simp add: new_env_def)
    qed
  qed
qed

lemma env_alloc_outcomes_witness:
  "\<exists>s'. env_alloc blank_machine 7 demo_table_state = Inr (0, Some 0, s') \<and> env_id (envs s' ! 0) \<noteq> 0x3000
     \<and> unat (ENVX (env_id (envs s' ! 0))) = 0 \<and> envs s' ! 0 = new_env 0 7 (demo_envs ! 0)"
proof -
  have inv: "free_inv demo_table_state [3, 4]"
    using demo_free by (simp add: demo_table_state_def free_inv_def wf_pages_def)
  have "\<forall>e. env_free_list demo_table_state = Some e \<longrightarrow> e < length (envs demo_table_state) \<and> e < 1024
      \<and> (env_pgdir (envs demo_table_state ! e) < KERNBASE \<or> (\<exists>f < 65536. env_pgdir (envs demo_table_state ! e) = kva f))"
    "\<forall>c. curenv demo_table_state = Some c \<longrightarrow> c < length (envs demo_table_state)"
    "env_free_list demo_table_state = Some 0" "envs demo_table_state = demo_envs"
    using demo_envs_nth(1,2) by (auto simp: demo_table_state_def intro!: exI [of _ 1])
  note h = this
  have "\<not> env_pgdir (demo_envs ! 0) < KERNBASE" by (simp add: demo_envs_nth(2) page2pa_def KERNBASE_def)
  with env_alloc_outcomes [OF inv h(1,2), of blank_machine 7] show ?thesis
    using demo_envs_nth(1,2) by (auto simp: h(3,4))
qed

lemma demo_alloc: "\<exists>s1. env_alloc blank_machine 7 demo_table_state = Inr (0, Some 0, s1)"
proof -
  have inv: "free_inv demo_table_state [3, 4]"
    using demo_free by (simp add: demo_table_state_def free_inv_def wf_pages_def)
  have "env_free_list demo_table_state = Some 0" "0 < length (envs demo_table_state)"
    "env_pgdir (envs demo_table_state ! 0) = kva 1" "\<forall>c. curenv demo_table_state = Some c \<longrightarrow> c < length (envs demo_table_state)"
    using demo_envs_nth(1,2) by (simp_all add: demo_table_state_def)
  from env_alloc_succeeds [OF inv this(1,2) _ this(3) _ this(4)] show ?thesis by auto
qed


text \<open>C30: With \<open>checkperm\<close>, \<open>envid2env\<close> resolves exactly the live identifiers of the current
  environment and of its immediate children and refuses all others; identifier 0 is the
  current environment without any check. With no current environment the check itself
  dereferences the null pointer, at the offset of \<^verbatim>\<open>env_id\<close>.\<close>

theorem envid2env_permission:
  assumes "table_ok s" and "i \<noteq> 0" and "\<forall>c. curenv s = Some c \<longrightarrow> c < 1024"
  shows "envid2env 0 checkperm s = Inr (0, curenv s)
    \<and> envid2env i True s = (case live i s of
        None \<Rightarrow> Inr (- E_BAD_ENV, None)
      | Some (e, parent) \<Rightarrow> (case curenv s of
            None \<Rightarrow> Inl (Fault 72)
          | Some c \<Rightarrow> if e = c \<or> parent = env_id (envs s ! c) then Inr (0, Some e)
                      else Inr (- E_BAD_ENV, None)))"
  using assms ENVX_bound [of i] table_okD(1) [OF assms(1)]
  by (auto simp: envid2env_def live_def get_env_def Let_def split: option.split)

lemma envid2env_permission_witness:
  "envid2env 4097 True demo_table_state = Inr (0, Some 1)
   \<and> envid2env 4098 True demo_table_state = Inr (- E_BAD_ENV, None)"
proof -
  have cur: "\<forall>c. curenv demo_table_state = Some c \<longrightarrow> c < 1024" by (simp add: demo_table_state_def)
  have x: "unat (ENVX 4097) = 1" "unat (ENVX 4098) = 2" by code_simp+
  have l: "live 4097 demo_table_state = Some (1, 0)" "live 4098 demo_table_state = Some (2, 0)"
    using demo_envs_nth(1) demo_envs_nth(3) [of 1] demo_envs_nth(3) [of 2]
    by (simp_all add: live_def x demo_table_state_def blank_env_def ENV_FREE_def ENV_RUNNABLE_def)
  have "env_id (envs demo_table_state ! 1) = 4097"
    using demo_envs_nth(3) [of 1] by (simp add: demo_table_state_def)
  moreover have "curenv demo_table_state = Some 1" by (simp add: demo_table_state_def)
  ultimately show ?thesis
    using envid2env_permission [OF demo_table_ok _ cur, of 4097] envid2env_permission [OF demo_table_ok _ cur, of 4098]
    by (simp add: l)
qed

section \<open>Segments\<close>

text \<open>A selector for a present four-gigabyte segment at 0 whose privilege level it requests.\<close>

definition flat_selector :: "2 word \<Rightarrow> u16 \<Rightarrow> bool" where
  "flat_selector ring sel \<longleftrightarrow> (let d = gdt_init ! unat (drop_bit 3 sel) in
     drop_bit 3 sel < of_nat (length gdt_init) \<and> ucast (sel AND 3) = ring \<and> sd_dpl d = ring
     \<and> sd_p d = 1 \<and> seg_base d = 0 \<and> seg_limit d = 0xffffffff)"

lemma flat_selectors: "flat_selector 0 GD_KT" "flat_selector 0 GD_KD" "flat_selector 3 (GD_UT OR 3)"
  "flat_selector 3 (GD_UD OR 3)"
  unfolding flat_selector_def selectors gdt_init_def by code_simp+

text \<open>After \<open>env_init_percpu\<close> the kernel runs on flat ring 0 segments, with user segments
  in \<^verbatim>\<open>gs\<close> and \<^verbatim>\<open>fs\<close>; the registers \<open>env_alloc\<close> prepares make \<open>env_pop_tf\<close> enter ring 3 on
  flat user segments at the top of the user stack, with nothing of a former environment in
  the general registers.\<close>

theorem segments_and_privilege:
  "(let c = cpu_state (env_init_percpu gdt_addr s) in
      gdtr c = \<lparr>pd_lim = 47, pd_base = gdt_addr\<rparr> \<and> ldtr c = 0
      \<and> list_all (flat_selector 0) [seg_cs c, seg_ds c, seg_es c, seg_ss c]
      \<and> list_all (flat_selector 3) [seg_gs c, seg_fs c])
   \<and> (let c' = env_pop_tf (a, env_tf (new_env e parent info)) c in
      list_all (flat_selector 3) [seg_cs c', seg_ds c', seg_es c', seg_ss c']
      \<and> cpu_esp c' = USTACKTOP \<and> reg_eax (cpu_regs c') = 0 \<and> reg_ebx (cpu_regs c') = 0
      \<and> reg_ecx (cpu_regs c') = 0 \<and> reg_edx (cpu_regs c') = 0)"
proof -
  have "(GD_UT OR 3) AND 3 \<noteq> 0" by (simp add: GD_UT_def)
  moreover have "gdt_pd gdt_addr = \<lparr>pd_lim = 47, pd_base = gdt_addr\<rparr>" by (simp add: gdt_pd_def gdt_init_def)
  ultimately show ?thesis
    by (simp add: env_init_percpu_def env_pop_tf_def new_env_def zero_tf_def flat_selectors Let_def)
qed

end
