(* ===== verification/Trap.thy ===== *)
theory Trap
  imports EnvTable
begin

text \<open>
  Trap handling, \<^verbatim>\<open>kern/trap.c\<close>, and the kernel side of the system calls,
  \<^verbatim>\<open>kern/syscall.c\<close> with \<^verbatim>\<open>user_mem_check\<close> and \<^verbatim>\<open>user_mem_assert\<close> of \<^verbatim>\<open>kern/pmap.c\<close>. In this
  version of the program the dispatch of traps and system calls is still to be written, so
  that every trap ends in a panic or in the destruction of the running environment.

  The functions that end in the endless monitor are instances of ones over a parameter \<open>mon\<close> in
  its place (\<open>trap_with\<close>, \<open>page_fault_handler_with\<close>), which show the state it is entered in.

  \<open>ktrap\<close> adds the task state segment and the two descriptor tables to the state.
\<close>

section \<open>Tables\<close>

record taskstate =
  ts_link :: u32
  ts_esp0 :: u32
  ts_ss0 :: u16
  ts_padding1 :: u16
  ts_esp1 :: u32
  ts_ss1 :: u16
  ts_padding2 :: u16
  ts_esp2 :: u32
  ts_ss2 :: u16
  ts_padding3 :: u16
  ts_cr3 :: u32
  ts_eip :: u32
  ts_eflags :: u32
  ts_eax :: u32
  ts_ecx :: u32
  ts_edx :: u32
  ts_ebx :: u32
  ts_esp :: u32
  ts_ebp :: u32
  ts_esi :: u32
  ts_edi :: u32
  ts_es :: u16
  ts_padding4 :: u16
  ts_cs :: u16
  ts_padding5 :: u16
  ts_ss :: u16
  ts_padding6 :: u16
  ts_ds :: u16
  ts_padding7 :: u16
  ts_fs :: u16
  ts_padding8 :: u16
  ts_gs :: u16
  ts_padding9 :: u16
  ts_ldt :: u16
  ts_padding10 :: u16
  ts_t :: u16
  ts_iomb :: u16

text \<open>\<open>addrs\<close> are the addresses of the static data: \<^verbatim>\<open>gdt\<close>, \<^verbatim>\<open>idt\<close>, \<^verbatim>\<open>ts\<close>, \<^verbatim>\<open>envs\<close>.\<close>

record addrs =
  gdt_addr :: u32
  idt_addr :: u32
  ts_addr :: u32
  envs_addr :: u32

record ktrap = kenv +
  tss :: taskstate
  gdt :: "segdesc list"
  idt :: "gatedesc list"

type_synonym 'z kt = "'z ktrap_scheme"

definition FL_IF :: u32 where "FL_IF = 0x00000200"

definition SIZEOF_TSS :: nat where "SIZEOF_TSS = 104"

definition SEG_NULL_gate :: gatedesc where
  "SEG_NULL_gate = \<lparr>gd_off_15_0 = 0, gd_sel = 0, gd_args = 0, gd_rsv1 = 0, gd_type = 0, gd_s = 0,
     gd_dpl = 0, gd_p = 0, gd_off_31_16 = 0\<rparr>"

definition idt_init :: "gatedesc list" where "idt_init = replicate 256 SEG_NULL_gate"

definition idt_pd :: "u32 \<Rightarrow> pseudodesc" where
  "idt_pd a = \<lparr>pd_lim = of_nat (256 * 8 - 1), pd_base = a\<rparr>"

section \<open>Initialisation\<close>

definition trap_init_percpu :: "addrs \<Rightarrow> 'z kt \<Rightarrow> 'z kt" where
  "trap_init_percpu ad s =
     (let s = s\<lparr>tss := (tss s)\<lparr>ts_esp0 := KSTACKTOP, ts_ss0 := GD_KD, ts_iomb := of_nat SIZEOF_TSS\<rparr>\<rparr>;
          slot = unat (drop_bit 3 GD_TSS0);
          s = s\<lparr>gdt := (gdt s)[slot := SEG16 STS_T32A (ts_addr ad) (of_nat SIZEOF_TSS - 1) 0]\<rparr>;
          s = s\<lparr>gdt := (gdt s)[slot := (gdt s ! slot)\<lparr>sd_s := 0\<rparr>]\<rparr>
      in lidt (idt_pd (idt_addr ad)) (ltr GD_TSS0 s))"

definition trap_init :: "addrs \<Rightarrow> 'z kt \<Rightarrow> 'z kt" where
  "trap_init ad s = trap_init_percpu ad s"

section \<open>Handling a trap\<close>

text \<open>
  \<open>env_destroy\<close> of a possibly null pointer: with \<^verbatim>\<open>curenv\<close> null too, \<^verbatim>\<open>env_free\<close> takes it for
  the running environment and then reads \<^verbatim>\<open>env_id\<close> through it.
\<close>

definition destroy_ptr_with :: "machine \<Rightarrow> ('z ke \<Rightarrow> kerr + 'z ke) \<Rightarrow> nat option \<Rightarrow> 'z ke \<Rightarrow> kerr + 'z ke" where
  "destroy_ptr_with mc mon p s = (case p of
     Some e \<Rightarrow> env_destroy_with mc mon e s
   | None \<Rightarrow> bindE (if curenv s = None then bindE (PADDR (kern_pgdir s)) (\<lambda>pa. Inr ()) else Inr ())
       (\<lambda>_. Inl (Fault 72)))"

definition destroy_ptr :: "machine \<Rightarrow> u32 \<Rightarrow> nat option \<Rightarrow> 'z ke \<Rightarrow> kerr + 'z ke" where
  "destroy_ptr mc buf = destroy_ptr_with mc (enter_monitor mc buf)"

definition show_trapframe :: "machine \<Rightarrow> tf_ptr \<Rightarrow> 'z ke \<Rightarrow> kerr + 'z ke" where
  "show_trapframe mc p s = (case print_trapframe mc (last_tf s) p (io s) of
     None \<Rightarrow> Inl Endless | Some i \<Rightarrow> Inr (s\<lparr>io := i\<rparr>))"

definition trap_dispatch_with :: "machine \<Rightarrow> ('z ke \<Rightarrow> kerr + 'z ke) \<Rightarrow> tf_ptr \<Rightarrow> 'z ke \<Rightarrow> kerr + 'z ke" where
  "trap_dispatch_with mc mon p s =
     bindE (show_trapframe mc p s) (\<lambda>s.
     if tf_cs (snd p) = GD_KT then Inl (Panic ''unhandled trap in kernel'')
     else destroy_ptr_with mc mon (curenv s) s)"

definition trap_dispatch :: "machine \<Rightarrow> u32 \<Rightarrow> tf_ptr \<Rightarrow> 'z ke \<Rightarrow> kerr + 'z ke" where
  "trap_dispatch mc buf = trap_dispatch_with mc (enter_monitor mc buf)"

text \<open>The end of \<open>trap\<close>, reached if \<open>trap_dispatch\<close> returns.\<close>

definition trap_return :: "'z ke \<Rightarrow> kerr + 'z ke" where
  "trap_return s = (case curenv s of
       None \<Rightarrow> Inl (Panic ''curenv && curenv->env_status == ENV_RUNNING'')
     | Some c \<Rightarrow>
         bindE (get_env 84 c s) (\<lambda>info.
         bindE (assertE ''curenv && curenv->env_status == ENV_RUNNING'' (env_status info = ENV_RUNNING)) (\<lambda>_.
         env_run c s)))"

definition trap_with :: "machine \<Rightarrow> ('z ke \<Rightarrow> kerr + 'z ke) \<Rightarrow> addrs \<Rightarrow> tf_ptr \<Rightarrow> 'z ke \<Rightarrow> kerr + 'z ke" where
  "trap_with mc mon ad p s =
     bindE (assertE ''!(read_eflags() & FL_IF)'' (eflags mc AND FL_IF = 0)) (\<lambda>_.
     bindE (kprint mc (''Incoming TRAP frame at %p'' @ NL) [fst p] s) (\<lambda>s.
     bindE (if tf_cs (snd p) AND 3 = 3 then
              (case curenv s of
                 None \<Rightarrow> Inl (Panic ''curenv'')
               | Some c \<Rightarrow> bindE (upd_env c (\<lambda>info. info\<lparr>env_tf := snd p\<rparr>) s) (\<lambda>s.
                           Inr ((envs_addr ad + 96 * of_nat c, snd p), s)))
            else Inr (p, s)) (\<lambda>(p, s).
     let s = s\<lparr>last_tf := fst p\<rparr> in
     bindE (trap_dispatch_with mc mon p s) trap_return)))"

definition trap :: "machine \<Rightarrow> addrs \<Rightarrow> u32 \<Rightarrow> tf_ptr \<Rightarrow> 'z ke \<Rightarrow> kerr + 'z ke" where
  "trap mc ad buf = trap_with mc (enter_monitor mc buf) ad"

definition page_fault_handler_with :: "machine \<Rightarrow> ('z ke \<Rightarrow> kerr + 'z ke) \<Rightarrow> tf_ptr \<Rightarrow> 'z ke \<Rightarrow> kerr + 'z ke" where
  "page_fault_handler_with mc mon p s =
     (let fault_va = cr2 mc in
      bindE (case curenv s of None \<Rightarrow> Inl (Fault 72)
             | Some c \<Rightarrow> bindE (get_env 72 c s) (\<lambda>info. Inr (env_id info))) (\<lambda>cur.
      bindE (kprint mc (''[%08x] user fault va %08x ip %08x'' @ NL) [cur, fault_va, tf_eip (snd p)] s) (\<lambda>s.
      bindE (show_trapframe mc p s) (\<lambda>s.
      destroy_ptr_with mc mon (curenv s) s))))"

definition page_fault_handler :: "machine \<Rightarrow> u32 \<Rightarrow> tf_ptr \<Rightarrow> 'z ke \<Rightarrow> kerr + 'z ke" where
  "page_fault_handler mc buf = page_fault_handler_with mc (enter_monitor mc buf)"

section \<open>System calls\<close>

definition user_mem_check :: "nat \<Rightarrow> u32 \<Rightarrow> u32 \<Rightarrow> u32 \<Rightarrow> 'z ke \<Rightarrow> int" where
  "user_mem_check env va len perm s = 0"

text \<open>\<open>addr\<close> is the static \<^verbatim>\<open>user_mem_check_addr\<close>.\<close>

definition user_mem_assert :: "machine \<Rightarrow> u32 \<Rightarrow> u32 \<Rightarrow> nat \<Rightarrow> u32 \<Rightarrow> u32 \<Rightarrow> u32 \<Rightarrow> 'z ke \<Rightarrow> kerr + 'z ke" where
  "user_mem_assert mc buf addr env va len perm s =
     (if user_mem_check env va len (perm OR PTE_U) s < 0
      then bindE (get_env 72 env s) (\<lambda>info.
           bindE (kprint mc (''[%08x] user_mem_check assertion failure for va %08x'' @ NL) [env_id info, addr] s) (\<lambda>s.
           env_destroy mc buf env s))
      else Inr s)"

definition ksys_cputs :: "machine \<Rightarrow> u32 \<Rightarrow> u32 \<Rightarrow> 'z ke \<Rightarrow> kerr + 'z ke" where
  "ksys_cputs mc str len s = kprint mc ''%.*s'' [len, str] s"

definition ksys_cgetc :: "machine \<Rightarrow> 'z ke \<Rightarrow> kerr + (int \<times> 'z ke)" where
  "ksys_cgetc mc s = (case cons_getc (devs mc) (con (io s)) of
     None \<Rightarrow> Inl Endless | Some (c, cn) \<Rightarrow> Inr (c, s\<lparr>io := (io s)\<lparr>con := cn\<rparr>\<rparr>))"

definition ksys_getenvid :: "'z ke \<Rightarrow> kerr + u32" where
  "ksys_getenvid s = (case curenv s of None \<Rightarrow> Inl (Fault 72)
     | Some c \<Rightarrow> bindE (get_env 72 c s) (\<lambda>info. Inr (env_id info)))"

definition ksys_env_destroy :: "machine \<Rightarrow> u32 \<Rightarrow> u32 \<Rightarrow> 'z ke \<Rightarrow> kerr + (int \<times> 'z ke)" where
  "ksys_env_destroy mc buf envid s =
     bindE (envid2env envid True s) (\<lambda>(r, e).
     if r < 0 then Inr (r, s)
     else bindE (ksys_getenvid s) (\<lambda>cur.
          bindE (if e = curenv s then kprint mc (''[%08x] exiting gracefully'' @ NL) [cur] s
                 else case e of None \<Rightarrow> Inl (Fault 72)
                      | Some e \<Rightarrow> bindE (get_env 72 e s) (\<lambda>info.
                          kprint mc (''[%08x] destroying %08x'' @ NL) [cur, env_id info] s)) (\<lambda>s.
          bindE (destroy_ptr mc buf e s) (\<lambda>s. Inr (0, s)))))"

definition ksyscall :: "u32 \<Rightarrow> u32 \<Rightarrow> u32 \<Rightarrow> u32 \<Rightarrow> u32 \<Rightarrow> u32 \<Rightarrow> 'z ke \<Rightarrow> kerr + (int \<times> 'z ke)" where
  "ksyscall syscallno a1 a2 a3 a4 a5 s = Inl (Panic ''syscall not implemented'')"

section \<open>Where a trap ends\<close>

lemma monitor_forever_None: "monitor_forever mc buf ltf i = None"
  by (subst monitor_forever.simps) (simp add: monitor_None)

lemma enter_monitor_Endless [simp]: "enter_monitor mc buf s = Inl Endless"
  by (simp add: enter_monitor_def monitor_forever_None)

lemma env_destroy_stops: "\<exists>err. env_destroy mc buf e s = Inl err"
  by (cases "env_destroy mc buf e s") (auto simp: env_destroy_def env_destroy_with_def bindE_eq_Inr)

lemma kprint_returns:
  assumes "returns (print (devs mc) fmt [] as)"
  shows "\<exists>i. kprint mc fmt as s = Inr (s\<lparr>io := i\<rparr>)"
proof -
  obtain i where "print (devs mc) fmt [] as (io s) = Some i" using assms unfolding returns_def by blast
  then show ?thesis by (auto simp: kprint_def)
qed

lemma kprint_farewell:
  "\<exists>i. kprint mc (''Destroyed the only environment - nothing more to do!'' @ NL) [] s = Inr (s\<lparr>io := i\<rparr>)"
  by (rule kprint_returns, rule returns_text) (simp_all add: NL_def)

lemma show_trapframe_returns: "\<exists>i. show_trapframe mc p s = Inr (s\<lparr>io := i\<rparr>)"
proof -
  obtain i where "print_trapframe mc (last_tf s) p (io s) = Some i"
    using returns_trapframe unfolding returns_def by blast
  then show ?thesis by (auto simp: show_trapframe_def)
qed

lemma kprint_incoming: "\<exists>i. kprint mc (''Incoming TRAP frame at %p'' @ NL) as s = Inr (s\<lparr>io := i\<rparr>)"
  by (rule kprint_returns, rule returns_pointer_line [where pre = "''Incoming TRAP frame at ''"]) simp_all

lemma vm_inv_env_fields [simp]:
  "vm_inv (s\<lparr>envs := es\<rparr> :: 'z ke) xs pd ext = vm_inv s xs pd ext"
  "vm_inv (s\<lparr>last_tf := a\<rparr> :: 'z ke) xs pd ext = vm_inv s xs pd ext"
  by (simp_all add: vm_inv_def wf_pd_def free_inv_def wf_pages_def)

text \<open>An environment destroyed: freed, with nothing left in the user half of its address space.\<close>

definition destroyed :: "nat \<Rightarrow> nat \<Rightarrow> 'z ke \<Rightarrow> 'z ke \<Rightarrow> bool" where
  "destroyed pd c s s' \<longleftrightarrow> (\<exists>xs. free_inv s' xs)
     \<and> (\<forall>d < UTOP_D. \<not> present (entry (mem s') pd d))
     \<and> (\<forall>d < 1024. UTOP_D \<le> d \<longrightarrow> entry (mem s') pd d = entry (mem s) pd d)
     \<and> envs s' = (envs s)[c := (envs s ! c)\<lparr>env_pgdir := 0, env_status := ENV_FREE, env_link := env_free_list s\<rparr>]
     \<and> env_free_list s' = Some c \<and> curenv s' = curenv s \<and> last_tf s' = last_tf s
     \<and> (curenv s = Some c \<longrightarrow> cr3 s' = kern_pgdir s - KERNBASE \<and> tlb s' = (\<lambda>_. None))"

lemma destroyed_io [simp]: "destroyed pd c s (s'\<lparr>io := i\<rparr>) = destroyed pd c s s'"
  "destroyed pd c (s\<lparr>io := i\<rparr>) s' = destroyed pd c s s'"
  by (simp_all add: destroyed_def free_inv_def wf_pages_def)

lemma env_destroy_reaches:
  assumes inv: "vm_inv s xs pd ext" and pd: "0 < pd" and c: "curenv s = Some c" "c < length (envs s)"
    and dir: "env_pgdir (envs s ! c) = kva pd" and k: "KERNBASE \<le> kern_pgdir s"
  shows "\<exists>s'. destroyed pd c s s' \<and> (\<forall>mon. env_destroy_with mc mon c s = mon s')"
proof -
  have "\<forall>d. curenv s = Some d \<longrightarrow> d < length (envs s)" "curenv s = Some c \<longrightarrow> KERNBASE \<le> kern_pgdir s"
    using c k by simp_all
  from env_free_effect [OF inv pd c(2) dir this, of mc] obtain s' where
    f: "env_free mc c s = Inr s'" "destroyed pd c s s'" unfolding destroyed_def by blast
  obtain i where "kprint mc (''Destroyed the only environment - nothing more to do!'' @ NL) [] s' = Inr (s'\<lparr>io := i\<rparr>)"
    using kprint_farewell by blast
  then show ?thesis using f by (intro exI [of _ "s'\<lparr>io := i\<rparr>"]) (simp add: env_destroy_with_def)
qed

lemma kprint_fault: "\<exists>i. kprint mc (''[%08x] user fault va %08x ip %08x'' @ NL) as s = Inr (s\<lparr>io := i\<rparr>)"
proof (rule kprint_returns)
  let ?its = "plain ''['' @ Num True 8 Hex # plain ''] user fault va '' @ Num True 8 Hex # plain '' ip '' @ Num True 8 Hex # plain NL"
  have b: "map chr (''[%08x] user fault va %08x ip %08x'' @ NL) = concat (map item_bytes ?its)"
    by (simp add: to_base.simps dchar_def)
  have "good_items (lits [] (kmem i)) (arg_list as) 0 ?its" for i
    using good_plain [of NL _ _ _ "[]"] by (simp add: good_plain NL_def)
  from print_returns [OF b _ this] show "returns (print (devs mc) (''[%08x] user fault va %08x ip %08x'' @ NL) [] as)"
    unfolding returns_def by (fastforce simp: NL_def)
qed

text \<open>A user trap, and \<open>page_fault_handler\<close>, up to the monitor loop.\<close>

lemma user_trap_destroys:
  assumes fl: "eflags mc AND FL_IF = 0" and cs: "tf_cs (snd p) AND 3 = 3"
    and c: "curenv s = Some c" "c < length (envs s)" and inv: "vm_inv s xs pd ext" "0 < pd"
    and pd: "env_pgdir (envs s ! c) = kva pd" and k: "KERNBASE \<le> kern_pgdir s"
  shows "\<exists>s'. destroyed pd c (s\<lparr>envs := (envs s)[c := (envs s ! c)\<lparr>env_tf := snd p\<rparr>],
        last_tf := envs_addr ad + 96 * of_nat c\<rparr>) s' \<and> (\<forall>mon. trap_with mc mon ad p s = bindE (mon s') trap_return)"
proof -
  obtain i where i: "kprint mc (''Incoming TRAP frame at %p'' @ NL) [fst p] s = Inr (s\<lparr>io := i\<rparr>)"
    using kprint_incoming by blast
  have start: "assertE ''!(read_eflags() & FL_IF)'' (eflags mc AND FL_IF = 0) = Inr ()" using fl by simp
  have ne: "tf_cs (snd p) \<noteq> GD_KT" using cs by (auto simp: GD_KT_def)
  let ?q = "(envs_addr ad + 96 * of_nat c, snd p)"
  let ?u = "s\<lparr>envs := (envs s)[c := (envs s ! c)\<lparr>env_tf := snd p\<rparr>], last_tf := fst ?q\<rparr>"
  let ?t = "s\<lparr>io := i, envs := (envs s)[c := (envs s ! c)\<lparr>env_tf := snd p\<rparr>], last_tf := fst ?q\<rparr>"
  obtain j where j: "show_trapframe mc ?q ?t = Inr (?u\<lparr>io := j\<rparr>)"
    using show_trapframe_returns [of mc ?q ?t] by auto
  have "vm_inv (?u\<lparr>io := j\<rparr>) xs pd ext" using inv(1) by simp
  moreover have "curenv (?u\<lparr>io := j\<rparr>) = Some c" "c < length (envs (?u\<lparr>io := j\<rparr>))"
    "env_pgdir (envs (?u\<lparr>io := j\<rparr>) ! c) = kva pd" "KERNBASE \<le> kern_pgdir (?u\<lparr>io := j\<rparr>)"
    using c pd k by simp_all
  ultimately obtain s' where s': "destroyed pd c (?u\<lparr>io := j\<rparr>) s'"
    "\<And>mon. env_destroy_with mc mon c (?u\<lparr>io := j\<rparr>) = mon s'"
    using env_destroy_reaches [of "?u\<lparr>io := j\<rparr>" xs pd ext c] inv(2) by blast
  have "trap_with mc mon ad p s = bindE (mon s') trap_return" for mon
    unfolding trap_with_def start using i j cs c ne s'(2) [of mon]
    by (simp add: upd_env_def trap_dispatch_with_def destroy_ptr_with_def)
  then show ?thesis using s'(1) by (intro exI [of _ s']) simp
qed

lemma page_fault_destroys:
  assumes c: "curenv s = Some c" "c < length (envs s)" and inv: "vm_inv s xs pd ext" "0 < pd"
    and pd: "env_pgdir (envs s ! c) = kva pd" and k: "KERNBASE \<le> kern_pgdir s"
  shows "\<exists>s'. destroyed pd c s s' \<and> (\<forall>mon. page_fault_handler_with mc mon p s = mon s')"
proof -
  obtain i1 where i1: "kprint mc (''[%08x] user fault va %08x ip %08x'' @ NL)
      [env_id (envs s ! c), cr2 mc, tf_eip (snd p)] s = Inr (s\<lparr>io := i1\<rparr>)" using kprint_fault by blast
  obtain j where j: "show_trapframe mc p (s\<lparr>io := i1\<rparr>) = Inr (s\<lparr>io := j\<rparr>)"
    using show_trapframe_returns [of mc p "s\<lparr>io := i1\<rparr>"] by auto
  obtain s' where s': "destroyed pd c (s\<lparr>io := j\<rparr>) s'" "\<And>mon. env_destroy_with mc mon c (s\<lparr>io := j\<rparr>) = mon s'"
    using env_destroy_reaches [of "s\<lparr>io := j\<rparr>" xs pd ext c] c inv pd k by auto
  have "page_fault_handler_with mc mon p s = mon s'" for mon
    using i1 j c s'(2) [of mon]
    by (simp add: page_fault_handler_with_def get_env_def destroy_ptr_with_def Let_def)
  then show ?thesis using s'(1) by (intro exI [of _ s']) simp
qed

text \<open>C31: Where traps end, with interrupts off. From the kernel's code segment, in the panic of
  \<open>trap_dispatch\<close>; from user mode without a current environment, in the failed assertion; from a
  current environment with a well-formed address space, in the endless monitor, which is entered
  in a state where the trap frame was saved in the environment, \<^verbatim>\<open>last_tf\<close> points there, and the
  environment is destroyed. \<open>page_fault_handler\<close> destroys it the same way, without saving a
  frame, and without a current environment faults on the null \<^verbatim>\<open>curenv\<close>. The state is the one that
  any \<open>mon\<close> in the place of the monitor loop gets.\<close>

theorem trap_outcomes:
  assumes "eflags mc AND FL_IF = 0"
  shows "(tf_cs (snd p) = GD_KT \<longrightarrow> trap mc ad buf p s = Inl (Panic ''unhandled trap in kernel''))
    \<and> (tf_cs (snd p) AND 3 = 3 \<longrightarrow> curenv s = None \<longrightarrow> trap mc ad buf p s = Inl (Panic ''curenv''))
    \<and> (curenv s = None \<longrightarrow> page_fault_handler mc buf p s = Inl (Fault 72))
    \<and> (\<forall>c xs pd ext. curenv s = Some c \<longrightarrow> c < length (envs s)
        \<longrightarrow> vm_inv s xs pd ext \<longrightarrow> 0 < pd \<longrightarrow> env_pgdir (envs s ! c) = kva pd \<longrightarrow> KERNBASE \<le> kern_pgdir s \<longrightarrow>
          (tf_cs (snd p) AND 3 = 3 \<longrightarrow> trap mc ad buf p s = Inl Endless
            \<and> (\<exists>s'. destroyed pd c (s\<lparr>envs := (envs s)[c := (envs s ! c)\<lparr>env_tf := snd p\<rparr>],
                  last_tf := envs_addr ad + 96 * of_nat c\<rparr>) s'
                \<and> (\<forall>mon. trap_with mc mon ad p s = bindE (mon s') trap_return)))
          \<and> page_fault_handler mc buf p s = Inl Endless
          \<and> (\<exists>s'. destroyed pd c s s' \<and> (\<forall>mon. page_fault_handler_with mc mon p s = mon s')))"
proof -
  obtain i where i: "kprint mc (''Incoming TRAP frame at %p'' @ NL) [fst p] s = Inr (s\<lparr>io := i\<rparr>)"
    using kprint_incoming by blast
  have start: "assertE ''!(read_eflags() & FL_IF)'' (eflags mc AND FL_IF = 0) = Inr ()" using assms by simp
  have kernel: "trap mc ad buf p s = Inl (Panic ''unhandled trap in kernel'')" if cs: "tf_cs (snd p) = GD_KT"
  proof -
    have "\<not> tf_cs (snd p) AND 3 = 3" by (simp add: cs GD_KT_def)
    moreover obtain j where "show_trapframe mc p (s\<lparr>io := i, last_tf := fst p\<rparr>) = Inr (s\<lparr>last_tf := fst p, io := j\<rparr>)"
      using show_trapframe_returns [of mc p "s\<lparr>io := i, last_tf := fst p\<rparr>"] by auto
    ultimately show ?thesis unfolding trap_def trap_with_def start using i cs by (simp add: trap_dispatch_with_def)
  qed
  have none: "trap mc ad buf p s = Inl (Panic ''curenv'')" if "tf_cs (snd p) AND 3 = 3" "curenv s = None"
    unfolding trap_def trap_with_def start using i that by simp
  have fault: "page_fault_handler mc buf p s = Inl (Fault 72)" if "curenv s = None"
    using that by (simp add: page_fault_handler_def page_fault_handler_with_def)
  note user = user_trap_destroys [OF assms, where p = p and s = s and ad = ad]
    and handler = page_fault_destroys [of s, where p = p and mc = mc]
  show ?thesis using kernel none fault
    by (intro conjI allI impI user handler) (auto simp: trap_def page_fault_handler_def dest: user handler)
qed

definition user_frame :: trapframe where
  "user_frame = zero_tf\<lparr>tf_cs := GD_UT OR 3, tf_trapno := T_DIVIDE\<rparr>"

text \<open>A division fault of the running environment of the small machine.\<close>

lemma trap_outcomes_witness:
  "trap blank_machine \<lparr>gdt_addr = 0, idt_addr = 0, ts_addr = 0, envs_addr = 0xF0200000\<rparr> 0xF0130000
     (0xEFFFFFBC, user_frame) demo_env = Inl Endless
   \<and> (\<exists>s'. trap_with blank_machine Inr \<lparr>gdt_addr = 0, idt_addr = 0, ts_addr = 0, envs_addr = 0xF0200000\<rparr>
           (0xEFFFFFBC, user_frame) demo_env = bindE (Inr s') trap_return
         \<and> env_tf (envs s' ! 0) = user_frame \<and> env_status (envs s' ! 0) = ENV_FREE \<and> last_tf s' = 0xF0200000
         \<and> (\<forall>d < UTOP_D. \<not> present (entry (mem s') 1 d)))"
proof -
  have fl: "eflags blank_machine AND FL_IF = 0" by (simp add: blank_machine_def)
  let ?ad = "\<lparr>gdt_addr = 0, idt_addr = 0, ts_addr = 0, envs_addr = 0xF0200000\<rparr>"
  have inv: "vm_inv demo_env [4] 1 demo_ext"
    using demo_mapped(1) by (simp only: demo_env_def with_envs_simps(10) vm_inv_kern_pgdir)
  have c: "curenv demo_env = Some 0" "0 < length (envs demo_env)" "env_pgdir (envs demo_env ! 0) = kva 1"
    "KERNBASE \<le> kern_pgdir demo_env" "tf_cs (snd (0xEFFFFFBC :: u32, user_frame)) AND 3 = 3"
    by (simp_all add: user_frame_def GD_UT_def demo_env_def KERNBASE_def)
  note T = trap_outcomes [OF fl, where p = "(0xEFFFFFBC, user_frame)" and s = demo_env and ad = ?ad and buf = "0xF0130000"]
  have "trap blank_machine ?ad 0xF0130000 (0xEFFFFFBC, user_frame) demo_env = Inl Endless"
    and "\<exists>s'. destroyed 1 0 (demo_env\<lparr>envs := (envs demo_env)[0 := (envs demo_env ! 0)\<lparr>env_tf := snd (0xEFFFFFBC :: u32, user_frame)\<rparr>],
                  last_tf := envs_addr ?ad + 96 * of_nat 0\<rparr>) s'
                \<and> (\<forall>mon. trap_with blank_machine mon ?ad (0xEFFFFFBC, user_frame) demo_env = bindE (mon s') trap_return)"
    using T inv c by (metis One_nat_def zero_less_one)+
  moreover from this(2) obtain s' where
    "destroyed 1 0 (demo_env\<lparr>envs := (envs demo_env)[0 := (envs demo_env ! 0)\<lparr>env_tf := snd (0xEFFFFFBC :: u32, user_frame)\<rparr>],
        last_tf := envs_addr ?ad + 96 * of_nat 0\<rparr>) s'"
    and m: "\<And>mon. trap_with blank_machine mon ?ad (0xEFFFFFBC, user_frame) demo_env = bindE (mon s') trap_return" by blast
  then have "env_tf (envs s' ! 0) = user_frame \<and> env_status (envs s' ! 0) = ENV_FREE \<and> last_tf s' = 0xF0200000
      \<and> (\<forall>d < UTOP_D. \<not> present (entry (mem s') 1 d))" using c(2) by (simp add: destroyed_def)
  ultimately show ?thesis using m by blast
qed

text \<open>\<open>trap_init\<close> makes the processor switch to the kernel stack on a trap from user mode:
  the task register selects a present ring 0 system descriptor in the table that covers exactly
  the task state segment, which names the kernel stack and data segment; the other descriptors
  stay. The interrupt table is loaded as it is, with no gate present, since no entry is set.\<close>

theorem trap_init_task:
  assumes "length (gdt s) = 6"
  shows "let s' = trap_init ad s; d = gdt s' ! unat (drop_bit 3 (task_reg (cpu_state s'))) in
    task_reg (cpu_state s') = GD_TSS0 \<and> seg_base d = ts_addr ad \<and> seg_limit d = 103 \<and> sd_type d = STS_T32A
    \<and> sd_s d = 0 \<and> sd_dpl d = 0 \<and> sd_p d = 1
    \<and> ts_esp0 (tss s') = KSTACKTOP \<and> flat_selector 0 (ts_ss0 (tss s')) \<and> ts_iomb (tss s') = 104
    \<and> take 5 (gdt s') = take 5 (gdt s)
    \<and> idt s' = idt s \<and> idtr (cpu_state s') = \<lparr>pd_lim = 2047, pd_base = idt_addr ad\<rparr>"
proof -
  let ?d = "SEG16 STS_T32A (ts_addr ad) (of_nat SIZEOF_TSS - 1) 0"
  have slot: "unat (drop_bit 3 GD_TSS0) = 5" by code_simp
  have base: "seg_base (?d\<lparr>sd_s := 0\<rparr>) = ts_addr ad"
    using seg_base_SEG(2) [of STS_T32A "ts_addr ad" "of_nat SIZEOF_TSS - 1" 0] by (simp add: seg_base_def)
  have limit: "seg_limit (?d\<lparr>sd_s := 0\<rparr>) = 103"
  proof -
    have "(of_nat SIZEOF_TSS - 1 :: u32) = 103" by (simp add: SIZEOF_TSS_def)
    then show ?thesis unfolding seg_limit_def by (simp add: SEG16_def Let_def)
  qed
  show ?thesis
    using assms base limit flat_selectors(2)
    by (simp add: trap_init_def trap_init_percpu_def slot Let_def SIZEOF_TSS_def idt_pd_def)
      (simp add: SEG16_def)
qed

definition blank_tss :: taskstate where
  "blank_tss = taskstate.make 0 0 0 0 0 0 0 0 0 0 0 0 0 0 0 0 0 0 0 0 0 0 0 0 0 0 0 0 0 0 0 0 0 0 0 0 0"

definition demo_trap :: ktrap where
  "demo_trap = kenv.extend demo_env (ktrap.fields blank_tss gdt_init idt_init)"

lemma trap_init_task_witness:
  "let s' = trap_init \<lparr>gdt_addr = 0xF0110000, idt_addr = 0xF0111000, ts_addr = 0xF0112000, envs_addr = 0\<rparr> demo_trap in
     seg_base (gdt s' ! 5) = 0xF0112000 \<and> take 5 (gdt s') = take 5 gdt_init"
proof -
  have g: "length (gdt demo_trap) = 6" "gdt demo_trap = gdt_init"
    by (simp_all add: demo_trap_def kenv.extend_def ktrap.fields_def gdt_init_def)
  have slot: "unat (drop_bit 3 GD_TSS0) = 5" by code_simp
  let ?ad = "\<lparr>gdt_addr = 0xF0110000, idt_addr = 0xF0111000, ts_addr = 0xF0112000, envs_addr = 0\<rparr>"
  note T = trap_init_task [OF g(1), of ?ad, unfolded Let_def]
  note reg = T [THEN conjunct1]
  show ?thesis using T unfolding Let_def reg slot g(2) by simp
qed

text \<open>\<open>sys_env_destroy\<close> returns to its caller only to refuse, with \<open>-E_BAD_ENV\<close> and nothing
  changed; a permitted call never returns, since \<open>env_destroy\<close> enters the monitor for good,
  so the documented result 0 cannot occur.\<close>

theorem sys_env_destroy_refuses:
  assumes "ksys_env_destroy mc buf envid s = Inr (r, s')"
  shows "r = - E_BAD_ENV \<and> s' = s \<and> envid2env envid True s = Inr (- E_BAD_ENV, None)"
proof -
  obtain r1 e where l: "envid2env envid True s = Inr (r1, e)"
    using assms by (auto simp: ksys_env_destroy_def bindE_eq_Inr)
  have stop: "\<exists>err. destroy_ptr mc buf e t = Inl err" for t
    using env_destroy_stops [unfolded env_destroy_def]
    by (auto simp: destroy_ptr_def destroy_ptr_with_def PADDR_def split: option.splits)
  have neg: "r1 < 0"
  proof (rule ccontr)
    assume "\<not> r1 < 0"
    then obtain t where "destroy_ptr mc buf e t = Inr s'"
      using assms l by (auto simp: ksys_env_destroy_def bindE_eq_Inr)
    then show False using stop [of t] by simp
  qed
  then have "r1 = - E_BAD_ENV" "e = None"
    using l by (auto simp: envid2env_def Let_def bindE_eq_Inr E_BAD_ENV_def split: if_splits)
  then show ?thesis using assms l neg by (simp add: ksys_env_destroy_def)
qed

lemma sys_env_destroy_refuses_witness:
  "envid2env 5 True demo_table_state = Inr (- E_BAD_ENV, None)"
proof -
  have x: "unat (ENVX 5) = 5" by code_simp
  have "envid2env 5 True demo_table_state = Inr (- E_BAD_ENV, None)"
    using demo_envs_nth(1) demo_envs_nth(3) [of 5]
    by (simp add: envid2env_def x get_env_def demo_table_state_def)
  then have "ksys_env_destroy blank_machine 0 5 demo_table_state = Inr (- E_BAD_ENV, demo_table_state)"
    by (simp add: ksys_env_destroy_def E_BAD_ENV_def)
  from sys_env_destroy_refuses [OF this] show ?thesis by simp
qed

text \<open>C39: The kernel's \<open>sys_cputs\<close> prints from whatever address it is given: with an address that
  is not null and a length below \<open>2 ^ 31\<close> it returns, and the bytes found there, as many as the
  length says but none from the first zero byte on, have gone to the console; nothing asks
  whether the caller may read them, and nothing but the console changes. Reads are total in
  the model: this is about addresses that are mapped, the kernel's own among them.\<close>

theorem sys_cputs_prints_any_memory:
  assumes "str \<noteq> 0" and "unat len < 2 ^ 31"
  shows "ksys_cputs mc str len s = Inr (s\<lparr>io := (io s)\<lparr>con := put_all (devs mc)
    (map sint (takeWhile (\<lambda>b. b \<noteq> 0) (mem_bytes (kmem (io s)) str (unat len)))) (con (io s))\<rparr>\<rparr>)"
  by (simp add: ksys_cputs_def kprint_def print_prec_str [OF assms])

text \<open>The bytes of the kernel's entry point, as \<^verbatim>\<open>user/evilhello.c\<close> asks for them.\<close>

lemma sys_cputs_prints_any_memory_witness:
  "ksys_cputs blank_machine 0xf010000c 100 (demo_env\<lparr>io := blank_kio\<lparr>kmem := (\<lambda>_. 0)(0xf010000c := 0x66, 0xf010000d := 0xc7)\<rparr>\<rparr>)
    = Inr (demo_env\<lparr>io := blank_kio\<lparr>kmem := (\<lambda>_. 0)(0xf010000c := 0x66, 0xf010000d := 0xc7),
        con := put_all (devs blank_machine) [0x66, - 0x39] (con blank_kio)\<rparr>\<rparr>)"
proof -
  let ?m = "(\<lambda>_. 0)(0xf010000c := 0x66, 0xf010000d := 0xc7) :: memory"
  have "mem_bytes ?m 0xf010000c 100 = 0x66 # 0xc7 # 0 # mem_bytes ?m 0xf010000f 97"
    using mem_bytes_Suc [of ?m "0xf010000c" 99] mem_bytes_Suc [of ?m "0xf010000d" 98] mem_bytes_Suc [of ?m "0xf010000e" 97] by simp
  then have "takeWhile (\<lambda>b. b \<noteq> 0) (mem_bytes ?m 0xf010000c 100) = [0x66, 0xc7]" by simp
  then show ?thesis
    using sys_cputs_prints_any_memory [of "0xf010000c" 100 blank_machine "demo_env\<lparr>io := blank_kio\<lparr>kmem := ?m\<rparr>\<rparr>"] by simp
qed

end
