(* ===== verification/UserFaults.thy ===== *)
theory UserFaults
  imports Programs Trap
begin

text \<open>
  User programs on the descriptor tables the kernel loads: \<open>trap_init\<close> leaves every gate of the
  interrupt table empty and puts a ring 0 system descriptor in the slot of the task state segment.
\<close>

lemma empty_gates: "n < 256 \<Longrightarrow> int_n idt_init n u = Some (Inr (Stopped T_GPFLT 0 u))"
  by (simp add: int_n_def idt_init_def SEG_NULL_gate_def)

lemma trap_init_idt: "idt (trap_init ad s) = idt s"
  by (simp add: trap_init_def trap_init_percpu_def Let_def lidt_def ltr_def)

lemma badsegment_faults:
  assumes "length (gdt s) = 6"
  shows "badsegment (gdt (trap_init ad s)) l argc argv u = Some (Inr (Stopped T_GPFLT 0 u))"
  using assms by (simp add: badsegment_def load_ds_def trap_init_def trap_init_percpu_def Let_def GD_TSS0_def)



end
