(* ===== verification/ConsoleType.thy ===== *)
theory ConsoleType
  imports CPrintf
begin

text \<open>
  The type of the console's state: the ranges its fields keep under every operation of
  \<^verbatim>\<open>kern/console.c\<close>, \<^verbatim>\<open>kern/printf.c\<close> and \<^verbatim>\<open>lib/readline.c\<close>, so that no array of theirs is
  indexed outside its bounds, and the range of the characters they return.
\<close>

definition console_typed :: "console \<Rightarrow> bool" where
  "console_typed c \<longleftrightarrow> crt_pos c < CRT_SIZE \<and> ring_ok c \<and> shift_ok (kbd_shift c)"

section \<open>Preservation\<close>

lemma typed_printed:
  assumes "console_typed c" and "printed_ok c c'"
  shows "console_typed c'"
  using assms by (simp add: console_typed_def printed_ok_def ring_ok_def)

lemma typed_putc: "console_typed c \<Longrightarrow> console_typed (cons_putc dev ch c)"
  by (rule typed_printed, assumption, rule putc_ok(2)) (simp add: console_typed_def)

lemma typed_cputchar: "console_typed c \<Longrightarrow> console_typed (cputchar dev ch c)"
  by (simp add: cputchar_def typed_putc)

lemma typed_puts: "console_typed c \<Longrightarrow> console_typed (cons_puts dev str c)"
  by (induction str arbitrary: c) (simp_all add: cons_puts_def typed_putc)

lemma typed_put_all: "console_typed c \<Longrightarrow> console_typed (put_all dev cs c)"
  by (rule typed_printed, assumption, rule put_all_ok) (simp add: console_typed_def)

lemma typed_io [simp]:
  "console_typed (snd (inb dev p c)) = console_typed c" "console_typed (outb p b c) = console_typed c"
  by (simp_all add: console_typed_def ring_ok_def)

lemma typed_shift: "console_typed c \<Longrightarrow> shift_ok s \<Longrightarrow> console_typed (c\<lparr>kbd_shift := s\<rparr>)"
  by (simp add: console_typed_def ring_ok_def)

lemma typed_put: "console_typed c \<Longrightarrow> console_typed (cons_put ch c)"
  using cons_put_ok [of c ch] by (simp add: console_typed_def) (simp add: cons_put_def Let_def)

text \<open>What a device routine returns and leaves.\<close>

definition device_typed :: "(console \<Rightarrow> int \<times> console) \<Rightarrow> bool" where
  "device_typed proc \<longleftrightarrow> (\<forall>c. console_typed c \<longrightarrow>
     console_typed (snd (proc c)) \<and> - 1 \<le> fst (proc c) \<and> fst (proc c) < 256)"

lemma serial_typed: "device_typed (serial_proc_data dev)"
proof -
  have "uint b < 256" for b :: u8 using uint_lt2p [of b] by simp
  then have "- 1 \<le> uint b \<and> uint b < 256" for b :: u8 using uint_ge_0 [of b] by (intro conjI) (linarith, blast)
  then show ?thesis by (simp add: device_typed_def serial_proc_data_def Let_def case_prod_unfold)
qed

lemma kbd_typed: "device_typed (kbd_proc_data dev)"
  unfolding device_typed_def
proof (intro allI impI)
  fix c
  assume c: "console_typed c"
  let ?c1 = "snd (inb dev 0x64 c)"
  let ?d = "fst (inb dev 0x60 ?c1)" and ?c2 = "snd (inb dev 0x60 ?c1)"
  have "shift_ok (kbd_shift ?c2)" using c by (simp add: console_typed_def)
  then have key: "shift_ok (snd (kbd_decode (kbd_shift ?c2) ?d))" "0 \<le> fst (kbd_decode (kbd_shift ?c2) ?d)"
    "fst (kbd_decode (kbd_shift ?c2) ?d) < 256" using kbd_decode_ok by blast+
  have "console_typed (?c2\<lparr>kbd_shift := snd (kbd_decode (kbd_shift ?c2) ?d)\<rparr>)"
    using c by (intro typed_shift key(1)) simp
  then show "console_typed (snd (kbd_proc_data dev c)) \<and> - 1 \<le> fst (kbd_proc_data dev c) \<and> fst (kbd_proc_data dev c) < 256"
    using c key(2,3) by (simp add: kbd_proc_data_def Let_def case_prod_unfold typed_puts)
qed

lemma cons_intr_typed:
  assumes "cons_intr proc c = Some c'" and "device_typed proc" and "console_typed c"
  shows "console_typed c'"
  using assms
proof (induction rule: cons_intr.raw_induct [rotated 1, consumes 1, case_names step])
  case (step intr proc c c')
  have "console_typed (snd (proc c))" using step(3,4) by (simp add: device_typed_def)
  then show ?case
    using step(1) [OF _ step(3)] step(2) typed_put by (auto simp: Let_def case_prod_unfold split: if_splits)
qed

lemma cons_take_typed:
  assumes "console_typed c"
  shows "console_typed (snd (cons_take c)) \<and> 0 \<le> fst (cons_take c) \<and> fst (cons_take c) < 256"
proof -
  have "ring_ok (snd (cons_take c))"
    using cons_take_spec [of c] assms by (cases "contents c") (auto simp: console_typed_def)
  moreover have "uint b < 256" for b :: u8 using uint_lt2p [of b] by simp
  ultimately show ?thesis using assms by (simp add: console_typed_def cons_take_def Let_def)
qed

lemma cons_getc_typed:
  assumes "cons_getc dev c = Some (ch, c')" and "console_typed c"
  shows "console_typed c' \<and> 0 \<le> ch \<and> ch < 256"
proof -
  obtain c1 c2 where steps: "serial_intr dev c = Some c1" "kbd_intr dev c1 = Some c2" "cons_take c2 = (ch, c')"
    using assms(1) by (auto simp: cons_getc_def Option.bind_eq_Some_conv)
  have "console_typed c1"
    using steps(1) assms(2) cons_intr_typed [OF _ serial_typed] by (auto simp: serial_intr_def split: if_splits)
  then have "console_typed c2" using steps(2) cons_intr_typed [OF _ kbd_typed] by (simp add: kbd_intr_def)
  then show ?thesis using cons_take_typed [of c2] steps(3) by simp
qed

lemma getchar_typed:
  assumes "getchar dev c = Some (ch, c')" and "console_typed c"
  shows "console_typed c' \<and> 0 < ch \<and> ch < 256"
proof -
  have "console_typed (snd r) \<and> 0 < fst r \<and> fst r < 256" if "getchar dev c = Some r" "console_typed c" for r
    using that
  proof (induction rule: getchar.raw_induct [rotated 1, consumes 1, case_names step])
    case (step g dev c r)
    obtain ch1 c1 where g: "cons_getc dev c = Some (ch1, c1)"
      "(if ch1 = 0 then g dev c1 else Some (ch1, c1)) = Some r"
      using step(2) by (auto simp: Option.bind_eq_Some_conv)
    from cons_getc_typed [OF g(1) step(3)] step(1) [of dev c1 r] g(2) show ?case
      by (cases "ch1 = 0") auto
  qed
  from this [of "(ch, c')"] show ?thesis using assms by simp
qed

lemma print_typed:
  assumes "print dev fmt ss as s = Some s'" and "console_typed (con s)"
  shows "console_typed (con s')"
  using assms typed_put_all by (auto simp: print_sent)

lemma readline_loop_typed:
  assumes "readline_loop dev buf e i s = Some r" and "console_typed (con s)"
  shows "fst r = buf \<and> console_typed (con (snd r))"
  using assms
proof (induction rule: readline_loop.raw_induct [rotated 1, consumes 1, case_names step])
  case (step rl dev buf e i s r)
  obtain ch cn where g: "getchar dev (con s) = Some (ch, cn)" using step(2) by (auto simp: Option.bind_eq_Some_conv)
  have cn: "console_typed cn" "0 < ch" using getchar_typed [OF g step(3)] by simp_all
  have echo: "console_typed (con (if e then (s\<lparr>con := cn\<rparr>)\<lparr>con := cputchar dev x cn\<rparr> else s\<lparr>con := cn\<rparr>))" for x
    using cn(1) by (simp add: typed_cputchar)
  show ?case
    using step(2) cn g step(1) [of dev buf e] echo
    by (auto simp: Let_def typed_cputchar split: if_splits)
qed

section \<open>Contracts\<close>

text \<open>C10: A well-typed console stays one whatever the devices answer: the cursor inside the display,
  the positions of the circular buffer inside its 512 bytes, and no more in the shift state than
  the seven modifier bits. Printing a character, the two device routines, \<open>cons_getc\<close>, \<open>getchar\<close>,
  \<open>cprintf\<close> and \<open>readline\<close> all keep that type, a device routine returns a byte or -1, \<open>cons_getc\<close> a
  byte, and \<open>getchar\<close> a byte that is not zero, so \<open>readline\<close> never takes its error branch.\<close>

theorem console_type_preserved:
  assumes "console_typed c"
  shows "console_typed (cons_putc dev ch c)
    \<and> device_typed (serial_proc_data dev) \<and> device_typed (kbd_proc_data dev)
    \<and> (\<forall>x c'. cons_getc dev c = Some (x, c') \<longrightarrow> console_typed c' \<and> 0 \<le> x \<and> x < 256)
    \<and> (\<forall>x c'. getchar dev c = Some (x, c') \<longrightarrow> console_typed c' \<and> 0 < x \<and> x < 256)
    \<and> (\<forall>fmt ss as m r s'. cprintf dev fmt ss as \<lparr>kmem = m, con = c\<rparr> = Some (r, s') \<longrightarrow> console_typed (con s'))
    \<and> (\<forall>buf prompt m r s'. readline dev buf prompt \<lparr>kmem = m, con = c\<rparr> = Some (r, s') \<longrightarrow>
        r = buf \<and> console_typed (con s'))"
proof (intro conjI allI impI)
  fix buf prompt m r s'
  assume "readline dev buf prompt \<lparr>kmem = m, con = c\<rparr> = Some (r, s')"
  then obtain s0 where s0: "(case prompt of None \<Rightarrow> Some \<lparr>kmem = m, con = c\<rparr>
      | Some p \<Rightarrow> print dev ''%s'' [p] [ARG 0] \<lparr>kmem = m, con = c\<rparr>) = Some s0"
    "readline_loop dev buf (iscons 0 \<noteq> 0) 0 s0 = Some (r, s')"
    unfolding readline_def by (auto simp only: Option.bind_eq_Some_conv)
  then have "console_typed (con s0)"
    using assms print_typed [of dev "''%s''" _ "[ARG 0]" "\<lparr>kmem = m, con = c\<rparr>" s0] by (cases prompt) auto
  with readline_loop_typed [OF s0(2)] show "r = buf" "console_typed (con s')" by simp_all
qed (use assms typed_putc serial_typed kbd_typed cons_getc_typed getchar_typed typed_put_all in \<open>auto simp: cprintf_sent\<close>)

lemma console_type_preserved_witness: "console_typed (cons_putc (\<lambda>_ _. 0xFF) 0x41 blank_console)"
proof -
  have "console_typed blank_console"
    by (simp add: console_typed_def blank_console_def crt_defs ring_ok_def shift_ok_def)
  from console_type_preserved [OF this, of "\<lambda>_ _. 0xFF" "0x41"] show ?thesis by blast
qed

end
