(* ===== verification/MemInit.thy ===== *)
theory MemInit
  imports Trap
begin

text \<open>
  \<^verbatim>\<open>mem_init\<close> of \<^verbatim>\<open>kern/pmap.c\<close> and the self-tests it runs: \<open>check_page_free_list\<close>,
  \<open>check_page_alloc\<close>, \<open>check_page\<close>, \<open>check_kern_pgdir\<close>, \<open>check_page_installed_pgdir\<close>, with the
  message of \<^verbatim>\<open>i386_detect_memory\<close>, whose other statements are in \<^verbatim>\<open>PageAlloc\<close>. A
  failed \<^verbatim>\<open>assert\<close> is a \<open>Panic\<close> with the asserted text. A walk along the free list that does
  not end is \<open>Endless\<close>.
\<close>

section \<open>Walking the free list\<close>

text \<open>\<^verbatim>\<open>for (pp = page_free_list; pp; pp = pp->pp_link)\<close> with a body that may change the state.\<close>

partial_function (option) free_loop ::
    "(nat \<Rightarrow> 's \<Rightarrow> kerr + 's) \<Rightarrow> ('s \<Rightarrow> nat \<Rightarrow> kerr + nat option) \<Rightarrow> nat option \<Rightarrow> 's \<Rightarrow> (kerr + 's) option" where
  "free_loop body next pp s = (case pp of
     None \<Rightarrow> Some (Inr s)
   | Some i \<Rightarrow> (case body i s of
       Inl e \<Rightarrow> Some (Inl e)
     | Inr s \<Rightarrow> (case next s i of
         Inl e \<Rightarrow> Some (Inl e)
       | Inr q \<Rightarrow> free_loop body next q s)))"

definition each_page ::
    "(nat \<Rightarrow> 's \<Rightarrow> kerr + 's) \<Rightarrow> ('s \<Rightarrow> nat \<Rightarrow> kerr + nat option) \<Rightarrow> nat option \<Rightarrow> 's \<Rightarrow> kerr + 's" where
  "each_page body next pp s = (case free_loop body next pp s of None \<Rightarrow> Inl Endless | Some r \<Rightarrow> r)"

definition link_of :: "'z ks \<Rightarrow> nat \<Rightarrow> kerr + nat option" where
  "link_of s i = bindE (get_page s i) (\<lambda>p. Inr (pp_link p))"

definition count_free :: "'z ks \<Rightarrow> kerr + int" where
  "count_free s = bindE (each_page (\<lambda>i (s, n). Inr (s, n + 1)) (\<lambda>(s, n). link_of s) (page_free_list s) (s, 0))
     (\<lambda>(s, n). Inr n)"

section \<open>check_page_free_list\<close>

text \<open>A \<^verbatim>\<open>struct PageInfo **\<close>: the local \<^verbatim>\<open>pp1\<close> or \<^verbatim>\<open>pp2\<close>, or the link of a page.\<close>

datatype link_slot = Local nat | Link nat

fun store_link :: "link_slot \<Rightarrow> nat option \<Rightarrow> (nat \<Rightarrow> nat option) \<times> 'z ks \<Rightarrow> kerr + (nat \<Rightarrow> nat option) \<times> 'z ks" where
  "store_link (Local k) v (pps, s) = Inr (pps(k := v), s)"
| "store_link (Link i) v (pps, s) = bindE (upd_page i (\<lambda>p. p\<lparr>pp_link := v\<rparr>) s) (\<lambda>s. Inr (pps, s))"

definition split_step ::
    "u32 \<Rightarrow> nat \<Rightarrow> (nat \<Rightarrow> nat option) \<times> (nat \<Rightarrow> link_slot) \<times> 'z ks
       \<Rightarrow> kerr + (nat \<Rightarrow> nat option) \<times> (nat \<Rightarrow> link_slot) \<times> 'z ks" where
  "split_step pdx_limit pp = (\<lambda>(pps, tp, s).
     let pagetype = (if PDX (page2pa pp) \<ge> pdx_limit then 1 else 0) in
     bindE (store_link (tp pagetype) (Some pp) (pps, s)) (\<lambda>(pps, s).
     Inr (pps, tp(pagetype := Link pp), s)))"

definition low_pages_first :: "u32 \<Rightarrow> 'z ks \<Rightarrow> kerr + 'z ks" where
  "low_pages_first pdx_limit s =
     bindE (each_page (split_step pdx_limit) (\<lambda>(pps, tp, s). link_of s) (page_free_list s)
       (\<lambda>_. None, Local, s)) (\<lambda>(pps, tp, s).
     bindE (store_link (tp 1) None (pps, s)) (\<lambda>(pps, s).
     bindE (store_link (tp 0) (pps 1) (pps, s)) (\<lambda>(pps, s).
     Inr (s\<lparr>page_free_list := pps 0\<rparr>))))"

definition trash_page :: "u32 \<Rightarrow> nat \<Rightarrow> 'z ks \<Rightarrow> kerr + 'z ks" where
  "trash_page pdx_limit pp s =
     (if PDX (page2pa pp) < pdx_limit
      then bindE (page2kva s pp) (\<lambda>kva. kmemset kva 0x97 128 s) else Inr s)"

text \<open>
  Since a page is an index, the assertions \<^verbatim>\<open>pp >= pages\<close> and that the distance to \<^verbatim>\<open>pages\<close>
  is a multiple of the size of an entry hold by construction.
\<close>

definition check_free_page :: "u32 \<Rightarrow> nat \<Rightarrow> 'z ks \<times> int \<times> int \<Rightarrow> kerr + 'z ks \<times> int \<times> int" where
  "check_free_page first_free_page pp = (\<lambda>(s, nfree_basemem, nfree_extmem).
     bindE (assertE ''pp < pages + npages'' (of_nat pp < npages s)) (\<lambda>_.
     bindE (assertE ''page2pa(pp) != 0'' (page2pa pp \<noteq> 0)) (\<lambda>_.
     bindE (assertE ''page2pa(pp) != IOPHYSMEM'' (page2pa pp \<noteq> IOPHYSMEM)) (\<lambda>_.
     bindE (assertE ''page2pa(pp) != EXTPHYSMEM - PGSIZE'' (page2pa pp \<noteq> EXTPHYSMEM - PGSIZE)) (\<lambda>_.
     bindE (assertE ''page2pa(pp) != EXTPHYSMEM'' (page2pa pp \<noteq> EXTPHYSMEM)) (\<lambda>_.
     bindE (if page2pa pp < EXTPHYSMEM then Inr True
            else bindE (page2kva s pp) (\<lambda>kva. Inr (kva \<ge> first_free_page))) (\<lambda>ok.
     bindE (assertE ''page2pa(pp) < EXTPHYSMEM || (char *) page2kva(pp) >= first_free_page'' ok) (\<lambda>_.
     if page2pa pp < EXTPHYSMEM then Inr (s, nfree_basemem + 1, nfree_extmem)
     else Inr (s, nfree_basemem, nfree_extmem + 1)))))))))"

definition check_page_free_list :: "machine \<Rightarrow> bool \<Rightarrow> 'z ke \<Rightarrow> kerr + 'z ke" where
  "check_page_free_list mc only_low_memory s =
     (let pdx_limit = (if only_low_memory then 1 else of_nat NPDENTRIES) in
      bindE (if page_free_list s = None then Inl (Panic ([CHR 0x27] @ ''page_free_list'' @ [CHR 0x27] @ '' is a null pointer!''))
             else Inr ()) (\<lambda>_.
      bindE (if only_low_memory then low_pages_first pdx_limit s else Inr s) (\<lambda>s.
      bindE (each_page (trash_page pdx_limit) link_of (page_free_list s) s) (\<lambda>s.
      let (first_free_page, s) = boot_alloc (k_end (syms mc)) 0 s in
      bindE (each_page (check_free_page first_free_page) (\<lambda>(s, _). link_of s) (page_free_list s) (s, 0, 0))
        (\<lambda>(s, nfree_basemem, nfree_extmem).
      bindE (assertE ''nfree_basemem > 0'' (nfree_basemem > 0)) (\<lambda>_.
      bindE (assertE ''nfree_extmem > 0'' (nfree_extmem > 0)) (\<lambda>_.
      kprint mc (''check_page_free_list() succeeded!'' @ NL) [] s)))))))"

section \<open>check_page_alloc\<close>

text \<open>\<^verbatim>\<open>assert((pp = page_alloc(0)))\<close> and \<^verbatim>\<open>assert(!page_alloc(0))\<close>.\<close>

definition assert_page_alloc :: "string \<Rightarrow> 'z ke \<Rightarrow> kerr + nat \<times> 'z ke" where
  "assert_page_alloc msg s = bindE (page_alloc 0 s) (\<lambda>(pp, s). case pp of
     None \<Rightarrow> Inl (Panic msg) | Some pp \<Rightarrow> Inr (pp, s))"

definition assert_no_page :: "'z ke \<Rightarrow> kerr + 'z ke" where
  "assert_no_page s = bindE (page_alloc 0 s) (\<lambda>(pp, s).
     bindE (assertE ''!page_alloc(0)'' (pp = None)) (\<lambda>_. Inr s))"

definition alloc_three :: "'z ke \<Rightarrow> kerr + nat \<times> nat \<times> nat \<times> 'z ke" where
  "alloc_three s =
     bindE (assert_page_alloc ''(pp0 = page_alloc(0))'' s) (\<lambda>(pp0, s).
     bindE (assert_page_alloc ''(pp1 = page_alloc(0))'' s) (\<lambda>(pp1, s).
     bindE (assert_page_alloc ''(pp2 = page_alloc(0))'' s) (\<lambda>(pp2, s).
     bindE (assertE ''pp1 && pp1 != pp0'' (pp1 \<noteq> pp0)) (\<lambda>_.
     bindE (assertE ''pp2 && pp2 != pp1 && pp2 != pp0'' (pp2 \<noteq> pp1 \<and> pp2 \<noteq> pp0)) (\<lambda>_.
     Inr (pp0, pp1, pp2, s))))))"

definition kbyte_at :: "'z ks \<Rightarrow> u32 \<Rightarrow> kerr + u8" where
  "kbyte_at s a = (if a < KERNBASE then Inl (Fault a) else Inr (mem s (a - KERNBASE)))"

definition check_page_alloc :: "machine \<Rightarrow> 'z ke \<Rightarrow> kerr + 'z ke" where
  "check_page_alloc mc s =
     bindE (if pages_kva s = 0 then Inl (Panic ([CHR 0x27] @ ''pages'' @ [CHR 0x27] @ '' is a null pointer!'')) else Inr ()) (\<lambda>_.
     bindE (count_free s) (\<lambda>nfree.
     bindE (alloc_three s) (\<lambda>(pp0, pp1, pp2, s).
     bindE (assertE ''page2pa(pp0) < npages*PGSIZE'' (page2pa pp0 < npages s * PGSIZE)) (\<lambda>_.
     bindE (assertE ''page2pa(pp1) < npages*PGSIZE'' (page2pa pp1 < npages s * PGSIZE)) (\<lambda>_.
     bindE (assertE ''page2pa(pp2) < npages*PGSIZE'' (page2pa pp2 < npages s * PGSIZE)) (\<lambda>_.
     let fl = page_free_list s; s = s\<lparr>page_free_list := None\<rparr> in
     bindE (assert_no_page s) (\<lambda>s.
     bindE (page_free pp0 s) (\<lambda>s.
     bindE (page_free pp1 s) (\<lambda>s.
     bindE (page_free pp2 s) (\<lambda>s.
     bindE (alloc_three s) (\<lambda>(pp0, pp1, pp2, s).
     bindE (assert_no_page s) (\<lambda>s.
     bindE (page2kva s pp0) (\<lambda>kva.
     bindE (kmemset kva 1 PGSIZE s) (\<lambda>s.
     bindE (page_free pp0 s) (\<lambda>s.
     bindE (page_alloc ALLOC_ZERO s) (\<lambda>(pp, s).
     bindE (assertE ''(pp = page_alloc(ALLOC_ZERO))'' (pp \<noteq> None)) (\<lambda>_.
     bindE (assertE ''pp && pp0 == pp'' (pp = Some pp0)) (\<lambda>_.
     bindE (page2kva s pp0) (\<lambda>c.
     bindE (foldE (\<lambda>i _. bindE (kbyte_at s (c + of_nat i)) (\<lambda>b. assertE ''c[i] == 0'' (b = 0))) [0..<4096] ()) (\<lambda>_.
     let s = s\<lparr>page_free_list := fl\<rparr> in
     bindE (page_free pp0 s) (\<lambda>s.
     bindE (page_free pp1 s) (\<lambda>s.
     bindE (page_free pp2 s) (\<lambda>s.
     bindE (count_free s) (\<lambda>left.
     bindE (assertE ''nfree == 0'' (nfree - left = 0)) (\<lambda>_.
     kprint mc (''check_page_alloc() succeeded!'' @ NL) [] s)))))))))))))))))))))))))"

section \<open>check_kern_pgdir\<close>

text \<open>The values of \<^verbatim>\<open>i\<close> in \<^verbatim>\<open>for (i = 0; i < n; i += PGSIZE)\<close>.\<close>

definition page_offsets :: "u32 \<Rightarrow> u32 list" where
  "page_offsets n = map (\<lambda>k. of_nat k * PGSIZE) [0..<(unat n + 4095) div 4096]"

definition SIZEOF_PAGEINFO :: u32 where "SIZEOF_PAGEINFO = 8"
definition SIZEOF_ENV :: u32 where "SIZEOF_ENV = 96"

definition check_region :: "u32 \<Rightarrow> u32 \<Rightarrow> u32 \<Rightarrow> (u32 \<Rightarrow> kerr + u32) \<Rightarrow> string \<Rightarrow> 'z ks \<Rightarrow> kerr + unit" where
  "check_region pgdir va n pa msg s =
     foldE (\<lambda>i _. bindE (check_va2pa pgdir (va + i) s) (\<lambda>found.
       bindE (pa i) (\<lambda>expected. assertE msg (found = expected)))) (page_offsets n) ()"

definition check_pde :: "u32 \<Rightarrow> nat \<Rightarrow> 'z ks \<Rightarrow> kerr + unit" where
  "check_pde pgdir i s =
     bindE (kload s (pgdir + 4 * of_nat i)) (\<lambda>pde.
     if of_nat i = PDX UVPT \<or> of_nat i = PDX (KSTACKTOP - 1) \<or> of_nat i = PDX UPAGES \<or> of_nat i = PDX UENVS
     then assertE ''pgdir[i] & PTE_P'' (pde AND PTE_P \<noteq> 0)
     else if of_nat i \<ge> PDX KERNBASE
     then bindE (assertE ''pgdir[i] & PTE_P'' (pde AND PTE_P \<noteq> 0)) (\<lambda>_.
          assertE ''pgdir[i] & PTE_W'' (pde AND PTE_W \<noteq> 0))
     else assertE ''pgdir[i] == 0'' (pde = 0))"

text \<open>\<open>envs_ptr\<close> is the value of the C variable \<^verbatim>\<open>envs\<close>, \<open>bootstack\<close> the address of the boot stack.\<close>

definition check_kern_pgdir :: "machine \<Rightarrow> u32 \<Rightarrow> u32 \<Rightarrow> 'z ke \<Rightarrow> kerr + 'z ke" where
  "check_kern_pgdir mc envs_ptr bootstack s =
     (let pgdir = kern_pgdir s in
      bindE (check_region pgdir UPAGES (ROUNDUP (npages s * SIZEOF_PAGEINFO) PGSIZE)
        (\<lambda>i. bindE (PADDR (pages_kva s)) (\<lambda>pa. Inr (pa + i))) ''check_va2pa(pgdir, UPAGES + i) == PADDR(pages) + i'' s) (\<lambda>_.
      bindE (check_region pgdir UENVS (ROUNDUP (NENV * SIZEOF_ENV) PGSIZE)
        (\<lambda>i. bindE (PADDR envs_ptr) (\<lambda>pa. Inr (pa + i))) ''check_va2pa(pgdir, UENVS + i) == PADDR(envs) + i'' s) (\<lambda>_.
      bindE (check_region pgdir KERNBASE (npages s * PGSIZE) Inr ''check_va2pa(pgdir, KERNBASE + i) == i'' s) (\<lambda>_.
      bindE (check_region pgdir (KSTACKTOP - KSTKSIZE) KSTKSIZE
        (\<lambda>i. bindE (PADDR bootstack) (\<lambda>pa. Inr (pa + i))) ''check_va2pa(pgdir, KSTACKTOP - KSTKSIZE + i) == PADDR(bootstack) + i'' s) (\<lambda>_.
      bindE (check_va2pa pgdir (KSTACKTOP - PTSIZE) s) (\<lambda>pa.
      bindE (assertE ''check_va2pa(pgdir, KSTACKTOP - PTSIZE) == ~0'' (pa = NOT 0)) (\<lambda>_.
      bindE (foldE (\<lambda>i _. check_pde pgdir i s) [0..<NPDENTRIES] ()) (\<lambda>_.
      kprint mc (''check_kern_pgdir() succeeded!'' @ NL) [] s))))))))"

section \<open>check_page\<close>

definition assert_insert :: "nat \<Rightarrow> u32 \<Rightarrow> u32 \<Rightarrow> (int \<Rightarrow> bool) \<Rightarrow> string \<Rightarrow> 'z ke \<Rightarrow> kerr + 'z ke" where
  "assert_insert pp va perm P msg s =
     bindE (page_insert (kern_pgdir s) pp va perm s) (\<lambda>(r, s). bindE (assertE msg (P r)) (\<lambda>_. Inr s))"

definition assert_va2pa :: "u32 \<Rightarrow> u32 \<Rightarrow> string \<Rightarrow> 'z ke \<Rightarrow> kerr + unit" where
  "assert_va2pa va pa msg s = bindE (check_va2pa (kern_pgdir s) va s) (\<lambda>found. assertE msg (found = pa))"

definition assert_ref :: "nat \<Rightarrow> u16 \<Rightarrow> string \<Rightarrow> 'z ke \<Rightarrow> kerr + unit" where
  "assert_ref pp n msg s = bindE (get_page s pp) (\<lambda>p. assertE msg (pp_ref p = n))"

definition assert_pde_page :: "nat \<Rightarrow> 'z ke \<Rightarrow> kerr + unit" where
  "assert_pde_page pp0 s = bindE (kload s (kern_pgdir s)) (\<lambda>pde.
     assertE ''PTE_ADDR(kern_pgdir[0]) == page2pa(pp0)'' (PTE_ADDR pde = page2pa pp0))"

text \<open>\<^verbatim>\<open>*pgdir_walk(kern_pgdir, (void *) PGSIZE, 0)\<close>\<close>

definition walked_pte :: "'z ke \<Rightarrow> kerr + u32 \<times> 'z ke" where
  "walked_pte s = bindE (pgdir_walk (kern_pgdir s) PGSIZE False s) (\<lambda>(pte, s).
     bindE (kload s pte) (\<lambda>v. Inr (v, s)))"

definition assert_pte :: "(u32 \<Rightarrow> bool) \<Rightarrow> string \<Rightarrow> 'z ke \<Rightarrow> kerr + 'z ke" where
  "assert_pte P msg s = bindE (walked_pte s) (\<lambda>(v, s). bindE (assertE msg (P v)) (\<lambda>_. Inr s))"

definition check_page_map :: "nat \<Rightarrow> nat \<Rightarrow> nat \<Rightarrow> 'z ke \<Rightarrow> kerr + 'z ke" where
  "check_page_map pp0 pp1 pp2 s =
     bindE (page_lookup (kern_pgdir s) 0 s) (\<lambda>(r, s).
     bindE (assertE ''page_lookup(kern_pgdir, (void *) 0x0, &ptep) == NULL'' (r = None)) (\<lambda>_.
     bindE (assert_insert pp1 0 PTE_W (\<lambda>r. r < 0) ''page_insert(kern_pgdir, pp1, 0x0, PTE_W) < 0'' s) (\<lambda>s.
     bindE (page_free pp0 s) (\<lambda>s.
     bindE (assert_insert pp1 0 PTE_W (\<lambda>r. r = 0) ''page_insert(kern_pgdir, pp1, 0x0, PTE_W) == 0'' s) (\<lambda>s.
     bindE (assert_pde_page pp0 s) (\<lambda>_.
     bindE (assert_va2pa 0 (page2pa pp1) ''check_va2pa(kern_pgdir, 0x0) == page2pa(pp1)'' s) (\<lambda>_.
     bindE (assert_ref pp1 1 ''pp1->pp_ref == 1'' s) (\<lambda>_.
     bindE (assert_ref pp0 1 ''pp0->pp_ref == 1'' s) (\<lambda>_.
     bindE (assert_insert pp2 PGSIZE PTE_W (\<lambda>r. r = 0) ''page_insert(kern_pgdir, pp2, (void*) PGSIZE, PTE_W) == 0'' s) (\<lambda>s.
     bindE (assert_va2pa PGSIZE (page2pa pp2) ''check_va2pa(kern_pgdir, PGSIZE) == page2pa(pp2)'' s) (\<lambda>_.
     bindE (assert_ref pp2 1 ''pp2->pp_ref == 1'' s) (\<lambda>_.
     bindE (assert_no_page s) (\<lambda>s.
     bindE (assert_insert pp2 PGSIZE PTE_W (\<lambda>r. r = 0) ''page_insert(kern_pgdir, pp2, (void*) PGSIZE, PTE_W) == 0'' s) (\<lambda>s.
     bindE (assert_va2pa PGSIZE (page2pa pp2) ''check_va2pa(kern_pgdir, PGSIZE) == page2pa(pp2)'' s) (\<lambda>_.
     bindE (assert_ref pp2 1 ''pp2->pp_ref == 1'' s) (\<lambda>_.
     assert_no_page s))))))))))))))))"

definition check_page_perm :: "nat \<Rightarrow> nat \<Rightarrow> nat \<Rightarrow> 'z ke \<Rightarrow> kerr + 'z ke" where
  "check_page_perm pp0 pp1 pp2 s =
     bindE (kload s (kern_pgdir s + 4 * PDX PGSIZE)) (\<lambda>pde.
     bindE (KADDR s (PTE_ADDR pde)) (\<lambda>ptep.
     bindE (pgdir_walk (kern_pgdir s) PGSIZE False s) (\<lambda>(pte, s).
     bindE (assertE ''pgdir_walk(kern_pgdir, (void*)PGSIZE, 0) == ptep+PTX(PGSIZE)'' (pte = ptep + 4 * PTX PGSIZE)) (\<lambda>_.
     bindE (assert_insert pp2 PGSIZE (PTE_W OR PTE_U) (\<lambda>r. r = 0) ''page_insert(kern_pgdir, pp2, (void*) PGSIZE, PTE_W|PTE_U) == 0'' s) (\<lambda>s.
     bindE (assert_va2pa PGSIZE (page2pa pp2) ''check_va2pa(kern_pgdir, PGSIZE) == page2pa(pp2)'' s) (\<lambda>_.
     bindE (assert_ref pp2 1 ''pp2->pp_ref == 1'' s) (\<lambda>_.
     bindE (assert_pte (\<lambda>v. v AND PTE_U \<noteq> 0) ''*pgdir_walk(kern_pgdir, (void*) PGSIZE, 0) & PTE_U'' s) (\<lambda>s.
     bindE (kload s (kern_pgdir s)) (\<lambda>pde.
     bindE (assertE ''kern_pgdir[0] & PTE_U'' (pde AND PTE_U \<noteq> 0)) (\<lambda>_.
     bindE (assert_insert pp2 PGSIZE PTE_W (\<lambda>r. r = 0) ''page_insert(kern_pgdir, pp2, (void*) PGSIZE, PTE_W) == 0'' s) (\<lambda>s.
     bindE (assert_pte (\<lambda>v. v AND PTE_W \<noteq> 0) ''*pgdir_walk(kern_pgdir, (void*) PGSIZE, 0) & PTE_W'' s) (\<lambda>s.
     bindE (assert_pte (\<lambda>v. v AND PTE_U = 0) ''!(*pgdir_walk(kern_pgdir, (void*) PGSIZE, 0) & PTE_U)'' s) (\<lambda>s.
     bindE (assert_insert pp0 PTSIZE PTE_W (\<lambda>r. r < 0) ''page_insert(kern_pgdir, pp0, (void*) PTSIZE, PTE_W) < 0'' s) (\<lambda>s.
     bindE (assert_insert pp1 PGSIZE PTE_W (\<lambda>r. r = 0) ''page_insert(kern_pgdir, pp1, (void*) PGSIZE, PTE_W) == 0'' s) (\<lambda>s.
     bindE (assert_pte (\<lambda>v. v AND PTE_U = 0) ''!(*pgdir_walk(kern_pgdir, (void*) PGSIZE, 0) & PTE_U)'' s) (\<lambda>s.
     bindE (assert_va2pa 0 (page2pa pp1) ''check_va2pa(kern_pgdir, 0) == page2pa(pp1)'' s) (\<lambda>_.
     bindE (assert_va2pa PGSIZE (page2pa pp1) ''check_va2pa(kern_pgdir, PGSIZE) == page2pa(pp1)'' s) (\<lambda>_.
     bindE (assert_ref pp1 2 ''pp1->pp_ref == 2'' s) (\<lambda>_.
     bindE (assert_ref pp2 0 ''pp2->pp_ref == 0'' s) (\<lambda>_.
     Inr s))))))))))))))))))))"

definition assert_alloc_is :: "nat \<Rightarrow> string \<Rightarrow> 'z ke \<Rightarrow> kerr + 'z ke" where
  "assert_alloc_is expected msg s = bindE (page_alloc 0 s) (\<lambda>(pp, s).
     bindE (assertE msg (pp = Some expected)) (\<lambda>_. Inr s))"

definition check_page_unmap :: "nat \<Rightarrow> nat \<Rightarrow> nat \<Rightarrow> 'z ke \<Rightarrow> kerr + 'z ke" where
  "check_page_unmap pp0 pp1 pp2 s =
     bindE (assert_alloc_is pp2 ''(pp = page_alloc(0)) && pp == pp2'' s) (\<lambda>s.
     bindE (page_remove (kern_pgdir s) 0 s) (\<lambda>s.
     bindE (assert_va2pa 0 (NOT 0) ''check_va2pa(kern_pgdir, 0x0) == ~0'' s) (\<lambda>_.
     bindE (assert_va2pa PGSIZE (page2pa pp1) ''check_va2pa(kern_pgdir, PGSIZE) == page2pa(pp1)'' s) (\<lambda>_.
     bindE (assert_ref pp1 1 ''pp1->pp_ref == 1'' s) (\<lambda>_.
     bindE (assert_ref pp2 0 ''pp2->pp_ref == 0'' s) (\<lambda>_.
     bindE (assert_insert pp1 PGSIZE 0 (\<lambda>r. r = 0) ''page_insert(kern_pgdir, pp1, (void*) PGSIZE, 0) == 0'' s) (\<lambda>s.
     bindE (get_page s pp1) (\<lambda>p.
     bindE (assertE ''pp1->pp_ref'' (pp_ref p \<noteq> 0)) (\<lambda>_.
     bindE (assertE ''pp1->pp_link == NULL'' (pp_link p = None)) (\<lambda>_.
     bindE (page_remove (kern_pgdir s) PGSIZE s) (\<lambda>s.
     bindE (assert_va2pa 0 (NOT 0) ''check_va2pa(kern_pgdir, 0x0) == ~0'' s) (\<lambda>_.
     bindE (assert_va2pa PGSIZE (NOT 0) ''check_va2pa(kern_pgdir, PGSIZE) == ~0'' s) (\<lambda>_.
     bindE (assert_ref pp1 0 ''pp1->pp_ref == 0'' s) (\<lambda>_.
     bindE (assert_ref pp2 0 ''pp2->pp_ref == 0'' s) (\<lambda>_.
     bindE (assert_alloc_is pp1 ''(pp = page_alloc(0)) && pp == pp1'' s) (\<lambda>s.
     assert_no_page s))))))))))))))))"

text \<open>\<^verbatim>\<open>assert(pp0->pp_ref == 1); pp0->pp_ref = 0\<close> after the table was taken out of the directory.\<close>

definition take_back :: "nat \<Rightarrow> 'z ke \<Rightarrow> kerr + 'z ke" where
  "take_back pp0 s =
     bindE (assert_pde_page pp0 s) (\<lambda>_.
     bindE (kstore (kern_pgdir s) 0 s) (\<lambda>s.
     bindE (assert_ref pp0 1 ''pp0->pp_ref == 1'' s) (\<lambda>_.
     upd_page pp0 (\<lambda>p. p\<lparr>pp_ref := 0\<rparr>) s)))"

definition check_page_walk :: "nat \<Rightarrow> 'z ke \<Rightarrow> kerr + 'z ke" where
  "check_page_walk pp0 s =
     bindE (page_free pp0 s) (\<lambda>s.
     let va = PGSIZE * of_nat NPDENTRIES + PGSIZE in
     bindE (pgdir_walk (kern_pgdir s) va True s) (\<lambda>(ptep, s).
     bindE (kload s (kern_pgdir s + 4 * PDX va)) (\<lambda>pde.
     bindE (KADDR s (PTE_ADDR pde)) (\<lambda>ptep1.
     bindE (assertE ''ptep == ptep1 + PTX(va)'' (ptep = ptep1 + 4 * PTX va)) (\<lambda>_.
     bindE (kstore (kern_pgdir s + 4 * PDX va) 0 s) (\<lambda>s.
     bindE (upd_page pp0 (\<lambda>p. p\<lparr>pp_ref := 0\<rparr>) s) (\<lambda>s.
     bindE (page2kva s pp0) (\<lambda>kva.
     bindE (kmemset kva 0xFF PGSIZE s) (\<lambda>s.
     bindE (page_free pp0 s) (\<lambda>s.
     bindE (pgdir_walk (kern_pgdir s) 0 True s) (\<lambda>(_, s).
     bindE (page2kva s pp0) (\<lambda>ptep.
     bindE (foldE (\<lambda>i _. bindE (kload s (ptep + 4 * of_nat i)) (\<lambda>pte.
        assertE ''(ptep[i] & PTE_P) == 0'' (pte AND PTE_P = 0))) [0..<NPTENTRIES] ()) (\<lambda>_.
     bindE (kstore (kern_pgdir s) 0 s) (\<lambda>s.
     upd_page pp0 (\<lambda>p. p\<lparr>pp_ref := 0\<rparr>) s))))))))))))))"

definition check_page :: "machine \<Rightarrow> 'z ke \<Rightarrow> kerr + 'z ke" where
  "check_page mc s =
     bindE (alloc_three s) (\<lambda>(pp0, pp1, pp2, s).
     let fl = page_free_list s; s = s\<lparr>page_free_list := None\<rparr> in
     bindE (assert_no_page s) (\<lambda>s.
     bindE (check_page_map pp0 pp1 pp2 s) (\<lambda>s.
     bindE (check_page_perm pp0 pp1 pp2 s) (\<lambda>s.
     bindE (check_page_unmap pp0 pp1 pp2 s) (\<lambda>s.
     bindE (take_back pp0 s) (\<lambda>s.
     bindE (check_page_walk pp0 s) (\<lambda>s.
     let s = s\<lparr>page_free_list := fl\<rparr> in
     bindE (page_free pp0 s) (\<lambda>s.
     bindE (page_free pp1 s) (\<lambda>s.
     bindE (page_free pp2 s) (\<lambda>s.
     kprint mc (''check_page() succeeded!'' @ NL) [] s))))))))))"

section \<open>Access through the page tables\<close>

text \<open>
  The processor's translation of a linear address: a cached entry if there is one, else the
  walk from \<^verbatim>\<open>cr3\<close>, which is then cached; an entry is writable if both levels say so.
\<close>

definition mmu_walk :: "memory \<Rightarrow> u32 \<Rightarrow> u32 \<Rightarrow> u32 option" where
  "mmu_walk m root va =
     (let pde = load32 m (PTE_ADDR root + 4 * PDX va) in
      if \<not> present pde then None
      else let pte = load32 m (PTE_ADDR pde + 4 * PTX va) in
        if \<not> present pte then None
        else Some (if pde AND PTE_W = 0 then pte AND NOT PTE_W else pte))"

definition translate :: "u32 \<Rightarrow> 'z ks \<Rightarrow> kerr + u32 \<times> 'z ks" where
  "translate va s =
     (case (case tlb s (PGNUM va) of Some e \<Rightarrow> Some e | None \<Rightarrow> mmu_walk (mem s) (cr3 s) va) of
        None \<Rightarrow> Inl (Fault va)
      | Some e \<Rightarrow> Inr (e, s\<lparr>tlb := (tlb s)(PGNUM va := Some e)\<rparr>))"

definition vload :: "u32 \<Rightarrow> 'z ks \<Rightarrow> kerr + u32 \<times> 'z ks" where
  "vload va s = bindE (translate va s) (\<lambda>(e, s). Inr (load32 (mem s) (PTE_ADDR e + PGOFF va), s))"

definition vstore :: "u32 \<Rightarrow> u32 \<Rightarrow> 'z ks \<Rightarrow> kerr + 'z ks" where
  "vstore va v s = bindE (translate va s) (\<lambda>(e, s).
     if e AND PTE_W = 0 then Inl (Fault va)
     else Inr (s\<lparr>mem := store32 (mem s) (PTE_ADDR e + PGOFF va) v\<rparr>))"

section \<open>check_page_installed_pgdir\<close>

definition assert_vload :: "u32 \<Rightarrow> u32 \<Rightarrow> string \<Rightarrow> 'z ke \<Rightarrow> kerr + 'z ke" where
  "assert_vload va v msg s = bindE (vload va s) (\<lambda>(found, s). bindE (assertE msg (found = v)) (\<lambda>_. Inr s))"

definition fill_page :: "nat \<Rightarrow> u32 \<Rightarrow> 'z ke \<Rightarrow> kerr + 'z ke" where
  "fill_page pp c s = bindE (page2kva s pp) (\<lambda>kva. kmemset kva c PGSIZE s)"

definition check_page_installed_pgdir :: "machine \<Rightarrow> 'z ke \<Rightarrow> kerr + 'z ke" where
  "check_page_installed_pgdir mc s =
     bindE (assert_page_alloc ''(pp0 = page_alloc(0))'' s) (\<lambda>(pp0, s).
     bindE (assert_page_alloc ''(pp1 = page_alloc(0))'' s) (\<lambda>(pp1, s).
     bindE (assert_page_alloc ''(pp2 = page_alloc(0))'' s) (\<lambda>(pp2, s).
     bindE (page_free pp0 s) (\<lambda>s.
     bindE (fill_page pp1 1 s) (\<lambda>s.
     bindE (fill_page pp2 2 s) (\<lambda>s.
     bindE (page_insert (kern_pgdir s) pp1 PGSIZE PTE_W s) (\<lambda>(_, s).
     bindE (assert_ref pp1 1 ''pp1->pp_ref == 1'' s) (\<lambda>_.
     bindE (assert_vload PGSIZE 0x01010101 ''*(uint32_t *)PGSIZE == 0x01010101U'' s) (\<lambda>s.
     bindE (page_insert (kern_pgdir s) pp2 PGSIZE PTE_W s) (\<lambda>(_, s).
     bindE (assert_vload PGSIZE 0x02020202 ''*(uint32_t *)PGSIZE == 0x02020202U'' s) (\<lambda>s.
     bindE (assert_ref pp2 1 ''pp2->pp_ref == 1'' s) (\<lambda>_.
     bindE (assert_ref pp1 0 ''pp1->pp_ref == 0'' s) (\<lambda>_.
     bindE (vstore PGSIZE 0x03030303 s) (\<lambda>s.
     bindE (page2kva s pp2) (\<lambda>kva.
     bindE (kload s kva) (\<lambda>v.
     bindE (assertE ''*(uint32_t *)page2kva(pp2) == 0x03030303U'' (v = 0x03030303)) (\<lambda>_.
     bindE (page_remove (kern_pgdir s) PGSIZE s) (\<lambda>s.
     bindE (assert_ref pp2 0 ''pp2->pp_ref == 0'' s) (\<lambda>_.
     bindE (take_back pp0 s) (\<lambda>s.
     bindE (page_free pp0 s) (\<lambda>s.
     kprint mc (''check_page_installed_pgdir() succeeded!'' @ NL) [] s)))))))))))))))))))))"

section \<open>mem_init\<close>

definition CR0_PE :: u32 where "CR0_PE = 0x00000001"
definition CR0_MP :: u32 where "CR0_MP = 0x00000002"
definition CR0_EM :: u32 where "CR0_EM = 0x00000004"
definition CR0_TS :: u32 where "CR0_TS = 0x00000008"
definition CR0_NE :: u32 where "CR0_NE = 0x00000020"
definition CR0_WP :: u32 where "CR0_WP = 0x00010000"
definition CR0_AM :: u32 where "CR0_AM = 0x00040000"
definition CR0_PG :: u32 where "CR0_PG = 0x80000000"

text \<open>
  The first half of \<^verbatim>\<open>mem_init\<close>: the kernel's directory and the page array, whose entries the
  model keeps in \<open>pages\<close> rather than in memory.
\<close>

definition boot_structures :: "machine \<Rightarrow> 'z ke \<Rightarrow> kerr + 'z ke" where
  "boot_structures mc s =
     (let (pgdir, s) = boot_alloc (k_end (syms mc)) PGSIZE s;
          s = s\<lparr>kern_pgdir := pgdir\<rparr>
      in bindE (kmemset (kern_pgdir s) 0 PGSIZE s) (\<lambda>s.
         bindE (PADDR (kern_pgdir s)) (\<lambda>pa.
         bindE (kstore (kern_pgdir s + 4 * PDX UVPT) (pa OR PTE_U OR PTE_P) s) (\<lambda>s.
         let (kva, s) = boot_alloc (k_end (syms mc)) (npages s * SIZEOF_PAGEINFO) s;
             s = s\<lparr>pages_kva := kva\<rparr> in
         bindE (kmemset (pages_kva s) 0 (npages s * SIZEOF_PAGEINFO) s) (\<lambda>s.
         Inr (s\<lparr>pages := replicate (unat (npages s)) \<lparr>pp_link = None, pp_ref = 0\<rparr>\<rparr>))))))"

text \<open>The three static mappings.\<close>

definition map_kernel :: "u32 \<Rightarrow> 'z ke \<Rightarrow> kerr + 'z ke" where
  "map_kernel bootstack s =
     bindE (PADDR (pages_kva s)) (\<lambda>pa.
     bindE (boot_map_region (kern_pgdir s) UPAGES PTSIZE pa (PTE_U OR PTE_P) s) (\<lambda>s.
     bindE (PADDR bootstack) (\<lambda>pa.
     bindE (boot_map_region (kern_pgdir s) (KSTACKTOP - KSTKSIZE) KSTKSIZE pa (PTE_W OR PTE_P) s) (\<lambda>s.
     boot_map_region (kern_pgdir s) KERNBASE (0xffffffff - KERNBASE) 0 (PTE_W OR PTE_P) s))))"

text \<open>The last statement of \<^verbatim>\<open>i386_detect_memory\<close>, in kilobytes.\<close>

definition report_memory :: "machine \<Rightarrow> (u32 \<Rightarrow> u8) \<Rightarrow> 'z ke \<Rightarrow> kerr + 'z ke" where
  "report_memory mc cmos s =
     (let (basemem, totalmem) = memory_sizes cmos in
      kprint mc (''Physical memory: %uK available, base = %uK, extended = %uK'' @ NL)
        [totalmem, basemem, totalmem - basemem] s)"

definition mem_init :: "machine \<Rightarrow> (u32 \<Rightarrow> u8) \<Rightarrow> u32 \<Rightarrow> u32 \<Rightarrow> 'z ke \<Rightarrow> kerr + 'z ke" where
  "mem_init mc cmos envs_ptr bootstack s =
     (let s = i386_detect_memory cmos s in
      bindE (report_memory mc cmos s) (\<lambda>s.
      bindE (boot_structures mc s) (\<lambda>s.
      bindE (page_init (k_end (syms mc)) s) (\<lambda>s.
      bindE (check_page_free_list mc True s) (\<lambda>s.
      bindE (check_page_alloc mc s) (\<lambda>s.
      bindE (check_page mc s) (\<lambda>s.
      bindE (map_kernel bootstack s) (\<lambda>s.
      bindE (check_kern_pgdir mc envs_ptr bootstack s) (\<lambda>s.
      bindE (PADDR (kern_pgdir s)) (\<lambda>pa.
      let s = lcr3 pa s in
      bindE (check_page_free_list mc False s) (\<lambda>s.
      let cr0 = rcr0 s;
          cr0 = cr0 OR (CR0_PE OR CR0_PG OR CR0_AM OR CR0_WP OR CR0_NE OR CR0_MP);
          cr0 = cr0 AND NOT (CR0_TS OR CR0_EM);
          s = lcr0 cr0 s in
      check_page_installed_pgdir mc s)))))))))))"

end
