(* ===== verification/SelfTest.thy ===== *)
theory SelfTest
  imports MemInit
begin

text \<open>
  What the self-tests of \<^verbatim>\<open>kern/pmap.c\<close> do on a well-formed memory state: the walks along
  the free list, the reordering of the free list in place, and the check of the allocator.
\<close>

section \<open>Walks along the free list\<close>

definition first_of :: "nat list \<Rightarrow> nat option" where
  "first_of xs = (case xs of [] \<Rightarrow> None | x # _ \<Rightarrow> Some x)"

lemma first_of_simps [simp]: "first_of [] = None" "first_of (x # xs) = Some x"
  by (simp_all add: first_of_def)

lemma linked_first: "linked ps p xs \<Longrightarrow> p = first_of xs"
  by (cases xs) simp_all

text \<open>
  A loop along \<open>xs\<close> keeps an invariant on the pages seen, provided each body leads on to the
  page that follows in \<open>xs\<close>.
\<close>

lemma each_page_run:
  assumes start: "I [] s" and p: "p = first_of xs"
    and step: "\<And>seen x rest s. xs = seen @ x # rest \<Longrightarrow> I seen s
      \<Longrightarrow> \<exists>s'. body x s = Inr s' \<and> nxt s' x = Inr (first_of rest) \<and> I (seen @ [x]) s'"
  shows "\<exists>s'. each_page body nxt p s = Inr s' \<and> I xs s'"
proof -
  have "\<exists>s'. free_loop body nxt (first_of rest) s = Some (Inr s') \<and> I xs s'"
    if "xs = seen @ rest" "I seen s" for seen rest s
    using that
  proof (induction rest arbitrary: seen s)
    case Nil
    then show ?case by (subst free_loop.simps) simp
  next
    case (Cons x rest)
    obtain s' where s': "body x s = Inr s'" "nxt s' x = Inr (first_of rest)" "I (seen @ [x]) s'"
      using step [OF Cons.prems] by blast
    have "\<exists>t. free_loop body nxt (first_of rest) s' = Some (Inr t) \<and> I xs t"
      by (rule Cons.IH [OF _ s'(3)]) (simp add: Cons.prems(1))
    then show ?case using s' by (subst free_loop.simps) simp
  qed
  from this [of "[]" xs s] show ?thesis using start by (auto simp: each_page_def p)
qed

text \<open>The link of a page on the list.\<close>

lemma linked_link:
  assumes "linked ps p (seen @ x # rest)"
  shows "x < length ps" "pp_link (ps ! x) = first_of rest"
  using assms linked_first by (induction seen arbitrary: p) auto

lemma link_of_list:
  assumes "linked (pages s) p (seen @ x # rest)"
  shows "link_of s x = Inr (first_of rest)"
  using linked_link [OF assms] by (simp add: link_of_def get_page_def)

lemma count_free_list:
  assumes "linked (pages s) (page_free_list s) xs"
  shows "count_free s = Inr (int (length xs))"
proof -
  have "\<exists>r. each_page (\<lambda>i (s, n). Inr (s, n + 1)) (\<lambda>(s, n). link_of s) (page_free_list s) (s, 0) = Inr r
      \<and> r = (s, int (length xs))"
    by (rule each_page_run [where xs = xs and I = "\<lambda>seen r. r = (s, int (length seen))", OF _ linked_first [OF assms]])
      (use assms in \<open>auto simp: link_of_list\<close>)
  then show ?thesis by (auto simp: count_free_def)
qed

section \<open>Low pages first\<close>

definition follows :: "page_info list \<Rightarrow> nat \<Rightarrow> nat \<Rightarrow> bool" where
  "follows ps a b \<longleftrightarrow> pp_link (ps ! a) = Some b"

lemma linked_successively:
  assumes "xs \<noteq> []"
  shows "linked ps p xs \<longleftrightarrow> p = Some (hd xs) \<and> (\<forall>x \<in> set xs. x < length ps)
    \<and> successively (follows ps) xs \<and> pp_link (ps ! last xs) = None"
  using assms
proof (induction xs arbitrary: p)
  case (Cons x xs)
  then show ?case by (cases xs) (auto simp: follows_def)
qed simp

lemma follows_upd:
  "i \<notin> set (butlast xs) \<Longrightarrow> successively (follows (ps[i := p])) xs = successively (follows ps) xs"
proof (induction xs)
  case (Cons x xs)
  then show ?case by (cases xs) (auto simp: follows_def)
qed simp

text \<open>The two chains of \<open>check_page_free_list\<close>: the pages below the limit and the others.\<close>

definition side :: "u32 \<Rightarrow> nat \<Rightarrow> nat" where
  "side lim pp = (if PDX (page2pa pp) \<ge> lim then 1 else 0)"

definition chain :: "u32 \<Rightarrow> nat \<Rightarrow> nat list \<Rightarrow> nat list" where
  "chain lim k xs = filter (\<lambda>x. side lim x = k) xs"

lemma chain_simps: "chain lim k [] = []" "chain lim k (xs @ ys) = chain lim k xs @ chain lim k ys"
  "chain lim k (x # xs) = (if side lim x = k then x # chain lim k xs else chain lim k xs)"
  "set (chain lim k xs) = {x \<in> set xs. side lim x = k}"
  by (auto simp: chain_def)

lemma side_cases: "side lim x = 0 \<or> side lim x = 1"
  by (simp add: side_def)

text \<open>The end of a chain: its local variable while it is empty, else the link of its last page.\<close>

definition tail_slot :: "nat list \<Rightarrow> nat \<Rightarrow> link_slot" where
  "tail_slot xs k = (if xs = [] then Local k else Link (last xs))"

text \<open>\<open>hang C v ps\<close> links the last page of the chain \<open>C\<close>, if there is one, to \<open>v\<close>.\<close>

definition hang :: "nat list \<Rightarrow> nat option \<Rightarrow> page_info list \<Rightarrow> page_info list" where
  "hang C v ps = (if C = [] then ps else ps[last C := (ps ! last C)\<lparr>pp_link := v\<rparr>])"

lemma length_hang [simp]: "length (hang C v ps) = length ps"
  by (simp add: hang_def)

lemma hang_ref: "i < length ps \<Longrightarrow> pp_ref (hang C v ps ! i) = pp_ref (ps ! i)"
  by (cases "i = last C") (simp_all add: hang_def)

lemma hang_other: "(C \<noteq> [] \<Longrightarrow> i \<noteq> last C) \<Longrightarrow> hang C v ps ! i = ps ! i"
  by (auto simp: hang_def)

lemma hang_last: "C \<noteq> [] \<Longrightarrow> last C < length ps \<Longrightarrow> pp_link (hang C v ps ! last C) = v"
  by (simp add: hang_def)

lemma follows_hang:
  "(C \<noteq> [] \<Longrightarrow> last C \<notin> set (butlast D)) \<Longrightarrow> successively (follows (hang C v ps)) D = successively (follows ps) D"
  by (cases "C = []") (simp_all add: hang_def follows_upd)

lemma linked_hang: "(C \<noteq> [] \<Longrightarrow> last C \<notin> set D) \<Longrightarrow> linked (hang C v ps) p D = linked ps p D"
  by (cases "C = []") (simp_all add: hang_def linked_upd)

lemma store_tail:
  assumes "C \<noteq> [] \<Longrightarrow> last C < length ps"
  shows "store_link (tail_slot C k) v (pps, s\<lparr>pages := ps\<rparr>)
    = Inr (if C = [] then pps(k := v) else pps, s\<lparr>pages := hang C v ps\<rparr>)"
  using assms by (simp add: tail_slot_def upd_page_def hang_def)

lemma last_notin_butlast: "distinct xs \<Longrightarrow> xs \<noteq> [] \<Longrightarrow> last xs \<notin> set (butlast xs)"
  by (metis append_butlast_last_id distinct_append disjoint_iff list.set_intros(1))

lemma chain_butlast_side: "i \<in> set (butlast (chain lim k xs)) \<Longrightarrow> i \<in> set xs \<and> side lim i = k"
  using in_set_butlastD [of i "chain lim k xs"] by (simp add: chain_simps)

lemma chain_last_side: "chain lim k xs \<noteq> [] \<Longrightarrow> last (chain lim k xs) \<in> set xs \<and> side lim (last (chain lim k xs)) = k"
  using last_in_set [of "chain lim k xs"] by (simp add: chain_simps)

lemma chain_last_apart: "distinct xs \<Longrightarrow> chain lim k xs \<noteq> [] \<Longrightarrow> last (chain lim k xs) \<notin> set (butlast (chain lim k' xs))"
proof
  assume a: "distinct xs" "chain lim k xs \<noteq> []" "last (chain lim k xs) \<in> set (butlast (chain lim k' xs))"
  then have "k' = k" using chain_last_side [OF a(2)] chain_butlast_side [OF a(3)] by simp
  moreover have "distinct (chain lim k xs)" using a(1) by (simp add: chain_def)
  ultimately show False using last_notin_butlast [OF _ a(2)] a(3) by simp
qed

text \<open>The pages seen are linked into their chains; the others, and the last of each, are as before.\<close>

definition chained :: "u32 \<Rightarrow> page_info list \<Rightarrow> nat list \<Rightarrow> page_info list \<Rightarrow> bool" where
  "chained lim ps0 seen ps \<longleftrightarrow> length ps = length ps0
     \<and> (\<forall>i < length ps. pp_ref (ps ! i) = pp_ref (ps0 ! i))
     \<and> (\<forall>i. (\<forall>k \<in> {0, 1}. i \<notin> set (butlast (chain lim k seen))) \<longrightarrow> ps ! i = ps0 ! i)
     \<and> (\<forall>k \<in> {0, 1}. successively (follows ps) (chain lim k seen))"

lemma chained_snoc:
  assumes ch: "chained lim ps0 seen ps" and dist: "distinct seen" and bound: "\<forall>i \<in> set seen. i < length ps"
  shows "chained lim ps0 (seen @ [x]) (hang (chain lim (side lim x) seen) (Some x) ps)"
proof -
  let ?C = "\<lambda>k. chain lim k seen" and ?j = "side lim x"
  let ?ps = "hang (?C ?j) (Some x) ps"
  have C': "chain lim k (seen @ [x]) = (if k = ?j then ?C k @ [x] else ?C k)" for k
    by (simp add: chain_simps)
  have "?ps ! i = ps0 ! i" if out: "\<forall>k \<in> {0, 1}. i \<notin> set (butlast (chain lim k (seen @ [x])))" for i
  proof -
    have "i \<notin> set (?C ?j)" using out side_cases [of lim x] unfolding C' by (auto simp: butlast_append)
    then have "?C ?j \<noteq> [] \<Longrightarrow> i \<noteq> last (?C ?j)" and *: "i \<notin> set (butlast (?C ?j))"
      by (auto dest: in_set_butlastD)
    then have "?ps ! i = ps ! i" by (intro hang_other)
    moreover have "i \<notin> set (butlast (?C k))" if "k \<in> {0, 1}" for k
      using bspec [OF out that] * unfolding C' by (cases "k = ?j") simp_all
    ultimately show ?thesis using ch by (simp add: chained_def)
  qed
  moreover have "successively (follows ?ps) (chain lim k (seen @ [x]))" if "k \<in> {0, 1}" for k
  proof -
    have "successively (follows ?ps) (?C k)"
      using ch that chain_last_apart [OF dist, of lim ?j k] by (subst follows_hang) (auto simp: chained_def)
    moreover have "?C ?j \<noteq> [] \<Longrightarrow> follows ?ps (last (?C ?j)) x"
      using hang_last [of "?C ?j" ps "Some x"] chain_last_side [of lim ?j seen] bound by (simp add: follows_def)
    ultimately show ?thesis unfolding C' by (auto simp: successively_append_iff)
  qed
  ultimately show ?thesis using ch by (simp add: chained_def hang_ref)
qed

definition split_inv ::
    "u32 \<Rightarrow> 'z ks \<Rightarrow> nat list \<Rightarrow> (nat \<Rightarrow> nat option) \<times> (nat \<Rightarrow> link_slot) \<times> 'z ks \<Rightarrow> bool" where
  "split_inv lim s seen = (\<lambda>(pps, tp, t).
     (\<exists>ps. t = s\<lparr>pages := ps\<rparr> \<and> chained lim (pages s) seen ps)
     \<and> (\<forall>k \<in> {0, 1}. tp k = tail_slot (chain lim k seen) k
        \<and> (chain lim k seen \<noteq> [] \<longrightarrow> pps k = Some (hd (chain lim k seen)))))"

lemma split_step_inv:
  assumes inv: "split_inv lim s seen r" and xs: "xs = seen @ x # rest"
    and lk: "linked (pages s) (page_free_list s) xs"
  shows "\<exists>r'. split_step lim x r = Inr r' \<and> (case r' of (pps, tp, t) \<Rightarrow> link_of t) x = Inr (first_of rest)
    \<and> split_inv lim s (seen @ [x]) r'"
proof -
  let ?C = "\<lambda>k. chain lim k seen" and ?j = "side lim x"
  obtain pps tp ps where r: "r = (pps, tp, s\<lparr>pages := ps\<rparr>)" and ch: "chained lim (pages s) seen ps"
    and ends: "\<forall>k \<in> {0, 1}. tp k = tail_slot (?C k) k \<and> (?C k \<noteq> [] \<longrightarrow> pps k = Some (hd (?C k)))"
    using inv by (cases r) (auto simp: split_inv_def)
  have dist: "distinct seen" "x \<notin> set seen" using linked_distinct [OF lk] by (simp_all add: xs)
  have len: "length ps = length (pages s)" using ch by (simp add: chained_def)
  have bound: "\<forall>i \<in> set (seen @ [x]). i < length ps" using linked_bound [OF lk] len by (auto simp: xs)
  let ?ps = "hang (?C ?j) (Some x) ps"
  let ?pps = "if ?C ?j = [] then pps(?j := Some x) else pps"
  have new: "chained lim (pages s) (seen @ [x]) ?ps" using bound by (intro chained_snoc [OF ch dist(1)]) simp
  have j: "tp ?j = tail_slot (?C ?j) ?j" using ends side_cases [of lim x] by auto
  have "last (?C ?j) < length ps" if "?C ?j \<noteq> []" using chain_last_side [OF that] bound by simp
  then have step: "split_step lim x r = Inr (?pps, tp(?j := Link x), s\<lparr>pages := ?ps\<rparr>)"
    using j store_tail [of "?C ?j" ps ?j "Some x" pps s] by (simp add: split_step_def r side_def Let_def)
  have "x \<notin> set (butlast (chain lim k (seen @ [x])))" for k
    using dist(2) chain_butlast_side [of x lim k seen] by (auto simp: chain_simps butlast_append dest: in_set_butlastD)
  then have "?ps ! x = pages s ! x" using new by (simp add: chained_def)
  then have "link_of (s\<lparr>pages := ?ps\<rparr>) x = Inr (first_of rest)"
    using bound linked_link [OF lk [unfolded xs]] by (simp add: link_of_def get_page_def)
  moreover have "\<forall>k \<in> {0, 1}. (tp(?j := Link x)) k = tail_slot (chain lim k (seen @ [x])) k
      \<and> (chain lim k (seen @ [x]) \<noteq> [] \<longrightarrow> ?pps k = Some (hd (chain lim k (seen @ [x]))))"
  proof
    fix k :: nat
    assume k: "k \<in> {0, 1}"
    show "(tp(?j := Link x)) k = tail_slot (chain lim k (seen @ [x])) k
      \<and> (chain lim k (seen @ [x]) \<noteq> [] \<longrightarrow> ?pps k = Some (hd (chain lim k (seen @ [x]))))"
      using bspec [OF ends k] by (cases "k = ?j") (simp_all add: chain_simps tail_slot_def)
  qed
  then have "split_inv lim s (seen @ [x]) (?pps, tp(?j := Link x), s\<lparr>pages := ?ps\<rparr>)"
    using new unfolding split_inv_def prod.case by blast
  ultimately show ?thesis using step by auto
qed

lemma linked_append:
  assumes "as \<noteq> [] \<Longrightarrow> (\<forall>x \<in> set as. x < length ps) \<and> successively (follows ps) as \<and> pp_link (ps ! last as) = first_of bs"
    and "linked ps (first_of bs) bs"
  shows "linked ps (first_of (as @ bs)) (as @ bs)"
  using assms(1)
proof (induction as)
  case Nil
  then show ?case using assms(2) by simp
next
  case (Cons a as)
  then show ?case by (cases as) (auto simp: follows_def assms(2))
qed

text \<open>Joining the two chains: the second gets its end, then the first is linked to it.\<close>

lemma chained_join:
  assumes ch: "chained lim ps0 xs ps" and dist: "distinct xs" and bound: "\<forall>i \<in> set xs. i < length ps"
  defines "L \<equiv> chain lim 0 xs" and "H \<equiv> chain lim 1 xs"
  shows "linked (hang L (first_of H) (hang H None ps)) (first_of (L @ H)) (L @ H)"
    and "i \<notin> set xs \<Longrightarrow> hang L (first_of H) (hang H None ps) ! i = ps0 ! i"
proof -
  let ?p1 = "hang H None ps"
  let ?p2 = "hang L (first_of H) ?p1"
  have succ: "successively (follows ps) L" "successively (follows ps) H" using ch by (simp_all add: chained_def L_def H_def)
  have inL: "x \<in> set xs \<and> side lim x = 0" if "x \<in> set L" for x using that by (simp add: L_def chain_simps)
  have inH: "x \<in> set xs \<and> side lim x = 1" if "x \<in> set H" for x using that by (simp add: H_def chain_simps)
  have last: "L \<noteq> [] \<Longrightarrow> last L \<in> set L" "H \<noteq> [] \<Longrightarrow> last H \<in> set H" by simp_all
  have "linked ?p1 (first_of H) H"
  proof (cases "H = []")
    case False
    have "successively (follows ?p1) H"
      using succ(2) chain_last_apart [OF dist, of lim 1 1] by (subst follows_hang) (auto simp: H_def)
    then show ?thesis using False hang_last [OF False, of ps None] inH last(2) bound
      by (subst linked_successively) (auto simp: first_of_def split: list.split)
  qed simp
  then have "linked ?p2 (first_of H) H"
    using inL inH last(1) by (subst linked_hang) fastforce+
  moreover have "successively (follows ?p2) L"
    using succ(1) chain_last_apart [OF dist, of lim _ 0] unfolding L_def H_def
    by (subst follows_hang, simp, subst follows_hang) simp_all
  moreover have "pp_link (?p2 ! last L) = first_of H" if "L \<noteq> []"
    using hang_last [OF that, of ?p1 "first_of H"] inL [OF last(1) [OF that]] bound by simp
  ultimately show "linked ?p2 (first_of (L @ H)) (L @ H)"
    using inL bound by (intro linked_append) auto
  assume i: "i \<notin> set xs"
  have "?p2 ! i = ?p1 ! i" using i inL last(1) by (intro hang_other) blast
  also have "\<dots> = ps ! i" using i inH last(2) by (intro hang_other) blast
  also have "\<dots> = ps0 ! i" using ch i chain_butlast_side unfolding chained_def by blast
  finally show "?p2 ! i = ps0 ! i" .
qed

lemma low_pages_first_links:
  assumes fi: "free_inv s xs"
  shows "\<exists>ps. low_pages_first lim s
      = Inr (s\<lparr>pages := ps, page_free_list := first_of (chain lim 0 xs @ chain lim 1 xs)\<rparr>)
    \<and> length ps = length (pages s) \<and> (\<forall>i < length ps. pp_ref (ps ! i) = pp_ref (pages s ! i))
    \<and> (\<forall>i. i \<notin> set xs \<longrightarrow> ps ! i = pages s ! i)
    \<and> linked ps (first_of (chain lim 0 xs @ chain lim 1 xs)) (chain lim 0 xs @ chain lim 1 xs)"
proof -
  let ?L = "chain lim 0 xs" and ?H = "chain lim 1 xs"
  have lk: "linked (pages s) (page_free_list s) xs" using fi by (simp add: free_inv_def)
  have start: "split_inv lim s [] (\<lambda>_. None, Local, s)"
    unfolding split_inv_def chained_def prod.case
    by (intro conjI exI [of _ "pages s"]) (simp_all add: chain_simps tail_slot_def)
  obtain pps tp t where run: "each_page (split_step lim) (\<lambda>(pps, tp, s). link_of s) (page_free_list s)
      (\<lambda>_. None, Local, s) = Inr (pps, tp, t)" and inv: "split_inv lim s xs (pps, tp, t)"
    using each_page_run [where I = "split_inv lim s" and body = "split_step lim" and nxt = "\<lambda>(pps, tp, s). link_of s",
      OF start linked_first [OF lk] split_step_inv [OF _ _ lk]] by (metis prod_cases3)
  then obtain ps where t: "t = s\<lparr>pages := ps\<rparr>" and ch: "chained lim (pages s) xs ps"
    and ends: "tp 0 = tail_slot ?L 0" "tp 1 = tail_slot ?H 1" "?L \<noteq> [] \<longrightarrow> pps 0 = Some (hd ?L)" "?H \<noteq> [] \<longrightarrow> pps 1 = Some (hd ?H)"
    unfolding split_inv_def by auto
  let ?p1 = "hang ?H None ps" and ?pps = "if ?H = [] then pps(1 := None) else pps"
  let ?p2 = "hang ?L (first_of ?H) ?p1" and ?ppz = "if ?L = [] then ?pps(0 := first_of ?H) else ?pps"
  have len: "length ps = length (pages s)" using ch by (simp add: chained_def)
  then have bound: "\<forall>i \<in> set xs. i < length ps" using linked_bound [OF lk] by simp
  have "?H \<noteq> [] \<Longrightarrow> last ?H < length ps" "?L \<noteq> [] \<Longrightarrow> last ?L < length ?p1"
    using chain_last_side [of lim _ xs] bound by simp_all
  then have s1: "store_link (tp 1) None (pps, t) = Inr (?pps, s\<lparr>pages := ?p1\<rparr>)"
    and s2: "store_link (tp 0) (first_of ?H) (?pps, s\<lparr>pages := ?p1\<rparr>) = Inr (?ppz, s\<lparr>pages := ?p2\<rparr>)"
    unfolding ends t by (intro store_tail; blast)+
  have h: "?pps 1 = first_of ?H" using ends(4) by (cases ?H) auto
  have "?ppz 0 = first_of (?L @ ?H)" using ends(3) by (cases ?L) (auto simp: first_of_def)
  then have "low_pages_first lim s = Inr (s\<lparr>pages := ?p2, page_free_list := first_of (?L @ ?H)\<rparr>)"
    unfolding low_pages_first_def run bindE_simps prod.case s1 h s2 by simp
  then show ?thesis
    using chained_join [OF ch linked_distinct [OF lk] bound] len ch
    by (intro exI [of _ ?p2]) (auto simp: hang_ref chained_def)
qed

lemma low_pages_first_inv:
  assumes fi: "free_inv s xs"
  shows "\<exists>s'. low_pages_first lim s = Inr s' \<and> free_inv s' (chain lim 0 xs @ chain lim 1 xs)
    \<and> (\<exists>ps q. s' = s\<lparr>pages := ps, page_free_list := q\<rparr>)
    \<and> (\<forall>i < length (pages s). pp_ref (pages s' ! i) = pp_ref (pages s ! i))"
proof -
  let ?ys = "chain lim 0 xs @ chain lim 1 xs"
  obtain ps where r: "low_pages_first lim s = Inr (s\<lparr>pages := ps, page_free_list := first_of ?ys\<rparr>)"
    and len: "length ps = length (pages s)" and ref: "\<And>i. i < length ps \<Longrightarrow> pp_ref (ps ! i) = pp_ref (pages s ! i)"
    and out: "\<And>i. i \<notin> set xs \<Longrightarrow> ps ! i = pages s ! i" and lk: "linked ps (first_of ?ys) ?ys"
    using low_pages_first_links [OF fi, of lim] by blast
  have set: "set ?ys = set xs" using side_cases [of lim] by (auto simp: chain_simps)
  have "free_inv (s\<lparr>pages := ps, page_free_list := first_of ?ys\<rparr>) ?ys"
    using fi len ref out lk unfolding free_inv_def set by (simp add: wf_pages_def)
  then show ?thesis using r ref len by auto
qed

section \<open>check_page_free_list\<close>

text \<open>The first 128 bytes of every listed page below the limit, filled with 0x97.\<close>

fun trashed :: "u32 \<Rightarrow> nat list \<Rightarrow> memory \<Rightarrow> memory" where
  "trashed lim [] m = m"
| "trashed lim (x # xs) m = trashed lim xs (if PDX (page2pa x) < lim then fill m (page2pa x) 128 0x97 else m)"

lemma trashed_snoc: "trashed lim (xs @ [x]) m
    = (let m = trashed lim xs m in if PDX (page2pa x) < lim then fill m (page2pa x) 128 0x97 else m)"
  by (induction xs arbitrary: m) (simp_all add: Let_def)

lemma trash_page_mem:
  assumes "wf_pages s" and "pp < length (pages s)"
  shows "trash_page lim pp (s\<lparr>mem := m\<rparr>)
    = Inr (s\<lparr>mem := if PDX (page2pa pp) < lim then fill m (page2pa pp) 128 0x97 else m\<rparr>)"
proof -
  have "page2kva (s\<lparr>mem := m\<rparr>) pp = Inr (page2pa pp + KERNBASE)"
    using assms by (intro page2kva_Inr) simp_all
  moreover have "unat (page2pa pp) < 268435456" using page2pa_bound [OF assms] by simp
  ultimately show ?thesis by (simp add: trash_page_def kmemset_kva)
qed

lemma trash_loop:
  assumes fi: "free_inv s xs"
  shows "each_page (trash_page lim) link_of (page_free_list s) s = Inr (s\<lparr>mem := trashed lim xs (mem s)\<rparr>)"
proof -
  have lk: "linked (pages s) (page_free_list s) xs" and wf: "wf_pages s" using fi by (simp_all add: free_inv_def)
  have "\<exists>t. each_page (trash_page lim) link_of (page_free_list s) s = Inr t \<and> t = s\<lparr>mem := trashed lim xs (mem s)\<rparr>"
  proof (rule each_page_run [where I = "\<lambda>seen t. t = s\<lparr>mem := trashed lim seen (mem s)\<rparr>", OF _ linked_first [OF lk]])
    fix seen x rest t
    assume xs: "xs = seen @ x # rest" and t: "t = s\<lparr>mem := trashed lim seen (mem s)\<rparr>"
    have "x < length (pages s)" using linked_bound [OF lk] by (simp add: xs)
    from trash_page_mem [OF wf this, of lim "trashed lim seen (mem s)"]
    show "\<exists>s'. trash_page lim x t = Inr s' \<and> link_of s' x = Inr (first_of rest)
        \<and> s' = s\<lparr>mem := trashed lim (seen @ [x]) (mem s)\<rparr>"
      using link_of_list [of "s\<lparr>mem := trashed lim (seen @ [x]) (mem s)\<rparr>" "page_free_list s" seen x rest] lk
      unfolding t by (simp add: xs trashed_snoc Let_def)
  qed simp
  then show ?thesis by blast
qed

text \<open>What the assertions ask of a free page, \<open>first\<close> being the first address after the boot data.\<close>

definition decent :: "u32 \<Rightarrow> nat \<Rightarrow> bool" where
  "decent first i \<longleftrightarrow> i \<noteq> 0xA0 \<and> i \<noteq> 0xFF \<and> i \<noteq> 0x100 \<and> (i < 0x100 \<or> unat first \<le> i * 4096 + unat KERNBASE)"

lemma page2pa_values:
  assumes "i < 65536"
  shows "page2pa i = 0 \<longleftrightarrow> i = 0" "page2pa i = IOPHYSMEM \<longleftrightarrow> i = 0xA0"
    "page2pa i = EXTPHYSMEM - PGSIZE \<longleftrightarrow> i = 0xFF" "page2pa i = EXTPHYSMEM \<longleftrightarrow> i = 0x100"
    "page2pa i < EXTPHYSMEM \<longleftrightarrow> i < 0x100" "unat (page2pa i + KERNBASE) = i * 4096 + unat KERNBASE"
proof -
  have u: "unat (page2pa i) = i * 4096" using assms by (intro unat_page2pa) simp
  have k: "unat (EXTPHYSMEM - PGSIZE) = 0xFF000" "unat EXTPHYSMEM = 0x100000" "unat IOPHYSMEM = 0xA0000"
    by (simp_all add: EXTPHYSMEM_def PGSIZE_def IOPHYSMEM_def)
  show "page2pa i = 0 \<longleftrightarrow> i = 0" using u by (simp add: unat_eq_zero [symmetric])
  show "page2pa i = IOPHYSMEM \<longleftrightarrow> i = 0xA0" "page2pa i = EXTPHYSMEM - PGSIZE \<longleftrightarrow> i = 0xFF"
    "page2pa i = EXTPHYSMEM \<longleftrightarrow> i = 0x100" "page2pa i < EXTPHYSMEM \<longleftrightarrow> i < 0x100"
    unfolding word_unat_eq_iff word_less_nat_alt u k by auto
  show "unat (page2pa i + KERNBASE) = i * 4096 + unat KERNBASE"
    using unat_kva [of "page2pa i"] u assms by (simp add: KERNBASE_def)
qed

lemma check_free_page_decent:
  assumes "wf_pages s" and "x < length (pages s)" and "x \<noteq> 0" and "decent first x"
  shows "check_free_page first x (s, nb, ne) = Inr (if x < 0x100 then (s, nb + 1, ne) else (s, nb, ne + 1))"
proof -
  have x: "x < 65536" using assms(1,2) by (rule wf_pages_lt)
  note v = page2pa_values [OF x]
  have "of_nat x < npages s" using assms(1,2) x by (simp add: wf_pages_def word_less_nat_alt unat_of_nat)
  moreover have "page2kva s x = Inr (page2pa x + KERNBASE)" using assms(1,2) by (rule page2kva_Inr)
  ultimately show ?thesis using assms(3,4) v
    by (cases "x < 0x100") (simp_all add: check_free_page_def decent_def word_le_nat_alt)
qed

lemma check_free_loop:
  assumes fi: "free_inv s xs" and good: "\<forall>x \<in> set xs. decent first x"
  shows "each_page (check_free_page first) (\<lambda>(s, _). link_of s) (page_free_list s) (s, 0, 0)
    = Inr (s, int (length (filter (\<lambda>x. x < 0x100) xs)), int (length (filter (\<lambda>x. \<not> x < 0x100) xs)))"
proof -
  have lk: "linked (pages s) (page_free_list s) xs" and wf: "wf_pages s" and z: "0 \<notin> set xs"
    using fi by (simp_all add: free_inv_def)
  let ?r = "\<lambda>ys. (s, int (length (filter (\<lambda>x. x < 0x100) ys)), int (length (filter (\<lambda>x. \<not> x < 0x100) ys)))"
  have "\<exists>t. each_page (check_free_page first) (\<lambda>(s, _). link_of s) (page_free_list s) (s, 0, 0) = Inr t \<and> t = ?r xs"
  proof (rule each_page_run [where I = "\<lambda>seen t. t = ?r seen", OF _ linked_first [OF lk]])
    fix seen x rest t
    assume xs: "xs = seen @ x # rest" and t: "t = ?r seen"
    have "x < length (pages s)" "x \<noteq> 0" "decent first x"
      using linked_bound [OF lk] z good by (auto simp: xs)
    from check_free_page_decent [OF wf this]
    show "\<exists>s'. check_free_page first x t = Inr s' \<and> (case s' of (s, _) \<Rightarrow> link_of s) x = Inr (first_of rest)
        \<and> s' = ?r (seen @ [x])"
      using link_of_list [of s "page_free_list s" seen x rest] lk unfolding t by (simp add: xs)
  qed simp
  then show ?thesis by blast
qed

lemma free_inv_fields [simp]:
  "free_inv (s\<lparr>mem := m\<rparr>) xs = free_inv s xs" "free_inv (s\<lparr>nextfree := a\<rparr>) xs = free_inv s xs"
  "free_inv (s\<lparr>io := i\<rparr>) xs = free_inv (s :: 'z ke) xs"
  by (simp_all add: free_inv_def wf_pages_def)

lemma boot_alloc_state: "snd (boot_alloc e 0 s) = s\<lparr>nextfree := nextfree (snd (boot_alloc e 0 s))\<rparr>"
  by (simp add: boot_alloc_def Let_def)

lemma boot_alloc_cong: "nextfree t = nextfree s \<Longrightarrow> fst (boot_alloc e 0 t) = fst (boot_alloc e 0 s)"
  by (simp add: boot_alloc_def Let_def)

text \<open>The state after a message of plain text.\<close>

definition announced :: "machine \<Rightarrow> string \<Rightarrow> 'z ke \<Rightarrow> 'z ke" where
  "announced mc msg s = s\<lparr>io := (io s)\<lparr>con := put_all (devs mc) (map chi (msg @ NL)) (con (io s))\<rparr>\<rparr>"

lemma kprint_announced:
  assumes "plain_text msg" and "length msg < 4000"
  shows "kprint mc (msg @ NL) [] s = Inr (announced mc msg s)"
proof -
  have "sent (lit_mem (msg @ NL)) m LIT ap = Some (map chi (msg @ NL))" for m ap
    by (rule sent_plain) (use assms in \<open>auto simp: NL_def list_all_iff\<close>)
  then show ?thesis by (simp add: kprint_def print_sent announced_def)
qed

lemma announced_fields [simp]: "mem (announced mc msg s) = mem s" "pages (announced mc msg s) = pages s"
  "page_free_list (announced mc msg s) = page_free_list s" "free_inv (announced mc msg s) xs = free_inv s xs"
  "kern_pgdir (announced mc msg s) = kern_pgdir s" "npages (announced mc msg s) = npages s"
  "pages_kva (announced mc msg s) = pages_kva s" "nextfree (announced mc msg s) = nextfree s"
  "tlb (announced mc msg s) = tlb s"
  by (simp_all add: announced_def)

lemma side_one: "x < 65536 \<Longrightarrow> side 1 x = (if x < 1024 then 0 else 1)"
proof -
  assume "x < 65536"
  then have "unat (PDX (page2pa x)) = x div 1024" by (simp add: unat_PDX unat_page2pa)
  then show ?thesis using div_eq_0_iff [of x 1024] by (auto simp: side_def word_le_nat_alt)
qed

lemma chain_one:
  assumes "\<forall>x \<in> set xs. x < 65536"
  shows "chain 1 0 xs = filter (\<lambda>x. x < 1024) xs" "chain 1 1 xs = filter (\<lambda>x. \<not> x < 1024) xs"
  unfolding chain_def by (rule filter_cong; use assms side_one in auto)+

lemma check_page_free_list_run:
  assumes "page_free_list s \<noteq> None" and "lim = (if only_low then 1 else 1024)"
    and "(if only_low then low_pages_first lim s else Inr s) = Inr t"
    and "each_page (trash_page lim) link_of (page_free_list t) t = Inr t1"
    and "boot_alloc (k_end (syms mc)) 0 t1 = (first, t2)"
    and "each_page (check_free_page first) (\<lambda>(s, _). link_of s) (page_free_list t2) (t2, 0, 0) = Inr (t2, b, e)"
    and "0 < b" and "0 < e"
  shows "check_page_free_list mc only_low s = kprint mc (''check_page_free_list() succeeded!'' @ NL) [] t2"
proof -
  have "(if only_low then 1 else of_nat NPDENTRIES) = lim" by (simp add: assms(2) NPDENTRIES_def)
  then show ?thesis using assms(1,3-8) by (auto simp: check_page_free_list_def Let_def)
qed

lemma free_list_check_run:
  fixes s :: "'z ke" and only_low :: bool
  assumes lim: "lim = (if only_low then 1 else 1024)"
    and fi: "free_inv s xs" and good: "\<forall>x \<in> set xs. decent (fst (boot_alloc (k_end (syms mc)) 0 s)) x"
    and base: "\<exists>x \<in> set xs. x < 0x100" and ext: "\<exists>x \<in> set xs. \<not> x < 0x100"
  shows "\<exists>t ps q nf ys. check_page_free_list mc only_low s = Inr (announced mc ''check_page_free_list() succeeded!'' t)
    \<and> ys = (if only_low then filter (\<lambda>x. x < 1024) xs @ filter (\<lambda>x. \<not> x < 1024) xs else xs)
    \<and> t = s\<lparr>mem := trashed lim ys (mem s), pages := ps, page_free_list := q, nextfree := nf\<rparr> \<and> free_inv t ys
    \<and> length ps = length (pages s) \<and> (\<forall>i < length (pages s). pp_ref (ps ! i) = pp_ref (pages s ! i))"
proof -
  have wf: "wf_pages s" using fi by (simp add: free_inv_def)
  have small: "\<forall>x \<in> set xs. x < 65536" using free_inv_bound [OF fi] wf_pages_lt [OF wf] by blast
  let ?ys = "if only_low then filter (\<lambda>x. x < 1024) xs @ filter (\<lambda>x. \<not> x < 1024) xs else xs"
  obtain x where x: "page_free_list s = Some x" using fi base by (cases xs) (auto simp: free_inv_def)
  have "\<exists>t. (if only_low then low_pages_first lim s else Inr s) = Inr t \<and> free_inv t ?ys
      \<and> (\<exists>ps q. t = s\<lparr>pages := ps, page_free_list := q\<rparr>)
      \<and> (\<forall>i < length (pages s). pp_ref (pages t ! i) = pp_ref (pages s ! i))"
  proof (cases only_low)
    case True
    then show ?thesis using low_pages_first_inv [OF fi, of 1] chain_one [OF small] by (simp add: lim)
  next
    case False
    have "s = s\<lparr>pages := pages s, page_free_list := page_free_list s\<rparr>" by simp
    then have "\<exists>ps q. s = s\<lparr>pages := ps, page_free_list := q\<rparr>" by blast
    then show ?thesis using False fi by simp
  qed
  then obtain t ps q where t: "(if only_low then low_pages_first lim s else Inr s) = Inr t" "free_inv t ?ys"
    and tf: "t = s\<lparr>pages := ps, page_free_list := q\<rparr>"
    and ref: "\<And>i. i < length (pages s) \<Longrightarrow> pp_ref (pages t ! i) = pp_ref (pages s ! i)" by blast
  let ?t1 = "t\<lparr>mem := trashed lim ?ys (mem t)\<rparr>"
  let ?first = "fst (boot_alloc (k_end (syms mc)) 0 ?t1)"
  let ?t2 = "snd (boot_alloc (k_end (syms mc)) 0 ?t1)"
  have set: "set ?ys = set xs" by auto
  have first: "?first = fst (boot_alloc (k_end (syms mc)) 0 s)"
    by (rule boot_alloc_cong) (simp add: tf)
  obtain nf where t2: "?t2 = ?t1\<lparr>nextfree := nf\<rparr>" using boot_alloc_state by blast
  have fi2: "free_inv ?t2 ?ys" using t(2) by (simp add: t2)
  have counts: "0 < int (length (filter (\<lambda>x. x < 0x100) ?ys))" "0 < int (length (filter (\<lambda>x. \<not> x < 0x100) ?ys))"
    using base ext set by (auto simp: filter_empty_conv simp del: set_filter)
  have "each_page (check_free_page ?first) (\<lambda>(s, _). link_of s) (page_free_list ?t2) (?t2, 0, 0)
      = Inr (?t2, int (length (filter (\<lambda>x. x < 0x100) ?ys)), int (length (filter (\<lambda>x. \<not> x < 0x100) ?ys)))"
    by (rule check_free_loop [OF fi2]) (use good set first in simp)
  note loop = this
  have "page_free_list s \<noteq> None" using x by simp
  from check_page_free_list_run [OF this lim t(1) trash_loop [OF t(2), of lim] prod.collapse [symmetric] loop counts]
  have "check_page_free_list mc only_low s = kprint mc (''check_page_free_list() succeeded!'' @ NL) [] ?t2" .
  also have "\<dots> = Inr (announced mc ''check_page_free_list() succeeded!'' ?t2)"
    by (rule kprint_announced) simp_all
  finally have run': "check_page_free_list mc only_low s = \<dots>" .
  have "?t2 = s\<lparr>mem := trashed lim ?ys (mem s), pages := ps, page_free_list := q, nextfree := nf\<rparr>"
    unfolding t2 by (simp add: tf)
  moreover have "length ps = length (pages s)"
    using t(2) fi by (simp add: free_inv_def wf_pages_def tf)
  moreover have "\<forall>i < length (pages s). pp_ref (ps ! i) = pp_ref (pages s ! i)" using ref by (simp add: tf)
  ultimately show ?thesis using run' fi2
    by (intro exI [of _ ?t2] exI [of _ ps] exI [of _ q] exI [of _ nf] exI [of _ ?ys] conjI refl)
qed

text \<open>C33: On a well-formed free list whose pages lie outside the boot data and the I/O hole, some
  of them below and some above one megabyte, \<open>check_page_free_list\<close> passes: it moves the pages
  of the first four megabytes to the front, each group in its old order, fills the first 128
  bytes of the free pages it can reach, and reports success; reference counts stay, and the
  list is well formed again.\<close>

theorem free_list_check_passes:
  fixes s :: "'z ke" and only_low :: bool
  defines "lim \<equiv> if only_low then 1 else 1024"
  assumes fi: "free_inv s xs" and good: "\<forall>x \<in> set xs. decent (fst (boot_alloc (k_end (syms mc)) 0 s)) x"
    and base: "\<exists>x \<in> set xs. x < 0x100" and ext: "\<exists>x \<in> set xs. \<not> x < 0x100"
  shows "\<exists>s' ys. check_page_free_list mc only_low s = Inr s'
    \<and> ys = (if only_low then filter (\<lambda>x. x < 1024) xs @ filter (\<lambda>x. \<not> x < 1024) xs else xs)
    \<and> free_inv s' ys \<and> mem s' = trashed lim ys (mem s)
    \<and> (\<forall>i < length (pages s). pp_ref (pages s' ! i) = pp_ref (pages s ! i))
    \<and> io s' = io (announced mc ''check_page_free_list() succeeded!'' s)"
proof -
  obtain t ps q nf ys where run: "check_page_free_list mc only_low s = Inr (announced mc ''check_page_free_list() succeeded!'' t)"
    and ys: "ys = (if only_low then filter (\<lambda>x. x < 1024) xs @ filter (\<lambda>x. \<not> x < 1024) xs else xs)"
    and t: "t = s\<lparr>mem := trashed lim ys (mem s), pages := ps, page_free_list := q, nextfree := nf\<rparr>" "free_inv t ys"
    and ref: "\<forall>i < length (pages s). pp_ref (ps ! i) = pp_ref (pages s ! i)"
    using free_list_check_run [OF lim_def [THEN meta_eq_to_obj_eq] fi good base ext] by blast
  show ?thesis
    using run t(2) ref by (intro exI [of _ "announced mc ''check_page_free_list() succeeded!'' t"] exI [of _ ys] conjI ys)
      (simp_all add: t(1) announced_def)
qed

text \<open>A machine of 1200 pages, of which page 1100 and page 5 are free, in that order.\<close>

definition two_free :: kenv where
  "two_free = with_envs (demo\<lparr>npages := 1200, nextfree := 0xF0105000,
     pages := (replicate 1200 \<lparr>pp_link = None, pp_ref = 0\<rparr>)[1100 := \<lparr>pp_link = Some 5, pp_ref = 0\<rparr>],
     page_free_list := Some 1100\<rparr>) [] None None"

lemma two_free: "free_inv two_free [1100, 5]" "boot_alloc e 0 two_free = (0xF0105000, two_free)"
proof -
  have "length (pages two_free) = 1200" "npages two_free = 1200" "page_free_list two_free = Some 1100"
    unfolding two_free_def by simp_all
  moreover have "pages two_free ! i = \<lparr>pp_link = if i = 1100 then Some 5 else None, pp_ref = 0\<rparr>" if "i < 1200" for i
    using that unfolding two_free_def by (simp add: nth_list_update)
  ultimately show "free_inv two_free [1100, 5]" by (simp add: free_inv_def wf_pages_def)
  have "nextfree two_free = 0xF0105000"
    by (simp add: two_free_def with_envs_def kstate.extend_def)
  then have "boot_alloc e 0 two_free = (0xF0105000, two_free\<lparr>nextfree := nextfree two_free\<rparr>)"
    by (simp add: boot_alloc_def ROUNDUP_def ROUNDDOWN_def PGSIZE_def)
  then show "boot_alloc e 0 two_free = (0xF0105000, two_free)" by simp
qed

lemma free_list_check_passes_witness:
  "\<exists>s'. check_page_free_list blank_machine True two_free = Inr s' \<and> free_inv s' [5, 1100]"
proof -
  have "\<forall>x \<in> set [1100, 5]. decent (fst (boot_alloc (k_end (syms blank_machine)) 0 two_free)) x"
    by (simp add: two_free(2) decent_def KERNBASE_def)
  from free_list_check_passes [OF two_free(1) this, of True] show ?thesis by auto
qed

section \<open>check_page_alloc\<close>

text \<open>The page array with some entries replaced, and the state with it.\<close>

definition over :: "page_info list \<Rightarrow> (nat \<rightharpoonup> page_info) \<Rightarrow> page_info list" where
  "over ps f = map (\<lambda>i. case f i of None \<Rightarrow> ps ! i | Some p \<Rightarrow> p) [0..<length ps]"

abbreviation unused :: "nat option \<Rightarrow> page_info" where
  "unused l \<equiv> \<lparr>pp_link = l, pp_ref = 0\<rparr>"

definition with_pages :: "'z ks \<Rightarrow> memory \<Rightarrow> (nat \<rightharpoonup> page_info) \<Rightarrow> nat option \<Rightarrow> 'z ks" where
  "with_pages s m f q = s\<lparr>mem := m, pages := over (pages s) f, page_free_list := q\<rparr>"

lemma over_nth [simp]: "length (over ps f) = length ps"
  "i < length ps \<Longrightarrow> over ps f ! i = (case f i of None \<Rightarrow> ps ! i | Some p \<Rightarrow> p)"
  by (auto simp: over_def split: option.split)

lemma over_upd: "x < length ps \<Longrightarrow> (over ps f)[x := p] = over ps (f(x \<mapsto> p))"
  by (rule nth_equalityI) (simp_all add: nth_list_update)

lemma over_same:
  assumes "\<And>i p. f i = Some p \<Longrightarrow> i < length ps \<Longrightarrow> p = ps ! i"
  shows "over ps f = ps"
  by (rule nth_equalityI) (auto split: option.split dest: assms)

lemma with_pages_alloc:
  assumes "wf_pages s" and "x < length (pages s)" and "f x = Some (unused l)"
  shows "page_alloc 0 (with_pages s m f (Some x)) = Inr (Some x, with_pages s m (f(x \<mapsto> unused None)) l)"
    "page_alloc ALLOC_ZERO (with_pages s m f (Some x))
      = Inr (Some x, with_pages s (fill m (page2pa x) 4096 0) (f(x \<mapsto> unused None)) l)"
proof -
  have "page2kva t x = Inr (page2pa x + KERNBASE)" if "npages t = npages s" "length (pages t) = length (pages s)" for t :: "'a ks"
    using assms(1,2) that by (intro page2kva_Inr) (simp_all add: wf_pages_def)
  moreover have "unat (page2pa x) < 268435456" using page2pa_bound [OF assms(1,2)] by simp
  ultimately show "page_alloc 0 (with_pages s m f (Some x)) = Inr (Some x, with_pages s m (f(x \<mapsto> unused None)) l)"
    "page_alloc ALLOC_ZERO (with_pages s m f (Some x))
      = Inr (Some x, with_pages s (fill m (page2pa x) 4096 0) (f(x \<mapsto> unused None)) l)"
    using assms(2,3) by (simp_all add: page_alloc_def with_pages_def get_page_def upd_page_def over_upd
      ALLOC_ZERO_def kmemset_kva PGSIZE_def)
qed

lemma with_pages_free:
  assumes "x < length (pages s)" and "f x = Some (unused None)"
  shows "page_free x (with_pages s m f q) = Inr (with_pages s m (f(x \<mapsto> unused q)) (Some x))"
  using assms by (simp add: page_free_def with_pages_def get_page_def upd_page_def over_upd)

lemma with_pages_empty: "assert_no_page (with_pages s m f None) = Inr (with_pages s m f None)"
  by (simp add: assert_no_page_def page_alloc_def with_pages_def)

lemma with_pages_three:
  assumes wf: "wf_pages s" and b: "x < length (pages s)" "y < length (pages s)" "z < length (pages s)"
    and d: "x \<noteq> y" "x \<noteq> z" "y \<noteq> z"
    and f: "f x = Some (unused (Some y))" "f y = Some (unused (Some z))" "f z = Some (unused l)"
  shows "alloc_three (with_pages s m f (Some x))
    = Inr (x, y, z, with_pages s m (f(x \<mapsto> unused None, y \<mapsto> unused None, z \<mapsto> unused None)) l)"
  using with_pages_alloc(1) [OF wf b(1), of f "Some y" m]
    with_pages_alloc(1) [OF wf b(2), of "f(x \<mapsto> unused None)" "Some z" m]
    with_pages_alloc(1) [OF wf b(3), of "f(x \<mapsto> unused None, y \<mapsto> unused None)" l m] d f
  by (simp add: alloc_three_def assert_page_alloc_def)

text \<open>Three pages in use are freed one after the other.\<close>

lemma with_pages_free_three:
  assumes b: "x < length (pages s)" "y < length (pages s)" "z < length (pages s)"
    and d: "x \<noteq> y" "x \<noteq> z" "y \<noteq> z"
    and f: "f x = Some (unused None)" "f y = Some (unused None)" "f z = Some (unused None)"
  shows "page_free x (with_pages s m f q) = Inr (with_pages s m (f(x \<mapsto> unused q)) (Some x))"
    "page_free y (with_pages s m (f(x \<mapsto> unused q)) (Some x)) = Inr (with_pages s m (f(x \<mapsto> unused q, y \<mapsto> unused (Some x))) (Some y))"
    "page_free z (with_pages s m (f(x \<mapsto> unused q, y \<mapsto> unused (Some x))) (Some y))
      = Inr (with_pages s m (f(x \<mapsto> unused q, y \<mapsto> unused (Some x), z \<mapsto> unused (Some y))) (Some z))"
  by (rule with_pages_free; use assms in simp)+

lemma foldE_unit: "(\<And>i. i \<in> set xs \<Longrightarrow> f i () = Inr ()) \<Longrightarrow> foldE f xs () = Inr ()"
  by (induction xs) simp_all

lemma fill_again: "fill (fill m a n b) a n c = fill m a n c"
  by (rule ext) (simp add: fill_def)

lemma page_zeroed:
  assumes "unat (page2pa z) + 4096 \<le> 268435456"
  shows "foldE (\<lambda>i _. bindE (kbyte_at (with_pages s (fill m (page2pa z) 4096 0) f q) (kva z + of_nat i))
    (\<lambda>b. assertE msg (b = 0))) [0..<4096] () = Inr ()"
proof (rule foldE_unit)
  fix i :: nat
  assume "i \<in> set [0..<4096]"
  then have i: "i < 4096" by simp
  have u: "unat (page2pa z + of_nat i) = unat (page2pa z) + i"
    using assms i by (subst unat_less_add) (simp_all add: unat_of_nat)
  have eq: "kva z + of_nat i = (page2pa z + of_nat i) + KERNBASE" by (simp add: algebra_simps)
  have "\<not> (page2pa z + of_nat i) + KERNBASE < KERNBASE"
    using u assms i by (intro kva_above) simp
  moreover have "fill m (page2pa z) 4096 0 (page2pa z + of_nat i) = 0"
    using i by (simp add: fill_def in_range_def unat_of_nat)
  ultimately show "bindE (kbyte_at (with_pages s (fill m (page2pa z) 4096 0) f q) (kva z + of_nat i))
      (\<lambda>b. assertE msg (b = 0)) = Inr ()"
    unfolding eq kbyte_at_def by (simp add: with_pages_def)
qed

lemma unsigned_page_bound:
  assumes "wf_pages s" and "x < length (pages s)"
  shows "page2pa x < npages s * PGSIZE"
proof -
  have "unat (npages s * PGSIZE) = unat (npages s) * 4096"
    using assms(1) by (simp add: PGSIZE_def wf_pages_def unat_word_ariths)
  moreover have "unat (page2pa x) = x * 4096" using assms by (intro unat_page2pa) (simp add: wf_pages_def)
  ultimately show ?thesis using assms by (simp add: word_less_nat_alt wf_pages_def)
qed

text \<open>The first three pages of the free list, and taking them.\<close>

lemma first_three:
  assumes fi: "free_inv s (x # y # z # rest)"
  shows "wf_pages s" "x < length (pages s)" "y < length (pages s)" "z < length (pages s)" "x \<noteq> y" "x \<noteq> z" "y \<noteq> z"
    and "\<And>g. (\<And>i. g i = [x \<mapsto> unused (Some y), y \<mapsto> unused (Some z), z \<mapsto> unused (first_of rest)] i) \<Longrightarrow> over (pages s) g = pages s"
    and "alloc_three s = Inr (x, y, z, with_pages s (mem s) [x \<mapsto> unused None, y \<mapsto> unused None, z \<mapsto> unused None] (first_of rest))"
proof -
  let ?l = "first_of rest"
  let ?f = "[x \<mapsto> unused (Some y), y \<mapsto> unused (Some z), z \<mapsto> unused ?l]"
  have lk: "linked (pages s) (page_free_list s) (x # y # z # rest)" using fi by (simp add: free_inv_def)
  show wf: "wf_pages s" using fi by (simp add: free_inv_def)
  show b: "x < length (pages s)" "y < length (pages s)" "z < length (pages s)" and d: "x \<noteq> y" "x \<noteq> z" "y \<noteq> z"
    using lk linked_distinct [OF lk] by auto
  have ent: "pages s ! x = unused (Some y)" "pages s ! y = unused (Some z)" "pages s ! z = unused ?l"
    using lk fi b linked_first [of "pages s" "pp_link (pages s ! z)" rest]
    by (auto simp: free_inv_def intro!: page_info.equality)
  show same: "over (pages s) g = pages s" if "\<And>i. g i = ?f i" for g
    by (rule over_same) (auto simp: that ent split: if_splits)
  have s: "s = with_pages s (mem s) ?f (Some x)"
    using lk same [of ?f] by (simp add: with_pages_def)
  have "?f(x \<mapsto> unused None, y \<mapsto> unused None, z \<mapsto> unused None) = [x \<mapsto> unused None, y \<mapsto> unused None, z \<mapsto> unused None]"
    by (simp add: fun_eq_iff)
  then show "alloc_three s = Inr (x, y, z, with_pages s (mem s) [x \<mapsto> unused None, y \<mapsto> unused None, z \<mapsto> unused None] ?l)"
    using with_pages_three [OF wf b d, of ?f ?l "mem s"] d s by simp
qed

lemma check_page_alloc_run:
  assumes fi: "free_inv s (x # y # z # rest)" and kva: "pages_kva s \<noteq> 0"
  shows "check_page_alloc mc s = Inr (announced mc ''check_page_alloc() succeeded!''
    (s\<lparr>mem := fill (mem s) (page2pa z) 4096 0\<rparr>))"
proof -
  let ?l = "first_of rest"
  note three = first_three [OF fi]
  note wf = three(1) and b = three(2-4) and d = three(5-7) three(5-7) [symmetric] and same = three(8)
  have lk: "linked (pages s) (page_free_list s) (x # y # z # rest)" using fi by (simp add: free_inv_def)
  have zb: "unat (page2pa z) + 4096 \<le> 268435456" using page2pa_bound [OF wf b(3)] .
  have pk: "page2kva (with_pages s m g q) z = Inr (kva z)" for m g q
    using wf b(3) by (intro page2kva_Inr) (simp_all add: with_pages_def wf_pages_def)
  have set: "kmemset (kva z) 1 PGSIZE (with_pages s m g q) = Inr (with_pages s (fill m (page2pa z) 4096 1) g q)" for m g q
    using zb by (simp add: kmemset_kva PGSIZE_def with_pages_def)
  have np: "npages (with_pages s m g q) = npages s" "page_free_list (with_pages s m g q) = q"
    "(with_pages s m g q)\<lparr>page_free_list := q'\<rparr> = with_pages s m g q'" for m g q q'
    by (simp_all add: with_pages_def)
  have count: "count_free s = Inr (int (length rest) + 3)" using count_free_list [OF lk] by simp
  define m0 m1 m2 where "m0 = mem s" and "m1 = fill m0 (page2pa z) 4096 1" and "m2 = fill m1 (page2pa z) 4096 0"
  define g1 where "g1 = [x \<mapsto> unused None, y \<mapsto> unused None, z \<mapsto> unused None]"
  define g4 where "g4 = g1(x \<mapsto> unused None, y \<mapsto> unused (Some x), z \<mapsto> unused (Some y))"
  define g5 where "g5 = g4(z \<mapsto> unused None, y \<mapsto> unused None, x \<mapsto> unused None)"
  define g7 where "g7 = g5(z \<mapsto> unused None, z \<mapsto> unused None)"
  define g10 where "g10 = g7(z \<mapsto> unused ?l, y \<mapsto> unused (Some z), x \<mapsto> unused (Some y))"
  note gs = g1_def g4_def g5_def g7_def g10_def
  have take: "alloc_three s = Inr (x, y, z, with_pages s m0 g1 ?l)"
    using three(9) by (simp only: g1_def m0_def)
  have used: "g1 x = Some (unused None)" "g1 y = Some (unused None)" "g1 z = Some (unused None)"
    "g7 x = Some (unused None)" "g7 y = Some (unused None)" "g7 z = Some (unused None)" using d by (simp_all add: gs)
  note free1 = with_pages_free_three [where f = g1 and m = m0 and q = None, OF b d(1-3) used(1-3), folded g4_def]
  have take2: "alloc_three (with_pages s m0 g4 (Some z)) = Inr (z, y, x, with_pages s m0 g5 None)"
    unfolding g5_def by (rule with_pages_three) (use wf b d in \<open>simp_all add: gs\<close>)
  have again: "page_free z (with_pages s m1 g5 None) = Inr (with_pages s m1 (g5(z \<mapsto> unused None)) (Some z))"
    "page_alloc ALLOC_ZERO (with_pages s m1 (g5(z \<mapsto> unused None)) (Some z)) = Inr (Some z, with_pages s m2 g7 None)"
    unfolding g7_def m2_def
    using with_pages_free [of z s g5] with_pages_alloc(2) [OF wf b(3), of "g5(z \<mapsto> unused None)" None m1] b d by (simp_all add: g5_def)
  note free2 = with_pages_free_three [where f = g7 and m = m2 and q = ?l, OF b(3,2,1) d(6,5,4) used(6,5,4), folded g10_def]
  have zeroed: "foldE (\<lambda>i _. bindE (kbyte_at (with_pages s m2 g7 None) (kva z + of_nat i))
      (\<lambda>b. assertE ''c[i] == 0'' (b = 0))) [0..<4096] () = Inr ()"
    unfolding m2_def by (rule page_zeroed [OF zb])
  let ?final = "with_pages s m2 g10 (Some x)"
  have "over (pages s) g10 = pages s"
    by (rule same) (use d in \<open>simp add: gs\<close>)
  then have last: "?final = s\<lparr>mem := fill (mem s) (page2pa z) 4096 0\<rparr>"
    using lk by (simp add: with_pages_def m2_def m1_def m0_def fill_again)
  have count2: "count_free ?final = Inr (int (length rest) + 3)"
    unfolding last using count_free_list [of "s\<lparr>mem := fill (mem s) (page2pa z) 4096 0\<rparr>" "x # y # z # rest"] lk by simp
  note bound = unsigned_page_bound [OF wf b(1)] unsigned_page_bound [OF wf b(2)] unsigned_page_bound [OF wf b(3)]
  have "check_page_alloc mc s = kprint mc (''check_page_alloc() succeeded!'' @ NL) [] ?final"
    unfolding check_page_alloc_def count bindE_simps take prod.case Let_def np
      with_pages_empty free1 take2 pk set [of m0, folded m1_def] again option.inject option.distinct zeroed free2 count2
    using kva bound by simp
  also have "\<dots> = Inr (announced mc ''check_page_alloc() succeeded!'' ?final)"
    by (rule kprint_announced) simp_all
  finally show ?thesis unfolding last .
qed

text \<open>On a well-formed free list of at least three pages, \<open>check_page_alloc\<close> passes all its
  assertions and puts everything back: afterwards the page array, the reference counts and the
  order of the free list are the ones before, only the third free page has been cleared, and
  the success message has been printed.\<close>

theorem check_page_alloc_transparent:
  assumes fi: "free_inv s (x # y # z # rest)" and kva: "pages_kva s \<noteq> 0"
  shows "check_page_alloc mc s = Inr (announced mc ''check_page_alloc() succeeded!''
    (s\<lparr>mem := fill (mem s) (page2pa z) 4096 0\<rparr>))"
  by (rule check_page_alloc_run [OF assms])

text \<open>A machine with three free pages.\<close>

definition three_free :: kenv where
  "three_free = with_envs (demo\<lparr>pages_kva := 0xF0100000, page_free_list := Some 2,
     pages := [unused None, unused None, unused (Some 3), unused (Some 4), unused None]\<rparr>) [] None None"

lemma check_page_alloc_transparent_witness:
  "\<exists>s'. check_page_alloc blank_machine three_free = Inr s' \<and> free_inv s' [2, 3, 4]"
proof -
  have fi: "free_inv three_free [2, 3, 4]"
    by (auto simp: three_free_def free_inv_def wf_pages_def demo_def less_Suc_eq)
  have "pages_kva three_free \<noteq> 0"
    by (simp add: three_free_def with_envs_def kstate.extend_def)
  from check_page_alloc_transparent [OF fi this] fi show ?thesis by auto
qed

end
