(* ===== verification/KernelMap.thy ===== *)
theory KernelMap
  imports SelfTest
begin

text \<open>
  The kernel's part of the address space, as \<^verbatim>\<open>mem_init\<close> sets it up with three calls of
  \<open>boot_map_region\<close>, against the picture in \<^verbatim>\<open>inc/memlayout.h\<close> and the check that follows.
\<close>

section \<open>A region, address by address\<close>

lemma unat_PTE_ADDR: "unat (PTE_ADDR a) = unat a div 4096 * 4096"
proof -
  have "PTE_ADDR a = push_bit 12 (drop_bit 12 a)"
    by (rule bit_word_eqI) (auto simp: PTE_ADDR_def word_mask_numerals bit_simps dest: bit_imp_le_length)
  moreover have "unat (drop_bit 12 a) * 4096 < 4294967296"
    using u32_bound [of a] by (simp add: unat_drop_bit_div)
  ultimately show ?thesis
    by (simp add: push_bit_eq_mult unat_word_ariths unat_drop_bit_div)
qed

text \<open>The page of a region that holds an address.\<close>

lemma nth_slot_at:
  assumes al: "unat base mod 4096 = 0" and end_: "unat base + n * 4096 \<le> 4294967296"
  shows "(pdi va, pti va) \<in> nth_slot base ` {..<n} \<longleftrightarrow> unat base \<le> unat va \<and> unat va < unat base + n * 4096"
    and "unat base \<le> unat va \<Longrightarrow> unat va < unat base + n * 4096
      \<Longrightarrow> nth_slot base ((unat va - unat base) div 4096) = (pdi va, pti va)"
proof -
  obtain q where q: "unat base = q * 4096" using al by (metis div_mult_mod_eq add.right_neutral)
  have slot: "nth_slot base k = (pdi va, pti va) \<longleftrightarrow> unat va div 4096 = q + k" if k: "k < n" for k
  proof -
    let ?w = "base + of_nat k * PGSIZE"
    have ofs: "unat (of_nat k * PGSIZE :: u32) = k * 4096"
      using k end_ q by (simp add: PGSIZE_def unat_word_ariths unat_of_nat)
    have "unat ?w = unat base + k * 4096"
      using k end_ ofs by (subst unat_less_add) simp_all
    then have "unat (PGNUM ?w) = q + k" by (simp add: unat_PGNUM q)
    moreover have "nth_slot base k = (pdi va, pti va) \<longleftrightarrow> PGNUM ?w = PGNUM va"
      unfolding nth_slot_def slot_of_page by simp
    ultimately show ?thesis unfolding word_unat_eq_iff unat_PGNUM by auto
  qed
  have dv: "(unat va - unat base) div 4096 = unat va div 4096 - q" if "unat base \<le> unat va"
    using that by (simp add: q)
  show at: "nth_slot base ((unat va - unat base) div 4096) = (pdi va, pti va)"
    if "unat base \<le> unat va" "unat va < unat base + n * 4096"
  proof -
    have "unat va div 4096 < q + n" using that(2) unfolding q by (intro less_mult_imp_div_less) (simp add: algebra_simps)
    moreover have "q \<le> unat va div 4096" using that(1) unfolding q by (simp add: less_eq_div_iff_mult_less_eq)
    ultimately show ?thesis unfolding dv [OF that(1)] by (subst slot) auto
  qed
  show "(pdi va, pti va) \<in> nth_slot base ` {..<n} \<longleftrightarrow> unat base \<le> unat va \<and> unat va < unat base + n * 4096"
  proof
    assume "(pdi va, pti va) \<in> nth_slot base ` {..<n}"
    then obtain k where k: "k < n" "nth_slot base k = (pdi va, pti va)" by force
    then have "unat va div 4096 = q + k" using slot by blast
    then show "unat base \<le> unat va \<and> unat va < unat base + n * 4096"
      using k(1) unfolding q by (auto simp: algebra_simps)
  next
    assume *: "unat base \<le> unat va \<and> unat va < unat base + n * 4096"
    then have "(unat va - unat base) div 4096 < n" by (intro less_mult_imp_div_less) linarith
    then show "(pdi va, pti va) \<in> nth_slot base ` {..<n}"
      using at * by (metis imageI lessThan_iff)
  qed
qed

lemma mapped_at:
  assumes m: "mapped n pd base pa perm s s'" and al: "unat base mod 4096 = 0"
    and end_: "unat base + n * 4096 \<le> 4294967296" and va: "pdi va \<noteq> UVPT_D"
  shows "pte_at (mem s') pd (pdi va) (pti va) =
    (if unat base \<le> unat va \<and> unat va < unat base + n * 4096
     then (pa + PTE_ADDR (va - base)) OR PTE_P OR perm else pte_at (mem s) pd (pdi va) (pti va))"
proof (cases "unat base \<le> unat va \<and> unat va < unat base + n * 4096")
  case True
  let ?k = "(unat va - unat base) div 4096"
  have k: "?k < n" using True by (intro less_mult_imp_div_less) linarith
  have "unat (of_nat ?k * PGSIZE :: u32) = ?k * 4096"
    using k end_ by (simp add: PGSIZE_def unat_word_ariths unat_of_nat)
  moreover have "unat (va - base) = unat va - unat base" using True by (simp add: unat_sub_le word_le_nat_alt)
  ultimately have "of_nat ?k * PGSIZE = PTE_ADDR (va - base)"
    by (simp add: word_unat_eq_iff unat_PTE_ADDR)
  then show ?thesis using True mappedD(1) [OF m k] nth_slot_at(2) [OF al end_, of va] by simp
next
  case False
  then show ?thesis using mappedD(2) [OF m PDX_bound PTX_bound va] nth_slot_at(1) [OF al end_] by auto
qed

lemma missing_bound:
  assumes al: "unat base mod 4096 = 0" and end_: "unat base + n * 4096 \<le> 4294967296"
    and d: "unat base div 4194304 = d" "(unat base + n * 4096 - 1) div 4194304 < d + c"
  shows "missing m pd base n \<le> c" and "k < n \<Longrightarrow> d \<le> fst (nth_slot base k) \<and> fst (nth_slot base k) < d + c"
proof -
  have dir: "d \<le> fst (nth_slot base k) \<and> fst (nth_slot base k) < d + c" if k: "k < n" for k
  proof -
    have ofs: "unat (of_nat k * PGSIZE :: u32) = k * 4096"
      using k end_ by (simp add: PGSIZE_def unat_word_ariths unat_of_nat)
    have "unat (base + of_nat k * PGSIZE) = unat base + k * 4096"
      using k end_ ofs by (subst unat_less_add) simp_all
    then have "fst (nth_slot base k) = (unat base + k * 4096) div 4194304"
      by (simp add: nth_slot_def unat_PDX)
    moreover have "(unat base + k * 4096) div 4194304 \<le> (unat base + n * 4096 - 1) div 4194304"
      using k by (intro div_le_mono) simp
    moreover have "unat base div 4194304 \<le> (unat base + k * 4096) div 4194304" by (intro div_le_mono) simp
    ultimately show ?thesis using d by simp
  qed
  then show "k < n \<Longrightarrow> d \<le> fst (nth_slot base k) \<and> fst (nth_slot base k) < d + c" .
  have "{e \<in> (\<lambda>k. fst (nth_slot base k)) ` {..<n}. \<not> present (entry m pd e)} \<subseteq> {d..<d + c}"
    using dir by auto
  from card_mono [OF _ this] show "missing m pd base n \<le> c" by (simp add: missing_def)
qed

text \<open>One call of \<open>boot_map_region\<close> for a page-aligned region within \<open>c\<close> directory entries from \<open>d\<close> on.\<close>

lemma map_aligned_region:
  assumes wf: "wf_pd s xs pd" and n: "n = (unat sz + 4095) div 4096"
    and al: "unat base mod 4096 = 0" and end_: "unat base + n * 4096 \<le> 4294967296"
    and d: "unat base div 4194304 = d" "(unat base + n * 4096 - 1) div 4194304 < d + c"
    and out: "UVPT_D < d \<or> d + c \<le> UVPT_D" and free: "c \<le> length xs"
  shows "\<exists>s' ys. boot_map_region (kva pd) base sz pa perm s = Inr s' \<and> wf_pd s' ys pd
    \<and> length xs \<le> length ys + c
    \<and> (\<forall>va. pdi va \<noteq> UVPT_D \<longrightarrow> pte_at (mem s') pd (pdi va) (pti va) =
        (if unat base \<le> unat va \<and> unat va < unat base + n * 4096
         then (pa + PTE_ADDR (va - base)) OR PTE_P OR perm else pte_at (mem s) pd (pdi va) (pti va)))"
proof -
  let ?m = "missing (mem s) pd base n"
  have m: "?m \<le> c" using missing_bound(1) [OF al end_ d] .
  have "fst (nth_slot base k) \<noteq> UVPT_D" if "k < n" for k
    using missing_bound(2) [OF al end_ d that] out by auto
  moreover have "n \<le> 2 ^ 20" using end_ by simp
  ultimately obtain s' where s': "boot_map_loop n (kva pd) base pa perm s = Inr s'"
      "wf_pd s' (drop ?m xs) pd" "mapped n pd base pa perm s s'"
    using boot_map_loop_spec [OF wf, of n base pa perm] m free by auto
  show ?thesis
    using s' mapped_at [OF s'(3) al end_] m
    by (intro exI [of _ s'] exI [of _ "drop ?m xs"])
      (simp add: boot_map_region_pages n [symmetric])
qed

section \<open>The three regions of mem_init\<close>

text \<open>
  What the entry for an address must be: the page array at \<open>UPAGES\<close> for everyone to read,
  the kernel stack below \<open>KSTACKTOP\<close>, and all physical memory from \<open>KERNBASE\<close> on.
\<close>

definition kernel_pte :: "u32 \<Rightarrow> u32 \<Rightarrow> u32 \<Rightarrow> u32 option" where
  "kernel_pte pages_pa stack_pa va =
     (if UPAGES \<le> va \<and> va < UVPT then Some ((pages_pa + PTE_ADDR (va - UPAGES)) OR PTE_P OR (PTE_U OR PTE_P))
      else if KSTACKTOP - KSTKSIZE \<le> va \<and> va < KSTACKTOP
      then Some ((stack_pa + PTE_ADDR (va - (KSTACKTOP - KSTKSIZE))) OR PTE_P OR (PTE_W OR PTE_P))
      else if KERNBASE \<le> va then Some (PTE_ADDR (va - KERNBASE) OR PTE_P OR (PTE_W OR PTE_P))
      else None)"

text \<open>Mapping changes memory, the page array and the free list only.\<close>

lemma mem_part_upd [simp]: "mem_part s (s\<lparr>pages := ps\<rparr>)" "mem_part s (s\<lparr>page_free_list := q\<rparr>)"
  "mem_part s (s\<lparr>mem := m\<rparr>)" "mem_part s s"
  by (simp_all add: mem_part_def)

lemma mem_part_steps:
  "upd_page i f s = Inr s' \<Longrightarrow> mem_part s s'" "kstore a v s = Inr s' \<Longrightarrow> mem_part s s'"
  "kmemset a c n s = Inr s' \<Longrightarrow> mem_part s s'"
  by (auto simp: upd_page_def kstore_def kmemset_def split: if_splits)

lemma mem_part_alloc:
  assumes "page_alloc flags s = Inr (p, s')"
  shows "mem_part s s'"
proof (cases "page_free_list s")
  case None
  then show ?thesis using assms by (simp add: page_alloc_def)
next
  case (Some pp)
  then obtain q s1 where s1: "upd_page pp (\<lambda>p. p\<lparr>pp_link := None\<rparr>) (s\<lparr>page_free_list := q\<rparr>) = Inr s1"
    and s': "s' = s1 \<or> (\<exists>a. kmemset a 0 PGSIZE s1 = Inr s')"
    using assms by (auto simp: page_alloc_def bindE_eq_Inr Let_def split: if_splits)
  have "mem_part s s1" using mem_part_trans [OF mem_part_upd(2) mem_part_steps(1) [OF s1]] .
  then show ?thesis using s' mem_part_steps(3) mem_part_trans by blast
qed

lemma mem_part_walk:
  assumes "pgdir_walk pgdir va create s = Inr (p, s')"
  shows "mem_part s s'"
proof (cases "s' = s")
  case False
  then obtain pp s1 s2 where s1: "page_alloc 1 s = Inr (pp, s1)" and s2: "s' = s1 \<or>
      (\<exists>f i a v. upd_page i f s1 = Inr s2 \<and> kstore a v s2 = Inr s')"
    using assms unfolding pgdir_walk_def Let_def
    by (auto simp: bindE_eq_Inr split: if_splits option.splits) blast
  have "mem_part s s1" using mem_part_alloc [OF s1] .
  moreover have "mem_part s1 s'" using s2
  proof
    assume "\<exists>f i a v. upd_page i f s1 = Inr s2 \<and> kstore a v s2 = Inr s'"
    then obtain f i a v where "upd_page i f s1 = Inr s2" "kstore a v s2 = Inr s'" by blast
    then show ?thesis using mem_part_trans [OF mem_part_steps(1) mem_part_steps(2)] by blast
  qed simp
  ultimately show ?thesis by (rule mem_part_trans)
qed simp

lemma mem_part_map_loop: "boot_map_loop n pgdir va pa perm s = Inr s' \<Longrightarrow> mem_part s s'"
proof (induction n arbitrary: va pa s)
  case (Suc n)
  then obtain pte s1 s2 where "pgdir_walk pgdir va True s = Inr (pte, s1)" "kstore pte (pa OR PTE_P OR perm) s1 = Inr s2"
    "boot_map_loop n pgdir (va + PGSIZE) (pa + PGSIZE) perm s2 = Inr s'"
    by (auto simp: bindE_eq_Inr split: if_splits)
  then show ?case using Suc.IH mem_part_walk mem_part_steps(2) mem_part_trans by meson
qed simp

lemma mem_part_fields:
  assumes "mem_part s s'"
  shows "npages s' = npages s" "kern_pgdir s' = kern_pgdir s" "pages_kva s' = pages_kva s"
proof -
  have e: "s' = s\<lparr>mem := mem s', pages := pages s', page_free_list := page_free_list s', tlb := tlb s'\<rparr>"
    using assms by (simp only: mem_part_def)
  show "npages s' = npages s" "kern_pgdir s' = kern_pgdir s" "pages_kva s' = pages_kva s"
    using arg_cong [OF e, of npages] arg_cong [OF e, of kern_pgdir] arg_cong [OF e, of pages_kva] by simp_all
qed

text \<open>The three regions as ranges of numbers; they do not meet.\<close>

lemma kernel_regions:
  shows "UPAGES \<le> va \<and> va < UVPT \<longleftrightarrow> unat UPAGES \<le> unat va \<and> unat va < unat UPAGES + 1024 * 4096"
    and "KSTACKTOP - KSTKSIZE \<le> va \<and> va < KSTACKTOP
      \<longleftrightarrow> unat (KSTACKTOP - KSTKSIZE) \<le> unat va \<and> unat va < unat (KSTACKTOP - KSTKSIZE) + 8 * 4096"
    and "KERNBASE \<le> va \<longleftrightarrow> unat KERNBASE \<le> unat va \<and> unat va < unat KERNBASE + 65536 * 4096"
    and "unat UPAGES + 1024 * 4096 \<le> unat (KSTACKTOP - KSTKSIZE)"
    and "unat (KSTACKTOP - KSTKSIZE) + 8 * 4096 \<le> unat KERNBASE"
  using u32_bound [of va] unfolding word_le_nat_alt word_less_nat_alt by (simp_all add: layout)

lemma map_kernel_maps:
  assumes wf: "wf_pd s xs pd" and pgdir: "kern_pgdir s = kva pd"
    and pa: "PADDR (pages_kva s) = Inr pages_pa" "PADDR bootstack = Inr stack_pa" and free: "66 \<le> length xs"
  shows "\<exists>s' ys. map_kernel bootstack s = Inr s' \<and> wf_pd s' ys pd \<and> mem_part s s'
    \<and> (\<forall>va. pdi va \<noteq> UVPT_D \<longrightarrow> pte_at (mem s') pd (pdi va) (pti va) =
        (case kernel_pte pages_pa stack_pa va of None \<Rightarrow> pte_at (mem s) pd (pdi va) (pti va) | Some e \<Rightarrow> e))"
proof -
  let ?slot = "\<lambda>t va. pte_at (mem t) pd (pdi va) (pti va)"
  note vals = UVPT_D_def layout
  have "\<exists>s' ys. boot_map_region (kva pd) UPAGES PTSIZE pages_pa (PTE_U OR PTE_P) s = Inr s' \<and> wf_pd s' ys pd
      \<and> length xs \<le> length ys + 1 \<and> (\<forall>va. pdi va \<noteq> UVPT_D \<longrightarrow> ?slot s' va =
        (if unat UPAGES \<le> unat va \<and> unat va < unat UPAGES + 1024 * 4096
         then (pages_pa + PTE_ADDR (va - UPAGES)) OR PTE_P OR (PTE_U OR PTE_P) else ?slot s va))"
    by (rule map_aligned_region [OF wf, where d = 956]) (use free in \<open>simp_all add: vals\<close>)
  then obtain s1 ys1 where s1: "boot_map_region (kva pd) UPAGES PTSIZE pages_pa (PTE_U OR PTE_P) s = Inr s1"
      "wf_pd s1 ys1 pd" "length xs \<le> length ys1 + 1"
    and m1: "\<And>va. pdi va \<noteq> UVPT_D \<Longrightarrow> ?slot s1 va = (if unat UPAGES \<le> unat va \<and> unat va < unat UPAGES + 1024 * 4096
         then (pages_pa + PTE_ADDR (va - UPAGES)) OR PTE_P OR (PTE_U OR PTE_P) else ?slot s va)"
    by blast
  let ?ks = "KSTACKTOP - KSTKSIZE"
  have "\<exists>s' ys. boot_map_region (kva pd) ?ks KSTKSIZE stack_pa (PTE_W OR PTE_P) s1 = Inr s' \<and> wf_pd s' ys pd
      \<and> length ys1 \<le> length ys + 1 \<and> (\<forall>va. pdi va \<noteq> UVPT_D \<longrightarrow> ?slot s' va =
        (if unat ?ks \<le> unat va \<and> unat va < unat ?ks + 8 * 4096
         then (stack_pa + PTE_ADDR (va - ?ks)) OR PTE_P OR (PTE_W OR PTE_P) else ?slot s1 va))"
    by (rule map_aligned_region [OF s1(2), where d = 959]) (use free s1(3) in \<open>simp_all add: vals\<close>)
  then obtain s2 ys2 where s2: "boot_map_region (kva pd) ?ks KSTKSIZE stack_pa (PTE_W OR PTE_P) s1 = Inr s2"
      "wf_pd s2 ys2 pd" "length ys1 \<le> length ys2 + 1"
    and m2: "\<And>va. pdi va \<noteq> UVPT_D \<Longrightarrow> ?slot s2 va = (if unat ?ks \<le> unat va \<and> unat va < unat ?ks + 8 * 4096
         then (stack_pa + PTE_ADDR (va - ?ks)) OR PTE_P OR (PTE_W OR PTE_P) else ?slot s1 va)"
    by blast
  have "\<exists>s' ys. boot_map_region (kva pd) KERNBASE (0xffffffff - KERNBASE) 0 (PTE_W OR PTE_P) s2 = Inr s' \<and> wf_pd s' ys pd
      \<and> length ys2 \<le> length ys + 64 \<and> (\<forall>va. pdi va \<noteq> UVPT_D \<longrightarrow> ?slot s' va =
        (if unat KERNBASE \<le> unat va \<and> unat va < unat KERNBASE + 65536 * 4096
         then (0 + PTE_ADDR (va - KERNBASE)) OR PTE_P OR (PTE_W OR PTE_P) else ?slot s2 va))"
    by (rule map_aligned_region [OF s2(2), where d = 960]) (use free s1(3) s2(3) in \<open>simp_all add: vals\<close>)
  then obtain s3 ys3 where s3: "boot_map_region (kva pd) KERNBASE (0xffffffff - KERNBASE) 0 (PTE_W OR PTE_P) s2 = Inr s3"
      "wf_pd s3 ys3 pd"
    and m3: "\<And>va. pdi va \<noteq> UVPT_D \<Longrightarrow> ?slot s3 va = (if unat KERNBASE \<le> unat va \<and> unat va < unat KERNBASE + 65536 * 4096
         then PTE_ADDR (va - KERNBASE) OR PTE_P OR (PTE_W OR PTE_P) else ?slot s2 va)"
    unfolding add_0 by blast
  have part: "mem_part s s1" "mem_part s1 s2" "mem_part s2 s3"
    using s1(1) s2(1) s3(1) mem_part_map_loop unfolding boot_map_region_pages by blast+
  then have p: "mem_part s s3" using mem_part_trans by blast
  have k: "kern_pgdir s1 = kva pd" "kern_pgdir s2 = kva pd" using mem_part_fields(2) part pgdir by metis+
  have "map_kernel bootstack s = Inr s3"
    using pa s1(1) s2(1) s3(1) k pgdir by (simp add: map_kernel_def)
  moreover have "?slot s3 va = (case kernel_pte pages_pa stack_pa va of None \<Rightarrow> ?slot s va | Some e \<Rightarrow> e)"
    if va: "pdi va \<noteq> UVPT_D" for va
  proof -
    show ?thesis
      unfolding m3 [OF va] m2 [OF va] m1 [OF va] kernel_pte_def kernel_regions(1-3) [of va]
      using kernel_regions(4,5) by auto
  qed
  ultimately show ?thesis using p s3(2) by blast
qed

section \<open>What the check finds\<close>

lemma page_offsets_elem:
  assumes "i \<in> set (page_offsets n)"
  shows "unat i mod 4096 = 0" "unat i < unat n"
proof -
  obtain k where i: "i = of_nat k * PGSIZE" and k: "k < (unat n + 4095) div 4096"
    using assms by (auto simp: page_offsets_def)
  have le: "k * 4096 < unat n" using k by linarith
  then have "unat i = k * 4096"
    using u32_bound [of n] by (simp add: i PGSIZE_def unat_word_ariths unat_of_nat)
  then show "unat i mod 4096 = 0" "unat i < unat n" using le by simp_all
qed

lemma check_region_ok:
  assumes "\<And>i. i \<in> set (page_offsets n) \<Longrightarrow> check_va2pa pgdir (va + i) s = Inr (f i) \<and> pa i = Inr (f i)"
  shows "check_region pgdir va n pa msg s = Inr ()"
  unfolding check_region_def
proof (rule foldE_unit)
  fix i
  assume "i \<in> set (page_offsets n)"
  then have "check_va2pa pgdir (va + i) s = Inr (f i)" "pa i = Inr (f i)" using assms by blast+
  then show "bindE (check_va2pa pgdir (va + i) s) (\<lambda>found. bindE (pa i) (\<lambda>expected. assertE msg (found = expected))) = Inr ()"
    by simp
qed

lemma aligned_add:
  assumes "unat a mod 4096 = 0" and "unat b mod 4096 = 0"
  shows "page_aligned (a + b :: u32)"
proof -
  have "4096 dvd unat a + unat b" using assms by (simp add: dvd_add mod_0_imp_dvd)
  moreover have "(4096 :: nat) dvd 2 ^ 32" by simp
  ultimately have "4096 dvd (unat a + unat b) mod 2 ^ 32" by (rule dvd_mod)
  then show ?thesis by (simp add: page_aligned_dvd unat_word_ariths)
qed

text \<open>An aligned offset into a region mapped at consecutive frames.\<close>

lemma region_va2pa:
  assumes wf: "wf_pd s ys pd" and slot: "pte_at (mem s) pd (pdi (va + i)) (pti (va + i)) = (pa + PTE_ADDR i) OR PTE_P OR perm"
    and i: "unat i mod 4096 = 0" and pa: "unat pa mod 4096 = 0" and perm: "unat perm < 4096"
  shows "check_va2pa (kva pd) (va + i) s = Inr (pa + i)"
proof -
  have "unat (PTE_ADDR i) = unat i" using i by (simp add: unat_PTE_ADDR) (metis add.right_neutral div_mult_mod_eq)
  then have i': "PTE_ADDR i = i" by (simp add: word_unat_eq_iff)
  have "PTE_P OR perm < 4096"
    using flags_or_less [of PTE_P perm] perm by (simp add: PTE_P_def word_less_nat_alt)
  from PTE_ADDR_or [OF aligned_add [OF pa i] this]
  have "PTE_ADDR ((pa + i) OR PTE_P OR perm) = pa + i" by (simp only: or.assoc)
  then show ?thesis using slot unfolding check_va2pa_pte [OF wf] i' by (simp add: Let_def)
qed

lemma check_mapped_region:
  assumes wf: "wf_pd s ys pd" and p: "unat p mod 4096 = 0" "unat perm < 4096" and n: "unat va + unat n \<le> 4294967296"
    and pte: "\<And>i. unat i < unat n \<Longrightarrow> unat (va + i) = unat va + unat i
      \<Longrightarrow> pte_at (mem s) pd (pdi (va + i)) (pti (va + i)) = (p + PTE_ADDR i) OR PTE_P OR perm"
  shows "check_region (kva pd) va n (\<lambda>i. Inr (p + i)) msg s = Inr ()"
proof (rule check_region_ok [where f = "\<lambda>i. p + i"])
  fix i assume i: "i \<in> set (page_offsets n)"
  note e = page_offsets_elem [OF i]
  have "unat (va + i) = unat va + unat i" using e(2) n by (intro unat_less_add) simp
  from region_va2pa [OF wf pte [OF e(2) this] e(1) p]
  show "check_va2pa (kva pd) (va + i) s = Inr (p + i) \<and> Inr (p + i) = (Inr (p + i) :: kerr + u32)" by simp
qed

text \<open>The check of the environment array fails, whatever \<^verbatim>\<open>envs\<close> is, as nothing maps it.\<close>

definition envs_panic :: "u32 \<Rightarrow> kerr" where
  "envs_panic envs_ptr = Panic (if envs_ptr < KERNBASE then ''PADDR called with invalid kva''
     else ''check_va2pa(pgdir, UENVS + i) == PADDR(envs) + i'')"

lemma check_envs_fails:
  assumes wf: "wf_pd s ys pd" and n: "n \<noteq> 0" and none: "pte_at (mem s) pd (pdi UENVS) (pti UENVS) = 0"
  shows "check_region (kva pd) UENVS n (\<lambda>i. bindE (PADDR envs_ptr) (\<lambda>pa. Inr (pa + i)))
    ''check_va2pa(pgdir, UENVS + i) == PADDR(envs) + i'' s = Inl (envs_panic envs_ptr)"
proof -
  have "0 < (unat n + 4095) div 4096" using n unat_eq_zero [of n] by linarith
  then obtain js where js: "page_offsets n = 0 # js" by (simp add: page_offsets_def upt_conv_Cons)
  have va: "check_va2pa (kva pd) UENVS s = Inr (NOT 0)" unfolding check_va2pa_pte [OF wf] none by simp
  have "NOT 0 \<noteq> envs_ptr - KERNBASE" if "\<not> envs_ptr < KERNBASE"
  proof -
    have "unat (envs_ptr - KERNBASE) = unat envs_ptr - unat KERNBASE"
      using that by (simp add: unat_sub_le word_less_nat_alt word_le_nat_alt)
    moreover have "unat (NOT 0 :: u32) = 4294967295" by (simp add: unsigned_minus_1_eq_mask mask_eq_exp_minus_1)
    ultimately show ?thesis using u32_bound [of envs_ptr] by (auto simp: KERNBASE_def)
  qed
  then show ?thesis using va by (simp add: check_region_def js PADDR_def envs_panic_def)
qed

lemma kernel_space_run:
  assumes wf: "wf_pd s xs pd" and pgdir: "kern_pgdir s = kva pd"
    and empty: "\<And>d. d < 1024 \<Longrightarrow> d \<noteq> UVPT_D \<Longrightarrow> \<not> present (entry (mem s) pd d)"
    and pa: "PADDR (pages_kva s) = Inr pages_pa" "PADDR bootstack = Inr stack_pa"
    and al: "unat pages_pa mod 4096 = 0" "unat stack_pa mod 4096 = 0" and free: "66 \<le> length xs"
  shows "\<exists>s'. map_kernel bootstack s = Inr s'
    \<and> (\<forall>va. pdi va \<noteq> UVPT_D \<longrightarrow> pte_at (mem s') pd (pdi va) (pti va) =
        (case kernel_pte pages_pa stack_pa va of None \<Rightarrow> 0 | Some e \<Rightarrow> e))
    \<and> check_region (kva pd) UPAGES (ROUNDUP (npages s * SIZEOF_PAGEINFO) PGSIZE) (\<lambda>i. Inr (pages_pa + i)) m1 s' = Inr ()
    \<and> check_region (kva pd) KERNBASE (npages s * PGSIZE) Inr m2 s' = Inr ()
    \<and> check_region (kva pd) (KSTACKTOP - KSTKSIZE) KSTKSIZE (\<lambda>i. Inr (stack_pa + i)) m3 s' = Inr ()
    \<and> (\<forall>envs_ptr. check_kern_pgdir mc envs_ptr bootstack s' = Inl (envs_panic envs_ptr))"
proof -
  obtain s' ys where s': "map_kernel bootstack s = Inr s'" "wf_pd s' ys pd" "mem_part s s'"
    and slots: "\<forall>va. pdi va \<noteq> UVPT_D \<longrightarrow> pte_at (mem s') pd (pdi va) (pti va) =
        (case kernel_pte pages_pa stack_pa va of None \<Rightarrow> pte_at (mem s) pd (pdi va) (pti va) | Some e \<Rightarrow> e)"
    using map_kernel_maps [OF wf pgdir pa free] by blast
  have none: "pte_at (mem s) pd (pdi va) (pti va) = 0" if "pdi va \<noteq> UVPT_D" for va
    using empty [OF PDX_bound that] by (simp add: pte_at_def Let_def)
  have slots': "pte_at (mem s') pd (pdi va) (pti va) = (case kernel_pte pages_pa stack_pa va of None \<Rightarrow> 0 | Some e \<Rightarrow> e)"
    if "pdi va \<noteq> UVPT_D" for va
    using slots that none [OF that] by (simp split: option.splits)
  note fields = mem_part_fields [OF s'(3)]
  have np: "unat (npages s) \<le> 65536" using wf_pdD(2) [OF wf] by (simp add: wf_pages_def)
  have reg: "check_region (kva pd) va n (\<lambda>i. Inr (p + i)) msg s' = Inr ()"
    if p: "unat p mod 4096 = 0" "unat perm < 4096" and n: "unat va + unat n \<le> 4294967296"
      and pte: "\<And>i. unat i < unat n \<Longrightarrow> unat (va + i) = unat va + unat i \<Longrightarrow> pdi (va + i) \<noteq> UVPT_D
        \<and> kernel_pte pages_pa stack_pa (va + i) = Some ((p + PTE_ADDR i) OR PTE_P OR perm)" for va n p perm msg
    by (rule check_mapped_region [OF s'(2) p n]) (use pte slots' in \<open>simp\<close>)
  let ?n = "ROUNDUP (npages s * SIZEOF_PAGEINFO) PGSIZE"
  have n8: "unat (npages s * SIZEOF_PAGEINFO) = unat (npages s) * 8"
    using np by (simp add: SIZEOF_PAGEINFO_def unat_word_ariths)
  have nb: "unat ?n < 4194304"
    using ROUNDUP_PGSIZE(3) [of "npages s * SIZEOF_PAGEINFO"] np unfolding n8 by simp
  have n4: "unat (npages s * PGSIZE) = unat (npages s) * 4096"
    using np by (simp add: PGSIZE_def unat_word_ariths)
  have pages: "check_region (kva pd) UPAGES ?n (\<lambda>i. Inr (pages_pa + i)) msg s' = Inr ()" for msg
    by (rule reg [OF al(1), of "PTE_U OR PTE_P"])
      (use nb in \<open>simp_all add: kernel_pte_def word_le_nat_alt word_less_nat_alt unat_PDX UVPT_D_def layout\<close>)
  have phys: "check_region (kva pd) KERNBASE (npages s * PGSIZE) (\<lambda>i. Inr (0 + i)) msg s' = Inr ()" for msg
    by (rule reg [of 0 "PTE_W OR PTE_P"])
      (use np in \<open>simp_all add: n4 [unfolded PGSIZE_def] kernel_pte_def word_le_nat_alt word_less_nat_alt unat_PDX UVPT_D_def layout\<close>)
  have stack: "check_region (kva pd) (KSTACKTOP - KSTKSIZE) KSTKSIZE (\<lambda>i. Inr (stack_pa + i)) msg s' = Inr ()" for msg
    by (rule reg [OF al(2), of "PTE_W OR PTE_P"])
      (simp_all add: kernel_pte_def word_le_nat_alt word_less_nat_alt unat_PDX UVPT_D_def layout)
  have "ROUNDUP (NENV * SIZEOF_ENV) PGSIZE \<noteq> 0"
    by (simp add: NENV_def LOG2NENV_def SIZEOF_ENV_def ROUNDUP_def ROUNDDOWN_def PGSIZE_def push_bit_eq_mult)
  moreover have "pte_at (mem s') pd (pdi UENVS) (pti UENVS) = 0"
    using slots' [of UENVS] by (simp add: kernel_pte_def unat_PDX UVPT_D_def layout)
  ultimately have "check_kern_pgdir mc envs_ptr bootstack s' = Inl (envs_panic envs_ptr)" for envs_ptr
    using pages pa(1) check_envs_fails [OF s'(2)] by (simp add: check_kern_pgdir_def Let_def fields pgdir)
  then show ?thesis using s'(1) slots' pages phys stack by auto
qed

text \<open>C8: With 66 free pages and an empty directory, the three mappings of \<open>mem_init\<close> succeed and the
  address space is exactly the one of \<open>kernel_pte\<close> (every other address outside \<open>UVPT\<close> is
  unmapped). The checks of the page array, of physical memory and of the kernel stack then
  pass, but \<open>check_kern_pgdir\<close> as a whole panics, because the environment array is not mapped; the
  panic is that of \<open>PADDR\<close> if \<^verbatim>\<open>envs\<close> is the null pointer, as it is in \<open>mem_init\<close>.\<close>

theorem kernel_space_checked:
  assumes wf: "wf_pd s xs pd" and pgdir: "kern_pgdir s = kva pd"
    and empty: "\<And>d. d < 1024 \<Longrightarrow> d \<noteq> UVPT_D \<Longrightarrow> \<not> present (entry (mem s) pd d)"
    and pa: "PADDR (pages_kva s) = Inr pages_pa" "PADDR bootstack = Inr stack_pa"
    and al: "unat pages_pa mod 4096 = 0" "unat stack_pa mod 4096 = 0" and free: "66 \<le> length xs"
  shows "\<exists>s'. map_kernel bootstack s = Inr s'
    \<and> (\<forall>va. pdi va \<noteq> UVPT_D \<longrightarrow> pte_at (mem s') pd (pdi va) (pti va) =
        (case kernel_pte pages_pa stack_pa va of None \<Rightarrow> 0 | Some e \<Rightarrow> e))
    \<and> check_region (kva pd) UPAGES (ROUNDUP (npages s * SIZEOF_PAGEINFO) PGSIZE) (\<lambda>i. Inr (pages_pa + i)) m1 s' = Inr ()
    \<and> check_region (kva pd) KERNBASE (npages s * PGSIZE) Inr m2 s' = Inr ()
    \<and> check_region (kva pd) (KSTACKTOP - KSTKSIZE) KSTKSIZE (\<lambda>i. Inr (stack_pa + i)) m3 s' = Inr ()
    \<and> (\<forall>envs_ptr. check_kern_pgdir mc envs_ptr bootstack s' = Inl (envs_panic envs_ptr))"
  by (rule kernel_space_run [OF assms])

text \<open>A machine of 80 pages with an empty directory in page 1 and the pages 2 to 79 free.\<close>

definition empty_space :: kenv where
  "empty_space = with_envs (demo\<lparr>npages := 80, kern_pgdir := kva 1, pages_kva := 0xF0100000,
     pages := [unused None, unused None] @ map (\<lambda>i. unused (if i < 79 then Some (Suc i) else None)) [2..<80],
     page_free_list := Some 2\<rparr>) [] None None"

lemma empty_space_free: "free_inv empty_space [2..<80]"
proof -
  have len: "length (pages empty_space) = 80" "npages empty_space = 80" "page_free_list empty_space = Some 2"
    unfolding empty_space_def by simp_all
  have nth: "pages empty_space ! i = unused (if 2 \<le> i \<and> i < 79 then Some (Suc i) else None)" if "i < 80" for i
    using that unfolding empty_space_def by (cases "i < 2") (auto simp: nth_append less_Suc_eq numeral_2_eq_2)
  have chained: "linked (pages empty_space) (Some k) [k..<80]" if "2 \<le> k" "k < 80" for k
    using that
  proof (induction "80 - k" arbitrary: k)
    case (Suc n)
    have "[k..<80] = k # [Suc k..<80]" using Suc.prems(2) by (simp add: upt_conv_Cons)
    moreover have "linked (pages empty_space) (if k < 79 then Some (Suc k) else None) [Suc k..<80]"
    proof (cases "k < 79")
      case True
      then show ?thesis using Suc.hyps(1) [of "Suc k"] Suc.hyps(2) Suc.prems by simp
    qed simp
    ultimately show ?case using nth [OF Suc.prems(2)] Suc.prems len(1) by simp
  qed simp
  have lk: "linked (pages empty_space) (Some 2) [2..<80]" by (rule chained) simp_all
  have set: "i \<in> set [2..<80] \<longleftrightarrow> 2 \<le> i \<and> i < 80" for i by (simp only: set_upt atLeastLessThan_iff)
  show ?thesis
    unfolding free_inv_def wf_pages_def len set using lk nth by (simp del: upt_rec_numeral)
qed

lemma kernel_space_checked_witness:
  "\<exists>s'. map_kernel 0xF0110000 empty_space = Inr s'
    \<and> pte_at (mem s') 1 (pdi 0xF0001234) (pti 0xF0001234) = 0x1003
    \<and> check_kern_pgdir blank_machine 0 0xF0110000 s' = Inl (Panic ''PADDR called with invalid kva'')"
proof -
  have mem: "entry (mem empty_space) f i = 0" for f i by (simp add: empty_space_def demo_def)
  have len: "length (pages empty_space) = 80" unfolding empty_space_def by simp
  have wf: "wf_pd empty_space [2..<80] 1"
    using empty_space_free by (simp add: wf_pd_def mem len)
  have pgdir: "kern_pgdir empty_space = kva 1" unfolding empty_space_def by simp
  have pages: "PADDR (pages_kva empty_space) = Inr 0x100000"
    by (simp add: empty_space_def with_envs_def kstate.extend_def PADDR_def KERNBASE_def)
  have stack: "PADDR 0xF0110000 = Inr 0x110000" by (simp add: PADDR_def KERNBASE_def)
  have dir: "pdi 0xF0001234 \<noteq> UVPT_D" by (simp add: unat_PDX UVPT_D_def)
  have pte: "kernel_pte 0x100000 0x110000 0xF0001234 = Some 0x1003"
    by (simp add: kernel_pte_def layout PTE_ADDR_def)
  have empty: "\<And>d. d < 1024 \<Longrightarrow> d \<noteq> UVPT_D \<Longrightarrow> \<not> present (entry (mem empty_space) 1 d)" by (simp add: mem)
  have panic: "envs_panic 0 = Panic ''PADDR called with invalid kva''" by (simp add: envs_panic_def KERNBASE_def)
  from kernel_space_checked [OF wf pgdir empty pages stack, of "[]" "[]" "[]" blank_machine]
  obtain s' where "map_kernel 0xF0110000 empty_space = Inr s'"
    "\<forall>va. pdi va \<noteq> UVPT_D \<longrightarrow> pte_at (mem s') 1 (pdi va) (pti va) = (case kernel_pte 0x100000 0x110000 va of None \<Rightarrow> 0 | Some e \<Rightarrow> e)"
    "check_kern_pgdir blank_machine 0 0xF0110000 s' = Inl (envs_panic 0)" by auto
  then show ?thesis using dir pte panic by auto
qed

end
