(* ===== verification/PageTest.thy ===== *)
theory PageTest
  imports KernelMap
begin

text \<open>
  \<open>check_page\<close> of \<^verbatim>\<open>kern/pmap.c\<close> run symbolically: what each operation it calls does on a state
  given by its memory, the entries of the page array that differ from the initial ones, the free
  list and the TLB, and the whole test on any well-formed state with three free pages.
\<close>

section \<open>States by their parts\<close>

definition state_of :: "'z ks \<Rightarrow> memory \<Rightarrow> (nat \<rightharpoonup> page_info) \<Rightarrow> nat option \<Rightarrow> (u32 \<Rightarrow> u32 option) \<Rightarrow> 'z ks" where
  "state_of s m g q tc = s\<lparr>mem := m, pages := over (pages s) g, page_free_list := q, tlb := tc\<rparr>"

lemma state_of_with: "state_of s m g q tc = with_pages (s\<lparr>tlb := tc\<rparr>) m g q"
  by (simp add: state_of_def with_pages_def)

lemma state_of_fields [simp]: "mem (state_of s m g q tc) = m" "page_free_list (state_of s m g q tc) = q"
  "length (pages (state_of s m g q tc)) = length (pages s)" "npages (state_of s m g q tc) = npages s"
  "kern_pgdir (state_of s m g q tc) = kern_pgdir s" "tlb (state_of s m g q tc) = tc"
  by (simp_all add: state_of_def)

lemma state_of_update [simp]: "(state_of s m g q tc)\<lparr>mem := m'\<rparr> = state_of s m' g q tc"
  "(state_of s m g q tc)\<lparr>page_free_list := q'\<rparr> = state_of s m g q' tc"
  "(state_of s m g q tc)\<lparr>tlb := tc'\<rparr> = state_of s m g q tc'"
  by (simp_all add: state_of_def)

lemma state_of_wf [simp]: "wf_pages (state_of s m g q tc) = wf_pages s"
  by (simp add: wf_pages_def)

lemma state_of_page:
  assumes "x < length (pages s)" and "g x = Some p"
  shows "get_page (state_of s m g q tc) x = Inr p"
    "upd_page x f (state_of s m g q tc) = Inr (state_of s m (g(x \<mapsto> f p)) q tc)"
  using assms by (simp_all add: get_page_def upd_page_def state_of_def over_upd)

lemma state_of_alloc:
  assumes "wf_pages s" and "x < length (pages s)" and "g x = Some (unused l)"
  shows "page_alloc 0 (state_of s m g (Some x) tc) = Inr (Some x, state_of s m (g(x \<mapsto> unused None)) l tc)"
    "page_alloc 1 (state_of s m g (Some x) tc)
      = Inr (Some x, state_of s (fill m (page2pa x) 4096 0) (g(x \<mapsto> unused None)) l tc)"
  using with_pages_alloc [of "s\<lparr>tlb := tc\<rparr>" x g l m] assms unfolding state_of_with ALLOC_ZERO_def by simp_all

lemma state_of_free:
  assumes "x < length (pages s)" and "g x = Some (unused None)"
  shows "page_free x (state_of s m g q tc) = Inr (state_of s m (g(x \<mapsto> unused q)) (Some x) tc)"
  using with_pages_free [of x "s\<lparr>tlb := tc\<rparr>" g m q] assms unfolding state_of_with by simp

lemma state_of_none [simp]: "page_alloc f (state_of s m g None tc) = Inr (None, state_of s m g None tc)"
  by (simp add: page_alloc_def)

section \<open>Walking and looking up\<close>

lemma load_slot:
  assumes "wf_pages s" and "f < length (pages s)" and "i < 1024"
  shows "kload (state_of s m g q tc) (kva f + 4 * of_nat i) = Inr (entry m f i)"
    "kstore (kva f + 4 * of_nat i) v (state_of s m g q tc) = Inr (state_of s (set_entry f i v m) g q tc)"
  by (simp_all add: kload_entry [OF wf_pages_lt [OF assms(1,2)] assms(3)] kstore_entry [OF wf_pages_lt [OF assms(1,2)] assms(3)])

lemma walk_table:
  assumes wf: "wf_pages s" and pd: "pd < length (pages s)" and p: "present (entry m pd (pdi va))"
    and f: "frame_of (entry m pd (pdi va)) < length (pages s)"
  shows "pgdir_walk (kva pd) va create (state_of s m g q tc)
    = Inr (kva (frame_of (entry m pd (pdi va))) + 4 * of_nat (pti va), state_of s m g q tc)"
  using load_slot(1) [OF wf pd PDX_bound, of m g q tc va] KADDR_frame [of "state_of s m g q tc", of "entry m pd (pdi va)"] wf p f
  by (simp add: pgdir_walk_def)

lemma walk_missing:
  assumes wf: "wf_pages s" and pd: "pd < length (pages s)" and p: "\<not> present (entry m pd (pdi va))"
    and none: "create \<Longrightarrow> q = None"
  shows "pgdir_walk (kva pd) va create (state_of s m g q tc) = Inr (0, state_of s m g q tc)"
  using load_slot(1) [OF wf pd PDX_bound, of m g q tc va] p none
  by (cases create) (simp_all add: pgdir_walk_def)

lemma walk_fresh:
  assumes wf: "wf_pages s" and pd: "pd < length (pages s)" and p: "\<not> present (entry m pd (pdi va))"
    and x: "x < length (pages s)" "g x = Some (unused l)"
  shows "pgdir_walk (kva pd) va True (state_of s m g (Some x) tc) = Inr (kva x + 4 * of_nat (pti va),
    state_of s (set_entry pd (pdi va) (new_pde x) (fill m (page2pa x) 4096 0)) (g(x \<mapsto> \<lparr>pp_link = None, pp_ref = 1\<rparr>)) l tc)"
proof -
  have kv: "page2kva t x = Inr (kva x)" if "wf_pages t" "x < length (pages t)" for t :: "'a ks"
    using that by (rule page2kva_Inr)
  have pa: "PADDR (kva x) = Inr (page2pa x)"
    using page2pa_bound [OF wf x(1)] by (intro PADDR_kva) simp
  note st = load_slot [OF wf pd PDX_bound]
  show ?thesis
    using st(1) [of m g "Some x" tc va] p wf x state_of_alloc(2) [where g = g and m = m, OF wf x]
      st(2) [of va "new_pde x" "fill m (page2pa x) 4096 0"]
    by (simp add: pgdir_walk_def state_of_page kv pa or.assoc)
qed

lemma slot_not_null: "wf_pages s \<Longrightarrow> f < length (pages s) \<Longrightarrow> kva f + 4 * of_nat (pti va) \<noteq> 0"
  using slot_nonzero [OF wf_pages_lt PTX_bound] by blast

lemma lookup_table:
  assumes wf: "wf_pages s" and pd: "pd < length (pages s)" and p: "entry m pd (pdi va) = new_pde x"
    and x: "x < length (pages s)" and f: "frame_of (entry m x (pti va)) < length (pages s)"
  shows "page_lookup (kva pd) va (state_of s m g q tc)
    = Inr (Some (frame_of (entry m x (pti va)), kva x + 4 * of_nat (pti va)), state_of s m g q tc)"
proof -
  have fr: "frame_of (entry m pd (pdi va)) = x" "present (entry m pd (pdi va))"
    using new_pde wf_pages_lt [OF wf x] by (simp_all add: p)
  show ?thesis
    using walk_table [OF wf pd fr(2)] fr x slot_not_null [OF wf x, of va] load_slot(1) [OF wf x PTX_bound, of m g q tc va]
      pa2page_frame [of "state_of s m g q tc" "entry m x (pti va)"] wf f
    by (simp add: page_lookup_def)
qed

section \<open>Inserting and removing\<close>

text \<open>The page \<open>pp\<close> mapped with permissions \<open>perm\<close>.\<close>

abbreviation pte_for :: "nat \<Rightarrow> u32 \<Rightarrow> u32" where
  "pte_for pp perm \<equiv> page2pa pp OR perm OR PTE_P"

lemma pte_for_page:
  assumes "pp < 65536" and "unat perm < 4096"
  shows "frame_of (pte_for pp perm) = pp" "PTE_ADDR (pte_for pp perm) = page2pa pp" "present (pte_for pp perm)"
proof -
  have "perm OR PTE_P < 4096"
    using flags_or_less [of perm PTE_P] assms(2) by (simp add: PTE_P_def word_less_nat_alt)
  then show "frame_of (pte_for pp perm) = pp" using frame_of_page assms(1) by (simp add: or.assoc)
  show "PTE_ADDR (pte_for pp perm) = page2pa pp" using PTE_ADDR_page assms by simp
  show "present (pte_for pp perm)" by (rule present_new_pte)
qed

text \<open>One reference more, and one reference less that is not the last.\<close>

abbreviation one_more :: "page_info \<Rightarrow> page_info" where "one_more p \<equiv> p\<lparr>pp_ref := pp_ref p + 1\<rparr>"
abbreviation one_less :: "page_info \<Rightarrow> page_info" where "one_less p \<equiv> p\<lparr>pp_ref := pp_ref p - 1\<rparr>"

lemma remove_table:
  assumes wf: "wf_pages s" and pd: "pd < length (pages s)" and p: "entry m pd (pdi va) = new_pde x"
    and x: "x < length (pages s)" and f: "frame_of (entry m x (pti va)) = old" "old < length (pages s)" "g old = Some po"
  shows "pp_ref po \<noteq> 1 \<Longrightarrow> page_remove (kva pd) va (state_of s m g q tc)
      = Inr (state_of s (set_entry x (pti va) 0 m) (g(old \<mapsto> one_less po)) q (tc(PGNUM va := None)))"
    "po = \<lparr>pp_link = None, pp_ref = 1\<rparr> \<Longrightarrow> page_remove (kva pd) va (state_of s m g q tc)
      = Inr (state_of s (set_entry x (pti va) 0 m) (g(old \<mapsto> unused q)) (Some old) (tc(PGNUM va := None)))"
proof -
  have look: "page_lookup (kva pd) va (state_of s m g q tc) = Inr (Some (old, kva x + 4 * of_nat (pti va)), state_of s m g q tc)"
    using lookup_table [OF wf pd p x] f by simp
  note st = load_slot(2) [OF wf x PTX_bound]
  show "page_remove (kva pd) va (state_of s m g q tc)
      = Inr (state_of s (set_entry x (pti va) 0 m) (g(old \<mapsto> one_less po)) q (tc(PGNUM va := None)))" if "pp_ref po \<noteq> 1"
    using look f st that by (simp add: page_remove_def page_decref_def state_of_page tlb_invalidate_def invlpg_def)
  show "page_remove (kva pd) va (state_of s m g q tc)
      = Inr (state_of s (set_entry x (pti va) 0 m) (g(old \<mapsto> unused q)) (Some old) (tc(PGNUM va := None)))"
    if "po = \<lparr>pp_link = None, pp_ref = 1\<rparr>"
    using look f st that by (simp add: page_remove_def page_decref_def state_of_page state_of_free tlb_invalidate_def invlpg_def)
qed

lemma insert_table:
  assumes wf: "wf_pages s" and pd: "pd < length (pages s)" and p: "entry m pd (pdi va) = new_pde x"
    and x: "x < length (pages s)" and pp: "pp < length (pages s)" "g pp = Some i"
    and old: "(if present (entry m x (pti va)) then page_remove (kva pd) va (state_of s m (g(pp \<mapsto> one_more i)) q tc)
      else Inr (state_of s m (g(pp \<mapsto> one_more i)) q tc)) = Inr (state_of s m' g' q' tc')"
  shows "page_insert (kva pd) pp va perm (state_of s m g q tc)
    = Inr (0, state_of s (set_entry x (pti va) (pte_for pp perm) m') g' q' tc')"
proof -
  have fr: "frame_of (entry m pd (pdi va)) = x" "present (entry m pd (pdi va))"
    using new_pde wf_pages_lt [OF wf x] by (simp_all add: p)
  have "pgdir_walk (kva pd) va True (state_of s m g q tc) = Inr (kva x + 4 * of_nat (pti va), state_of s m g q tc)"
    using walk_table [OF wf pd fr(2)] fr x by simp
  then show ?thesis
    using slot_not_null [OF wf x, of va] old state_of_page(2) [of pp s g i] pp
      load_slot [OF wf x PTX_bound]
    by (simp add: page_insert_def or.assoc)
qed

lemma insert_new:
  assumes "wf_pages s" "pd < length (pages s)" "entry m pd (pdi va) = new_pde x" "x < length (pages s)"
    and "pp < length (pages s)" "g pp = Some i" and "\<not> present (entry m x (pti va))"
  shows "page_insert (kva pd) pp va perm (state_of s m g q tc)
    = Inr (0, state_of s (set_entry x (pti va) (pte_for pp perm) m) (g(pp \<mapsto> one_more i)) q tc)"
  using insert_table [OF assms(1-4), of pp g i] assms(5-) by simp

lemma insert_over:
  assumes a: "wf_pages s" "pd < length (pages s)" "entry m pd (pdi va) = new_pde x" "x < length (pages s)"
    and pp: "pp < length (pages s)" "g pp = Some i"
    and old: "entry m x (pti va) = pte_for old f" "unat f < 4096" "old < length (pages s)"
    and po: "(g(pp \<mapsto> one_more i)) old = Some po"
  shows "pp_ref po \<noteq> 1 \<Longrightarrow> page_insert (kva pd) pp va perm (state_of s m g q tc)
      = Inr (0, state_of s (set_entry x (pti va) (pte_for pp perm) (set_entry x (pti va) 0 m))
          (g(pp \<mapsto> one_more i, old \<mapsto> one_less po)) q (tc(PGNUM va := None)))"
    "po = \<lparr>pp_link = None, pp_ref = 1\<rparr> \<Longrightarrow> page_insert (kva pd) pp va perm (state_of s m g q tc)
      = Inr (0, state_of s (set_entry x (pti va) (pte_for pp perm) (set_entry x (pti va) 0 m))
          (g(pp \<mapsto> one_more i, old \<mapsto> unused q)) (Some old) (tc(PGNUM va := None)))"
proof -
  note o = pte_for_page [OF wf_pages_lt [OF a(1) old(3)] old(2)]
  have fr: "frame_of (entry m x (pti va)) = old" "present (entry m x (pti va))" using o old(1) by simp_all
  note ins = insert_table [where g = g, OF a pp, of q tc]
  note rem = remove_table [where g = "g(pp \<mapsto> one_more i)", OF a fr(1) old(3) po, of q tc]
  show "page_insert (kva pd) pp va perm (state_of s m g q tc)
      = Inr (0, state_of s (set_entry x (pti va) (pte_for pp perm) (set_entry x (pti va) 0 m))
          (g(pp \<mapsto> one_more i, old \<mapsto> one_less po)) q (tc(PGNUM va := None)))" if "pp_ref po \<noteq> 1"
    by (rule ins) (simp only: fr not_False_eq_True if_True rem(1) [OF that])
  show "page_insert (kva pd) pp va perm (state_of s m g q tc)
      = Inr (0, state_of s (set_entry x (pti va) (pte_for pp perm) (set_entry x (pti va) 0 m))
          (g(pp \<mapsto> one_more i, old \<mapsto> unused q)) (Some old) (tc(PGNUM va := None)))" if "po = \<lparr>pp_link = None, pp_ref = 1\<rparr>"
    by (rule ins) (simp only: fr not_False_eq_True if_True rem(2) [OF that])
qed

lemma insert_no_memory:
  assumes wf: "wf_pages s" and pd: "pd < length (pages s)" and p: "\<not> present (entry m pd (pdi va))"
  shows "page_insert (kva pd) pp va perm (state_of s m g None tc) = Inr (- E_NO_MEM, state_of s m g None tc)"
  using walk_missing [OF wf pd p, of True None] by (simp add: page_insert_def)

lemma insert_fresh:
  assumes wf: "wf_pages s" and pd: "pd < length (pages s)" and p: "\<not> present (entry m pd (pdi va))"
    and x: "x < length (pages s)" "x \<noteq> pd" "g x = Some (unused l)" and pp: "pp < length (pages s)" "pp \<noteq> x" "g pp = Some i"
  shows "page_insert (kva pd) pp va perm (state_of s m g (Some x) tc)
    = Inr (0, state_of s (set_entry x (pti va) (pte_for pp perm) (set_entry pd (pdi va) (new_pde x) (fill m (page2pa x) 4096 0)))
        (g(x \<mapsto> \<lparr>pp_link = None, pp_ref = 1\<rparr>, pp \<mapsto> one_more i)) l tc)"
proof -
  let ?m = "set_entry pd (pdi va) (new_pde x) (fill m (page2pa x) 4096 0)"
  let ?g = "g(x \<mapsto> \<lparr>pp_link = None, pp_ref = 1\<rparr>)"
  have b: "pd < 65536" "x < 65536" using wf_pages_lt [OF wf] pd x(1) by blast+
  have e: "entry ?m x (pti va) = 0"
    using b x(2) PDX_bound [of va] PTX_bound [of va] by (simp add: entry_set_entry entry_fill)
  show ?thesis
    using walk_fresh [where g = g, OF wf pd p x(1,3)] slot_not_null [OF wf x(1), of va] state_of_page(2) [of pp s ?g i] pp
      load_slot [OF wf x(1) PTX_bound] e
    by (simp add: page_insert_def or.assoc)
qed

lemma va2pa_table:
  assumes wf: "wf_pages s" and pd: "pd < length (pages s)" and p: "entry m pd (pdi va) = new_pde x" and x: "x < length (pages s)"
  shows "check_va2pa (kva pd) va (state_of s m g q tc)
    = Inr (if present (entry m x (pti va)) then PTE_ADDR (entry m x (pti va)) else NOT 0)"
proof -
  have fr: "frame_of (entry m pd (pdi va)) = x" "present (entry m pd (pdi va))"
    using new_pde wf_pages_lt [OF wf x] by (simp_all add: p)
  show ?thesis
    using load_slot(1) [OF wf pd PDX_bound, of m g q tc va] load_slot(1) [OF wf x PTX_bound, of m g q tc va]
      KADDR_frame [of "state_of s m g q tc" "entry m pd (pdi va)"] wf x fr
    by (simp add: check_va2pa_def)
qed

section \<open>The memory during the test\<close>

text \<open>
  The page table of the test is in page \<open>x\<close>; its slots 0 and 1 hold \<open>a\<close> and \<open>b\<close>. Outside \<open>x\<close>
  and the first two directory slots nothing changes.
\<close>

definition keeps :: "nat \<Rightarrow> nat \<Rightarrow> memory \<Rightarrow> memory \<Rightarrow> bool" where
  "keeps x pd m0 m \<longleftrightarrow> (\<forall>f < 65536. \<forall>i < 1024. f \<noteq> x \<longrightarrow> \<not> (f = pd \<and> i < 2) \<longrightarrow> entry m f i = entry m0 f i)"

definition test_mem :: "nat \<Rightarrow> nat \<Rightarrow> memory \<Rightarrow> u32 \<Rightarrow> u32 \<Rightarrow> memory \<Rightarrow> bool" where
  "test_mem x pd m0 a b m \<longleftrightarrow> keeps x pd m0 m \<and> entry m pd 0 = new_pde x \<and> \<not> present (entry m pd 1)
     \<and> entry m x 0 = a \<and> entry m x 1 = b"

lemma keeps_step:
  assumes "x < 65536" and "pd < 65536"
  shows "keeps x pd m m" "keeps x pd m0 m \<Longrightarrow> i < 1024 \<Longrightarrow> keeps x pd m0 (set_entry x i v m)"
    "keeps x pd m0 m \<Longrightarrow> i < 2 \<Longrightarrow> keeps x pd m0 (set_entry pd i v m)"
    "keeps x pd m0 m \<Longrightarrow> keeps x pd m0 (fill m (page2pa x) 4096 0)"
  using assms by (auto simp: keeps_def entry_set_entry entry_fill)

lemma test_mem_step:
  assumes "test_mem x pd m0 a b m" and "x < 65536" and "pd < 65536" and "x \<noteq> pd"
  shows "test_mem x pd m0 v b (set_entry x 0 v m)" "test_mem x pd m0 a v (set_entry x 1 v m)"
  using assms keeps_step by (simp_all add: test_mem_def entry_set_entry)

lemma test_mem_start:
  assumes "x < 65536" and "pd < 65536" and "x \<noteq> pd" and "\<not> present (entry m0 pd 1)"
  shows "test_mem x pd m0 0 0 (set_entry pd 0 (new_pde x) (fill m0 (page2pa x) 4096 0))"
  using assms keeps_step by (simp add: test_mem_def entry_set_entry entry_fill)

text \<open>The addresses the test uses.\<close>

lemma test_addresses [simp]: "pdi 0 = 0" "pti 0 = 0" "pdi PGSIZE = 0" "pti PGSIZE = 1" "pdi PTSIZE = 1"
  "pdi (PGSIZE * of_nat NPDENTRIES + PGSIZE) = 1" "pti (PGSIZE * of_nat NPDENTRIES + PGSIZE) = 1"
  by (simp_all add: unat_PDX unat_PTX PGSIZE_def PTSIZE_def NPDENTRIES_def)

text \<open>The flags of an entry.\<close>

lemma page_flag:
  assumes "f < (4096 :: u32)"
  shows "(page2pa pp OR v) AND f = v AND f"
proof -
  have "\<not> bit f n" if "12 \<le> n" for n
    using bit_less_exp [of f 12 n] assms that by (auto simp: word_less_nat_alt)
  then show ?thesis by (intro bit_word_eqI) (auto simp: page2pa_def bit_simps)
qed

section \<open>The test\<close>

text \<open>The directory and the three pages the test allocates.\<close>

definition testable :: "'z ks \<Rightarrow> nat \<Rightarrow> nat \<Rightarrow> nat \<Rightarrow> nat \<Rightarrow> bool" where
  "testable s pd x y z \<longleftrightarrow> wf_pages s \<and> kern_pgdir s = kva pd \<and> pd < length (pages s)
     \<and> x < length (pages s) \<and> y < length (pages s) \<and> z < length (pages s) \<and> distinct [pd, x, y, z]"

abbreviation trio :: "nat \<Rightarrow> nat \<Rightarrow> nat \<Rightarrow> page_info \<Rightarrow> page_info \<Rightarrow> page_info \<Rightarrow> (nat \<rightharpoonup> page_info)" where
  "trio x y z p q r \<equiv> [x \<mapsto> p, y \<mapsto> q, z \<mapsto> r]"

abbreviation held :: "u16 \<Rightarrow> page_info" where "held n \<equiv> \<lparr>pp_link = None, pp_ref = n\<rparr>"

lemma trio_upd:
  assumes "distinct [x, y, z]"
  shows "(trio x y z p q r) x = Some p" "(trio x y z p q r) y = Some q" "(trio x y z p q r) z = Some r"
    "(trio x y z p q r)(x \<mapsto> v) = trio x y z v q r" "(trio x y z p q r)(y \<mapsto> v) = trio x y z p v r"
    "(trio x y z p q r)(z \<mapsto> v) = trio x y z p q v"
  using assms by (auto simp: fun_eq_iff)

lemma testableD:
  assumes "testable s pd x y z"
  shows "wf_pages s" "kern_pgdir s = kva pd" "pd < length (pages s)" "x < length (pages s)" "y < length (pages s)"
    "z < length (pages s)" "pd < 65536" "x < 65536" "y < 65536" "z < 65536" "distinct [x, y, z]" "x \<noteq> pd"
    "x \<noteq> y" "x \<noteq> z" "y \<noteq> z"
  using assms wf_pages_lt by (auto simp: testable_def)

lemma small_flags: "unat PTE_W < 4096" "unat (PTE_W OR PTE_U) < 4096" "unat (0 :: u32) < 4096"
  by (simp_all add: layout)

lemma test_asserts:
  assumes T: "testable s pd x y z" and M: "test_mem x pd m0 a b m"
  shows "kload (state_of s m g q tc) (kva pd) = Inr (new_pde x)" "assert_pde_page x (state_of s m g q tc) = Inr ()"
    "assert_va2pa 0 pa msg (state_of s m g q tc) = assertE msg ((if present a then PTE_ADDR a else NOT 0) = pa)"
    "assert_va2pa PGSIZE pa msg (state_of s m g q tc) = assertE msg ((if present b then PTE_ADDR b else NOT 0) = pa)"
    "pgdir_walk (kva pd) PGSIZE create (state_of s m g q tc) = Inr (kva x + 4, state_of s m g q tc)"
    "assert_pte P msg (state_of s m g q tc) = bindE (assertE msg (P b)) (\<lambda>_. Inr (state_of s m g q tc))"
proof -
  note D = testableD [OF T]
  have e: "entry m pd 0 = new_pde x" "entry m x 0 = a" "entry m x 1 = b" using M by (simp_all add: test_mem_def)
  have pde: "kload (state_of s m g q tc) (kva pd) = Inr (new_pde x)"
    using load_slot(1) [OF D(1,3), of 0 m g q tc] e by simp
  then show "kload (state_of s m g q tc) (kva pd) = Inr (new_pde x)" .
  have "new_pde x = page2pa x OR 7" by (simp add: layout or.assoc)
  then have "PTE_ADDR (new_pde x) = page2pa x" using PTE_ADDR_or [of "page2pa x" 7] by simp
  then show "assert_pde_page x (state_of s m g q tc) = Inr ()"
    using pde D(2) by (simp add: assert_pde_page_def)
  show "assert_va2pa 0 pa msg (state_of s m g q tc) = assertE msg ((if present a then PTE_ADDR a else NOT 0) = pa)"
    using va2pa_table [OF D(1,3) _ D(4), of m 0 g q tc] e D(2) by (simp add: assert_va2pa_def)
  show "assert_va2pa PGSIZE pa msg (state_of s m g q tc) = assertE msg ((if present b then PTE_ADDR b else NOT 0) = pa)"
    using va2pa_table [OF D(1,3) _ D(4), of m PGSIZE g q tc] e D(2) by (simp add: assert_va2pa_def)
  have "present (entry m pd (pdi PGSIZE))" "frame_of (entry m pd (pdi PGSIZE)) = x"
    using new_pde D(8) e by simp_all
  then show walk: "pgdir_walk (kva pd) PGSIZE create (state_of s m g q tc) = Inr (kva x + 4, state_of s m g q tc)" for create
    using walk_table [OF D(1,3), of m PGSIZE create g q tc] D(4) by simp
  show "assert_pte P msg (state_of s m g q tc) = bindE (assertE msg (P b)) (\<lambda>_. Inr (state_of s m g q tc))"
    using walk [of False] load_slot(1) [OF D(1,4), of 1 m g q tc] e D(2) by (simp add: assert_pte_def walked_pte_def)
qed

lemma state_asserts:
  "pp < length (pages s) \<Longrightarrow> g pp = Some i \<Longrightarrow> assert_ref pp n msg (state_of s m g q tc) = assertE msg (pp_ref i = n)"
  "assert_no_page (state_of s m g None tc) = Inr (state_of s m g None tc)"
  "assert_insert pp va perm P msg (state_of s m g q tc) =
    bindE (page_insert (kern_pgdir s) pp va perm (state_of s m g q tc)) (\<lambda>(r, s). bindE (assertE msg (P r)) (\<lambda>_. Inr s))"
  by (simp_all add: assert_ref_def state_of_page assert_no_page_def assert_insert_def)

lemma check_page_map_run:
  assumes T: "testable s pd x y z" and none: "\<not> present (entry m0 pd 0)" "\<not> present (entry m0 pd 1)"
  shows "\<exists>m. check_page_map x y z (state_of s m0 (trio x y z (held 0) (held 0) (held 0)) None tc)
      = Inr (state_of s m (trio x y z (held 1) (held 1) (held 1)) None (tc(PGNUM PGSIZE := None)))
    \<and> test_mem x pd m0 (pte_for y PTE_W) (pte_for z PTE_W) m"
proof -
  note D = testableD [OF T]
  note up = trio_upd [OF D(11)]
  let ?G = "trio x y z"
  let ?S = "\<lambda>m p q r. state_of s m (?G p q r)"
  define m1 where "m1 = set_entry x 0 (pte_for y PTE_W) (set_entry pd 0 (new_pde x) (fill m0 (page2pa x) 4096 0))"
  define m2 where "m2 = set_entry x 1 (pte_for z PTE_W) m1"
  define m3 where "m3 = set_entry x 1 (pte_for z PTE_W) (set_entry x 1 0 m2)"
  have t1: "test_mem x pd m0 (pte_for y PTE_W) 0 m1"
    unfolding m1_def by (rule test_mem_step(1) [OF test_mem_start]) (use D none in simp_all)
  have t2: "test_mem x pd m0 (pte_for y PTE_W) (pte_for z PTE_W) m2"
    unfolding m2_def by (rule test_mem_step(2) [OF t1]) (use D in simp_all)
  have t3: "test_mem x pd m0 (pte_for y PTE_W) (pte_for z PTE_W) m3"
    unfolding m3_def by (rule test_mem_step(2) [OF test_mem_step(2) [OF t2]]) (use D in simp_all)
  note e = t1 [unfolded test_mem_def] t2 [unfolded test_mem_def] t3 [unfolded test_mem_def]
  have look: "page_lookup (kva pd) 0 (?S m0 (held 0) (held 0) (held 0) None tc) = Inr (None, ?S m0 (held 0) (held 0) (held 0) None tc)"
    using walk_missing [OF D(1,3), of m0 0 False None] none by (simp add: page_lookup_def)
  have ins0: "page_insert (kva pd) y 0 PTE_W (?S m0 (held 0) (held 0) (held 0) None tc)
      = Inr (- E_NO_MEM, ?S m0 (held 0) (held 0) (held 0) None tc)"
    by (rule insert_no_memory) (use D none in simp_all)
  have free: "page_free x (?S m0 (held 0) (held 0) (held 0) None tc) = Inr (?S m0 (held 0) (held 0) (held 0) (Some x) tc)"
    using state_of_free [where g = "?G (held 0) (held 0) (held 0)", OF D(4) up(1)] by (simp add: up)
  have ins1: "page_insert (kva pd) y 0 PTE_W (?S m0 (held 0) (held 0) (held 0) (Some x) tc)
      = Inr (0, ?S m1 (held 1) (held 1) (held 0) None tc)"
    using insert_fresh [where g = "?G (held 0) (held 0) (held 0)" and m = m0 and va = 0 and perm = PTE_W,
        OF D(1,3) _ D(4,12) up(1) D(5) D(13) [symmetric] up(2)] none
    by (simp add: up m1_def)
  have ins2: "page_insert (kva pd) z PGSIZE PTE_W (?S m1 (held 1) (held 1) (held 0) None tc)
      = Inr (0, ?S m2 (held 1) (held 1) (held 1) None tc)"
    using insert_new [where g = "?G (held 1) (held 1) (held 0)" and m = m1 and va = PGSIZE, OF D(1,3) _ D(4,6) up(3)] e by (simp add: up m2_def)
  have ins3: "page_insert (kva pd) z PGSIZE PTE_W (?S m2 (held 1) (held 1) (held 1) None tc)
      = Inr (0, ?S m3 (held 1) (held 1) (held 1) None (tc(PGNUM PGSIZE := None)))"
    using insert_over(1) [where g = "?G (held 1) (held 1) (held 1)" and po = "held 2" and m = m2 and va = PGSIZE,
        OF D(1,3) _ D(4,6) up(3) _ small_flags(1) D(6)] e by (simp add: up m3_def)
  show ?thesis
    by (rule exI [of _ m3]) (simp add: check_page_map_def look ins0 free ins1 ins2 ins3 D t3 E_NO_MEM_def up state_asserts
      test_asserts [OF T t1] test_asserts [OF T t2] test_asserts [OF T t3] pte_for_page small_flags)
qed

lemma test_words [simp]: "PDX PGSIZE = 0" "PTX PGSIZE = 1" "PDX (PGSIZE * of_nat NPDENTRIES + PGSIZE) = 1"
  "PTX (PGSIZE * of_nat NPDENTRIES + PGSIZE) = 1"
  by (simp_all add: word_unat_eq_iff)

lemma flag_values: "PTE_W AND PTE_U = 0" "PTE_U AND PTE_U = PTE_U" "PTE_W AND PTE_W = PTE_W" "PTE_P AND PTE_U = 0"
  "PTE_U \<noteq> 0" "PTE_W \<noteq> 0" "PTE_U < 4096" "PTE_W < 4096"
  by (simp_all add: layout)

lemma pte_flags:
  "pte_for pp (PTE_W OR PTE_U) AND PTE_U \<noteq> 0" "pte_for pp PTE_W AND PTE_W \<noteq> 0" "pte_for pp PTE_W AND PTE_U = 0"
  "new_pde pp AND PTE_U \<noteq> 0"
  using page_flag [of PTE_U pp] page_flag [of PTE_W pp] flag_values
  by (simp_all add: or.assoc) (simp_all add: layout)

lemma check_page_perm_run:
  assumes T: "testable s pd x y z" and M: "test_mem x pd m0 (pte_for y PTE_W) (pte_for z PTE_W) m"
  shows "\<exists>m'. check_page_perm x y z (state_of s m (trio x y z (held 1) (held 1) (held 1)) None tc)
      = Inr (state_of s m' (trio x y z (held 1) (held 2) (held 0)) (Some z) (tc(PGNUM PGSIZE := None)))
    \<and> test_mem x pd m0 (pte_for y PTE_W) (pte_for y PTE_W) m'"
proof -
  note D = testableD [OF T]
  note up = trio_upd [OF D(11)]
  let ?G = "trio x y z"
  let ?S = "\<lambda>m p q r. state_of s m (?G p q r)"
  let ?tc = "tc(PGNUM PGSIZE := None)"
  define m1 where "m1 = set_entry x 1 (pte_for z (PTE_W OR PTE_U)) (set_entry x 1 0 m)"
  define m2 where "m2 = set_entry x 1 (pte_for z PTE_W) (set_entry x 1 0 m1)"
  define m3 where "m3 = set_entry x 1 (pte_for y PTE_W) (set_entry x 1 0 m2)"
  note step = test_mem_step(2) [OF test_mem_step(2) [OF _ D(8,7,12)] D(8,7,12)]
  have t1: "test_mem x pd m0 (pte_for y PTE_W) (pte_for z (PTE_W OR PTE_U)) m1" unfolding m1_def by (rule step [OF M])
  have t2: "test_mem x pd m0 (pte_for y PTE_W) (pte_for z PTE_W) m2" unfolding m2_def by (rule step [OF t1])
  have t3: "test_mem x pd m0 (pte_for y PTE_W) (pte_for y PTE_W) m3" unfolding m3_def by (rule step [OF t2])
  note e = M [unfolded test_mem_def] t1 [unfolded test_mem_def] t2 [unfolded test_mem_def]
  note over = insert_over [where g = "?G (held 1) (held 1) (held 1)" and va = PGSIZE]
  have ins1: "page_insert (kva pd) z PGSIZE (PTE_W OR PTE_U) (?S m (held 1) (held 1) (held 1) None tc)
      = Inr (0, ?S m1 (held 1) (held 1) (held 1) None ?tc)"
    using over(1) [where po = "held 2" and m = m, OF D(1,3) _ D(4,6) up(3) _ small_flags(1) D(6)] e by (simp add: up m1_def)
  have ins2: "page_insert (kva pd) z PGSIZE PTE_W (?S m1 (held 1) (held 1) (held 1) None ?tc)
      = Inr (0, ?S m2 (held 1) (held 1) (held 1) None ?tc)"
    using over(1) [where po = "held 2" and m = m1, OF D(1,3) _ D(4,6) up(3) _ small_flags(2) D(6)] e by (simp add: up m2_def)
  have ins3: "page_insert (kva pd) x PTSIZE PTE_W (?S m2 (held 1) (held 1) (held 1) None ?tc)
      = Inr (- E_NO_MEM, ?S m2 (held 1) (held 1) (held 1) None ?tc)"
    by (rule insert_no_memory) (use D e in simp_all)
  have ins4: "page_insert (kva pd) y PGSIZE PTE_W (?S m2 (held 1) (held 1) (held 1) None ?tc)
      = Inr (0, ?S m3 (held 1) (held 2) (held 0) (Some z) ?tc)"
    using over(2) [where po = "held 1" and m = m2, OF D(1,3) _ D(4,5) up(2) _ small_flags(1) D(6)] e by (simp add: up m3_def)
  have "page2pa x = PTE_ADDR (new_pde x)"
    using pte_for_page(2) [OF D(8) small_flags(2)] by (simp add: ac_simps)
  then have ka: "KADDR (?S m p q r f t) (PTE_ADDR (new_pde x)) = Inr (kva x)" for m p q r f t
    using KADDR_frame [of "?S m p q r f t" "new_pde x"] new_pde(2) [OF D(8)] D by simp
  show ?thesis
    by (rule exI [of _ m3]) (simp add: check_page_perm_def ins1 ins2 ins3 ins4 D t3 E_NO_MEM_def up state_asserts ka
      test_asserts [OF T M] test_asserts [OF T t1] test_asserts [OF T t2] test_asserts [OF T t3] pte_for_page small_flags
      pte_flags)
qed

lemma check_page_unmap_run:
  assumes T: "testable s pd x y z" and M: "test_mem x pd m0 (pte_for y PTE_W) (pte_for y PTE_W) m"
  shows "\<exists>m'. check_page_unmap x y z (state_of s m (trio x y z (held 1) (held 2) (held 0)) (Some z) tc)
      = Inr (state_of s m' (trio x y z (held 1) (held 0) (held 0)) None (tc(PGNUM 0 := None, PGNUM PGSIZE := None)))
    \<and> test_mem x pd m0 0 0 m'"
proof -
  note D = testableD [OF T]
  note up = trio_upd [OF D(11)]
  let ?G = "trio x y z"
  let ?S = "\<lambda>m p q r. state_of s m (?G p q r)"
  let ?t1 = "tc(PGNUM 0 := None)" let ?t2 = "tc(PGNUM 0 := None, PGNUM PGSIZE := None)"
  define m1 where "m1 = set_entry x 0 0 m"
  define m2 where "m2 = set_entry x 1 (pte_for y 0) (set_entry x 1 0 m1)"
  define m3 where "m3 = set_entry x 1 0 m2"
  note step = test_mem_step [OF _ D(8,7,12)]
  have t1: "test_mem x pd m0 0 (pte_for y PTE_W) m1" unfolding m1_def by (rule step(1) [OF M])
  have t2: "test_mem x pd m0 0 (pte_for y 0) m2" unfolding m2_def by (rule step(2) [OF step(2) [OF t1]])
  have t3: "test_mem x pd m0 0 0 m3" unfolding m3_def by (rule step(2) [OF t2])
  note e = M [unfolded test_mem_def] t1 [unfolded test_mem_def] t2 [unfolded test_mem_def]
  have al1: "page_alloc 0 (?S m (held 1) (held 2) (held 0) (Some z) tc) = Inr (Some z, ?S m (held 1) (held 2) (held 0) None tc)"
    using state_of_alloc(1) [where g = "?G (held 1) (held 2) (held 0)", OF D(1,6) up(3)] by (simp add: up)
  have rem1: "page_remove (kva pd) 0 (?S m (held 1) (held 2) (held 0) None tc) = Inr (?S m1 (held 1) (held 1) (held 0) None ?t1)"
    using remove_table(1) [where g = "?G (held 1) (held 2) (held 0)" and po = "held 2" and va = 0 and m = m, OF D(1,3) _ D(4) _ D(5) up(2)]
      e pte_for_page(1) [OF D(9) small_flags(1)] by (simp add: up m1_def)
  have ins: "page_insert (kva pd) y PGSIZE 0 (?S m1 (held 1) (held 1) (held 0) None ?t1)
      = Inr (0, ?S m2 (held 1) (held 1) (held 0) None ?t2)"
    using insert_over(1) [where g = "?G (held 1) (held 1) (held 0)" and va = PGSIZE and po = "held 2" and m = m1 and perm = 0,
        OF D(1,3) _ D(4,5) up(2) _ small_flags(1) D(5)] e D(13-15) by (simp add: up m2_def)
  have rem2: "page_remove (kva pd) PGSIZE (?S m2 (held 1) (held 1) (held 0) None ?t2)
      = Inr (?S m3 (held 1) (held 0) (held 0) (Some y) ?t2)"
    using remove_table(2) [where g = "?G (held 1) (held 1) (held 0)" and po = "held 1" and va = PGSIZE and m = m2, OF D(1,3) _ D(4) _ D(5) up(2)]
      e pte_for_page(1) [OF D(9) small_flags(3)] by (simp add: up m3_def)
  have al2: "page_alloc 0 (?S m3 (held 1) (held 0) (held 0) (Some y) ?t2) = Inr (Some y, ?S m3 (held 1) (held 0) (held 0) None ?t2)"
    using state_of_alloc(1) [where g = "?G (held 1) (held 0) (held 0)", OF D(1,5) up(2)] by (simp add: up)
  have get: "get_page (?S m2 (held 1) (held 1) (held 0) None ?t2) y = Inr (held 1)"
    by (rule state_of_page(1)) (use D up in simp_all)
  show ?thesis
    by (rule exI [of _ m3]) (simp add: check_page_unmap_def assert_alloc_is_def al1 rem1 ins rem2 al2 get D t3 up state_asserts
      test_asserts [OF T t1] test_asserts [OF T t2] test_asserts [OF T t3] pte_for_page small_flags)
qed

lemma new_pde_KADDR:
  assumes "wf_pages s" and "x < length (pages s)"
  shows "KADDR (state_of s m g q tc) (PTE_ADDR (new_pde x)) = Inr (kva x)"
  using KADDR_frame [of "state_of s m g q tc" "new_pde x"] new_pde(2) [OF wf_pages_lt [OF assms]] assms by simp

lemma take_back_run:
  assumes T: "testable s pd x y z" and M: "test_mem x pd m0 0 0 m"
  shows "\<exists>m'. take_back x (state_of s m (trio x y z (held 1) (held 0) (held 0)) None tc)
      = Inr (state_of s m' (trio x y z (held 0) (held 0) (held 0)) None tc)
    \<and> keeps x pd m0 m' \<and> entry m' pd 0 = 0 \<and> \<not> present (entry m' pd 1)"
proof -
  note D = testableD [OF T]
  note up = trio_upd [OF D(11)]
  define m1 where "m1 = set_entry pd 0 0 m"
  have "keeps x pd m0 m1 \<and> entry m1 pd 0 = 0 \<and> \<not> present (entry m1 pd 1)"
    using M keeps_step [OF D(8,7)] D(7) by (simp add: test_mem_def m1_def entry_set_entry)
  moreover have "kstore (kva pd) 0 (state_of s m g q tc) = Inr (state_of s m1 g q tc)" for g q
    using load_slot(2) [OF D(1,3), of 0 0 m g q tc] by (simp add: m1_def)
  ultimately show ?thesis
    by (intro exI [of _ m1]) (simp add: take_back_def test_asserts [OF T M] D state_asserts state_of_page up)
qed

lemma check_page_walk_run:
  assumes T: "testable s pd x y z" and K: "keeps x pd m0 m" and none: "\<not> present (entry m pd 0)" "\<not> present (entry m pd 1)"
  shows "\<exists>m'. check_page_walk x (state_of s m (trio x y z (held 0) (held 0) (held 0)) None tc)
      = Inr (state_of s m' (trio x y z (held 0) (held 0) (held 0)) None tc)
    \<and> keeps x pd m0 m' \<and> entry m' pd 0 = 0 \<and> entry m' pd 1 = 0 \<and> (\<forall>i < 1024. entry m' x i = 0)"
proof -
  note D = testableD [OF T]
  note up = trio_upd [OF D(11)]
  let ?G = "trio x y z"
  let ?S = "\<lambda>m p. state_of s m (?G p (held 0) (held 0))"
  let ?va = "PGSIZE * of_nat NPDENTRIES + PGSIZE"
  define m1 where "m1 = set_entry pd 1 (new_pde x) (fill m (page2pa x) 4096 0)"
  define m2 where "m2 = set_entry pd 1 0 m1"
  define m3 where "m3 = set_entry pd 0 (new_pde x) (fill m2 (page2pa x) 4096 0)"
  define m4 where "m4 = set_entry pd 0 0 m3"
  note k = keeps_step [OF D(8,7)]
  note ent = entry_set_entry entry_fill
  have "keeps x pd m0 m4" unfolding m4_def m3_def m2_def m1_def by (intro k K) simp_all
  moreover have "entry m4 pd 0 = 0 \<and> entry m4 pd 1 = 0 \<and> (\<forall>i < 1024. entry m4 x i = 0)"
    using D(7,8,12) by (simp add: m4_def m3_def m2_def m1_def ent)
  moreover have free: "page_free x (?S m (held 0) None tc) = Inr (?S m (held 0) (Some x) tc)" for m
    using state_of_free [where g = "?G (held 0) (held 0) (held 0)", OF D(4) up(1)] by (simp add: up)
  moreover have walk1: "pgdir_walk (kva pd) ?va True (?S m (held 0) (Some x) tc) = Inr (kva x + 4, ?S m1 (held 1) None tc)"
    using walk_fresh [where g = "?G (held 0) (held 0) (held 0)" and va = ?va and m = m, OF D(1,3) _ D(4) up(1)] none(2)
    by (simp add: up m1_def)
  moreover have "entry m1 pd 1 = new_pde x" using D(7) by (simp add: m1_def ent)
  then have pde: "kload (?S m1 (held 1) None tc) (kva pd + 4) = Inr (new_pde x)"
    using load_slot(1) [OF D(1,3), of 1 m1 "?G (held 1) (held 0) (held 0)" None tc] by simp
  moreover have st1: "kstore (kva pd + 4) 0 (?S m1 (held 1) None tc) = Inr (?S m2 (held 1) None tc)"
    using load_slot(2) [OF D(1,3), of 1 0 m1 "?G (held 1) (held 0) (held 0)" None tc] by (simp add: m2_def)
  moreover have kv: "page2kva (?S m p q tc) x = Inr (kva x)" for m p q
    by (rule page2kva_Inr) (use D in simp_all)
  moreover have "unat (page2pa x) < 268435456" using page2pa_bound [OF D(1,4)] by simp
  then have set: "kmemset (kva x) 0xFF PGSIZE (?S m2 (held 0) None tc) = Inr (?S (fill m2 (page2pa x) 4096 0xFF) (held 0) None tc)"
    by (simp add: kmemset_kva PGSIZE_def)
  moreover have "\<not> present (entry (fill m2 (page2pa x) 4096 0xFF) pd 0)"
    using D(7,8,12) none(1) by (simp add: m2_def m1_def ent)
  then have walk2: "pgdir_walk (kva pd) 0 True (?S (fill m2 (page2pa x) 4096 0xFF) (held 0) (Some x) tc)
      = Inr (kva x, ?S m3 (held 1) None tc)"
    using walk_fresh [where g = "?G (held 0) (held 0) (held 0)" and va = 0 and m = "fill m2 (page2pa x) 4096 0xFF",
        OF D(1,3) _ D(4) up(1)] by (simp add: up m3_def fill_again)
  moreover have "foldE (\<lambda>i _. bindE (kload (?S m3 (held 1) None tc) (kva x + 4 * of_nat i)) (\<lambda>pte.
        assertE ''(ptep[i] & PTE_P) == 0'' (pte AND PTE_P = 0))) [0..<NPTENTRIES] () = Inr ()"
  proof (rule foldE_unit)
    fix i
    assume "i \<in> set [0..<NPTENTRIES]"
    then have i: "i < 1024" by (simp add: NPTENTRIES_def)
    have "entry m3 x i = 0" using D(7,8,12) i by (simp add: m3_def ent)
    then show "bindE (kload (?S m3 (held 1) None tc) (kva x + 4 * of_nat i)) (\<lambda>pte.
        assertE ''(ptep[i] & PTE_P) == 0'' (pte AND PTE_P = 0)) = Inr ()"
      using load_slot(1) [OF D(1,4) i] by simp
  qed
  moreover have "kstore (kva pd) 0 (?S m3 (held 1) None tc) = Inr (?S m4 (held 1) None tc)"
    using load_slot(2) [OF D(1,3), of 0 0 m3 "?G (held 1) (held 0) (held 0)" None tc] by (simp add: m4_def)
  ultimately show ?thesis
    by (intro exI [of _ m4]) (simp add: check_page_walk_def Let_def D new_pde_KADDR state_of_page up)
qed

text \<open>
  The whole test: it needs three free pages, and nothing in the first two slots of the kernel's
  directory. It hands the pages back in the opposite order.
\<close>

lemma check_page_run:
  assumes fi: "free_inv s (x # y # z # rest)" and pgdir: "kern_pgdir s = kva pd"
    and pd: "pd < length (pages s)" "pd \<notin> {x, y, z}"
    and none: "\<not> present (entry (mem s) pd 0)" "\<not> present (entry (mem s) pd 1)"
  shows "\<exists>m. check_page mc s = Inr (announced mc ''check_page() succeeded!''
      (state_of s m (trio x y z (unused (first_of rest)) (unused (Some x)) (unused (Some y))) (Some z)
        ((tlb s)(PGNUM 0 := None, PGNUM PGSIZE := None))))
    \<and> keeps x pd (mem s) m \<and> entry m pd 0 = 0 \<and> entry m pd 1 = 0 \<and> (\<forall>i < 1024. entry m x i = 0)"
proof -
  note three = first_three [OF fi]
  have T: "testable s pd x y z" using three pgdir pd by (auto simp: testable_def)
  note D = testableD [OF T]
  note up = trio_upd [OF D(11)]
  let ?G = "trio x y z" and ?l = "first_of rest"
  let ?t1 = "(tlb s)(PGNUM PGSIZE := None)" let ?t2 = "(tlb s)(PGNUM 0 := None, PGNUM PGSIZE := None)"
  have take: "alloc_three s = Inr (x, y, z, state_of s (mem s) (?G (held 0) (held 0) (held 0)) ?l (tlb s))"
    using three(9) by (simp add: state_of_with)
  have tw: "?t1(PGNUM 0 := None, PGNUM PGSIZE := None) = ?t2" by (simp add: fun_eq_iff)
  obtain m1 where m1: "check_page_map x y z (state_of s (mem s) (?G (held 0) (held 0) (held 0)) None (tlb s))
      = Inr (state_of s m1 (?G (held 1) (held 1) (held 1)) None ?t1)"
    "test_mem x pd (mem s) (pte_for y PTE_W) (pte_for z PTE_W) m1"
    using check_page_map_run [OF T none] by blast
  obtain m2 where m2: "check_page_perm x y z (state_of s m1 (?G (held 1) (held 1) (held 1)) None ?t1)
      = Inr (state_of s m2 (?G (held 1) (held 2) (held 0)) (Some z) ?t1)"
    "test_mem x pd (mem s) (pte_for y PTE_W) (pte_for y PTE_W) m2"
    using check_page_perm_run [OF T m1(2), of ?t1] by auto
  obtain m3 where m3: "check_page_unmap x y z (state_of s m2 (?G (held 1) (held 2) (held 0)) (Some z) ?t1)
      = Inr (state_of s m3 (?G (held 1) (held 0) (held 0)) None ?t2)" "test_mem x pd (mem s) 0 0 m3"
    using check_page_unmap_run [OF T m2(2), of ?t1] unfolding tw by blast
  obtain m4 where m4: "take_back x (state_of s m3 (?G (held 1) (held 0) (held 0)) None ?t2)
      = Inr (state_of s m4 (?G (held 0) (held 0) (held 0)) None ?t2)"
    "keeps x pd (mem s) m4" "\<not> present (entry m4 pd 0)" "\<not> present (entry m4 pd 1)"
    using take_back_run [OF T m3(2), of ?t2] by (auto simp: PTE_P_def)
  obtain m5 where m5: "check_page_walk x (state_of s m4 (?G (held 0) (held 0) (held 0)) None ?t2)
      = Inr (state_of s m5 (?G (held 0) (held 0) (held 0)) None ?t2)"
    "keeps x pd (mem s) m5 \<and> entry m5 pd 0 = 0 \<and> entry m5 pd 1 = 0 \<and> (\<forall>i < 1024. entry m5 x i = 0)"
    using check_page_walk_run [OF T m4(2-), of ?t2] by blast
  let ?final = "state_of s m5 (?G (unused ?l) (unused (Some x)) (unused (Some y))) (Some z) ?t2"
  have free: "page_free x (state_of s m5 (?G (held 0) (held 0) (held 0)) ?l ?t2) = Inr (state_of s m5 (?G (unused ?l) (held 0) (held 0)) (Some x) ?t2)"
    "page_free y (state_of s m5 (?G (unused ?l) (held 0) (held 0)) (Some x) ?t2) = Inr (state_of s m5 (?G (unused ?l) (unused (Some x)) (held 0)) (Some y) ?t2)"
    "page_free z (state_of s m5 (?G (unused ?l) (unused (Some x)) (held 0)) (Some y) ?t2) = Inr ?final"
    using state_of_free [where g = "?G (held 0) (held 0) (held 0)", OF D(4) up(1)]
      state_of_free [where g = "?G (unused ?l) (held 0) (held 0)", OF D(5) up(2)]
      state_of_free [where g = "?G (unused ?l) (unused (Some x)) (held 0)", OF D(6) up(3)] by (simp_all add: up)
  have "check_page mc s = kprint mc (''check_page() succeeded!'' @ NL) [] ?final"
    unfolding check_page_def take bindE_simps prod.case Let_def state_of_update state_asserts
      state_of_fields m1(1) m2(1) m3(1) m4(1) m5(1) free ..
  also have "\<dots> = Inr (announced mc ''check_page() succeeded!'' ?final)"
    by (rule kprint_announced) simp_all
  finally show ?thesis using m5(2) by blast
qed

lemma linked_over: "(\<And>i. i \<in> set xs \<Longrightarrow> g i = None) \<Longrightarrow> linked (over ps g) p xs = linked ps p xs"
  by (induction ps p xs rule: linked.induct) auto

text \<open>Three pages given back, in any order \<open>a\<close>, \<open>b\<close>, \<open>c\<close>.\<close>

lemma handed_back:
  fixes s :: "'z ke"
  assumes fi: "free_inv s (x # y # z # rest)" and abc: "{a, b, c} = {x, y, z}" "distinct [a, b, c]"
    and g: "g a = Some (unused (Some b))" "g b = Some (unused (Some c))" "g c = Some (unused (first_of rest))"
      "\<And>i. i \<notin> {x, y, z} \<Longrightarrow> g i = None"
  shows "free_inv (state_of s m g (Some a) tc) (a # b # c # rest)"
proof -
  let ?ps = "pages (state_of s m g (Some a) tc)"
  note three = first_three [OF fi]
  have ps: "?ps = over (pages s) g" by (simp add: state_of_def)
  have lk: "linked (pages s) (page_free_list s) (x # y # z # rest)" using fi by (simp add: free_inv_def)
  have out: "i \<notin> {x, y, z}" if "i \<in> set rest" for i using linked_distinct [OF lk] that by auto
  have bd: "a < length (pages s)" "b < length (pages s)" "c < length (pages s)" using abc(1) three(2-4) by (force)+
  have "linked (pages s) (first_of rest) rest"
    using lk linked_first [of "pages s" "pp_link (pages s ! z)" rest] by auto
  then have "linked ?ps (first_of rest) rest"
    unfolding ps by (subst linked_over) (use out g(4) in blast)+
  then have "linked ?ps (Some a) (a # b # c # rest)" using bd g by (simp add: ps)
  moreover have "if i \<in> set (a # b # c # rest) then pp_ref (?ps ! i) = 0 else pp_link (?ps ! i) = None"
    if i: "i < length (pages s)" for i
  proof (cases "i \<in> {x, y, z}")
    case True
    then have "i \<in> {a, b, c}" using abc(1) by simp
    then show ?thesis using i g(1-3) unfolding ps by auto
  next
    case False
    then have "?ps ! i = pages s ! i" using i g(4) unfolding ps by simp
    moreover have "i \<in> set (a # b # c # rest) \<longleftrightarrow> i \<in> set (x # y # z # rest)" using abc(1) by auto
    ultimately show ?thesis using fi i by (simp add: free_inv_def)
  qed
  moreover have "0 \<notin> {x, y, z}" "0 \<notin> set rest" using fi by (auto simp: free_inv_def)
  then have "0 \<notin> set (a # b # c # rest)" using abc(1) by auto
  ultimately show ?thesis using three(1) unfolding free_inv_def state_of_fields state_of_wf by blast
qed

text \<open>C6: With three free pages and nothing in the first two slots of the kernel's directory,
  \<open>check_page\<close> passes all its assertions on \<open>page_insert\<close>, \<open>page_remove\<close>, \<open>page_lookup\<close> and
  \<open>pgdir_walk\<close>, and reports success. The three pages come back in the opposite order; of memory
  only the first of them, which served as page table, and the two directory slots changed, and
  are zero; the entries for the two addresses it mapped left the TLB.\<close>

theorem check_page_passes:
  assumes "free_inv s (x # y # z # rest)" and "kern_pgdir s = kva pd" and "pd < length (pages s)" and "pd \<notin> {x, y, z}"
    and "\<not> present (entry (mem s) pd 0)" and "\<not> present (entry (mem s) pd 1)"
  shows "\<exists>s'. check_page mc s = Inr s' \<and> free_inv s' (z # y # x # rest)
    \<and> (\<forall>f < 65536. \<forall>i < 1024. entry (mem s') f i = (if f = x \<or> f = pd \<and> i < 2 then 0 else entry (mem s) f i))
    \<and> tlb s' = (tlb s)(PGNUM 0 := None, PGNUM PGSIZE := None)
    \<and> io s' = io (announced mc ''check_page() succeeded!'' s)"
proof -
  let ?g = "trio x y z (unused (first_of rest)) (unused (Some x)) (unused (Some y))"
  let ?t = "\<lambda>m. state_of s m ?g (Some z) ((tlb s)(PGNUM 0 := None, PGNUM PGSIZE := None))"
  obtain m where m: "check_page mc s = Inr (announced mc ''check_page() succeeded!'' (?t m))"
    and k: "keeps x pd (mem s) m" "entry m pd 0 = 0" "entry m pd 1 = 0" "\<forall>i < 1024. entry m x i = 0"
    using check_page_run [OF assms, of mc] by blast
  have "entry m f i = (if f = x \<or> f = pd \<and> i < 2 then 0 else entry (mem s) f i)" if "f < 65536" "i < 1024" for f i
    using k that by (auto simp: keeps_def less_2_cases_iff)
  moreover have "free_inv (?t m) (z # y # x # rest)"
    using first_three(5-7) [OF assms(1)] by (intro handed_back [OF assms(1)]) auto
  moreover have "io (announced mc ''check_page() succeeded!'' (?t m)) = io (announced mc ''check_page() succeeded!'' s)"
    by (simp add: announced_def state_of_def)
  ultimately show ?thesis using m by (intro exI [of _ "announced mc ''check_page() succeeded!'' (?t m)"]) simp
qed

lemma check_page_passes_witness:
  "\<exists>s'. check_page blank_machine empty_space = Inr s' \<and> free_inv s' (4 # 3 # 2 # [5..<80])"
proof -
  have l: "[2..<80] = 2 # 3 # 4 # [5..<80]" by (simp add: upt_conv_Cons del: upt_rec_numeral)
  have "length (pages empty_space) = 80" unfolding empty_space_def by simp
  moreover have "kern_pgdir empty_space = kva 1" unfolding empty_space_def by simp
  moreover have "entry (mem empty_space) f i = 0" for f i by (simp add: empty_space_def demo_def)
  ultimately show ?thesis
    using check_page_passes [OF empty_space_free [unfolded l], of 1 blank_machine] by (simp del: upt_rec_numeral) blast
qed

end
