(* ===== verification/MemBoot.thy ===== *)
theory MemBoot
  imports PageTest
begin

text \<open>
  \<open>mem_init\<close> of \<^verbatim>\<open>kern/pmap.c\<close> from its first line to the check at which it panics, on any machine
  with enough memory: the directory and the page array behind the kernel image, the free list,
  the three tests that pass and the three mappings.
\<close>

section \<open>Frames that an operation leaves alone\<close>

lemma range_in_frame:
  assumes "in_range (page2pa f) n a" and "n \<le> 4096"
  shows "in_range (page2pa f) 4096 a"
  using assms by (simp add: in_range_def)

lemma entry_outside:
  assumes "\<And>j. j < 4 \<Longrightarrow> \<not> in_range a n (page2pa g + 4 * of_nat k + of_nat j)"
  shows "entry (fill m a n c) g k = entry m g k"
  using assms [of 0] assms [of 1] assms [of 2] assms [of 3] by (simp add: entry_def load32_def fill_def)

lemma entry_trashed:
  assumes "\<forall>x \<in> set xs. x < 65536" and "f < 65536" and "f \<notin> set xs" and "i < 1024"
  shows "entry (trashed lim xs m) f i = entry m f i"
  using assms
proof (induction xs arbitrary: m)
  case (Cons x xs)
  have "entry (fill m (page2pa x) 128 0x97) f i = entry m f i"
  proof (rule entry_outside)
    fix j :: nat
    assume "j < 4"
    then have "\<not> in_range (page2pa x) 4096 (page2pa f + 4 * of_nat i + of_nat j)"
      using Cons.prems in_frame [of x f i j] by auto
    then show "\<not> in_range (page2pa x) 128 (page2pa f + 4 * of_nat i + of_nat j)"
      using range_in_frame [of x 128] by auto
  qed
  then show ?case using Cons by simp
qed simp

text \<open>The frames before a block of memory.\<close>

lemma entry_before:
  assumes f: "f < g" "g < 65536" and i: "i < 1024" and n: "g * 4096 + n \<le> 4294967296"
  shows "entry (fill m (page2pa g) n c) f i = entry m f i"
proof (rule entry_outside)
  fix j :: nat
  assume j: "j < 4"
  have a: "unat (page2pa f + 4 * of_nat i + of_nat j :: u32) = f * 4096 + 4 * i + j"
    using f i j by (intro unat_slot) simp_all
  have b: "unat (page2pa g) = g * 4096" using f by (intro unat_page2pa) simp
  have "f * 4096 + 4096 \<le> g * 4096" using f(1) by linarith
  then have "f * 4096 + 4 * i + j < g * 4096" using i j by linarith
  then show "\<not> in_range (page2pa g) n (page2pa f + 4 * of_nat i + of_nat j)"
    using n by (simp add: in_range_def unat_sub_if_size a b word_size not_less)
qed

section \<open>The boot data\<close>

lemma kva_of_aligned:
  assumes "unat KERNBASE \<le> unat a" and "unat a mod 4096 = 0"
  shows "a = kva ((unat a - unat KERNBASE) div 4096)" "(unat a - unat KERNBASE) div 4096 < 65536"
    "unat a = (unat a - unat KERNBASE) div 4096 * 4096 + unat KERNBASE"
proof -
  let ?f = "(unat a - unat KERNBASE) div 4096"
  have k: "unat KERNBASE = 4026531840" by (simp add: KERNBASE_def)
  obtain q where q: "unat a = 4096 * q" using assms(2) by auto
  have f: "?f = q - 983040" unfolding q k by simp
  show lt: "?f < 65536" using u32_bound [of a] unfolding f by (simp add: q)
  show u: "unat a = ?f * 4096 + unat KERNBASE" using assms(1) unfolding f unfolding q k by simp
  show "a = kva ?f" using page2pa_values(6) [OF lt] u by (simp add: word_unat_eq_iff)
qed

text \<open>The kernel image ends behind the first megabyte, and the memory holds it and what is put after it.\<close>

definition room :: "u32 \<Rightarrow> nat \<Rightarrow> bool" where
  "room end_sym n \<longleftrightarrow> n \<le> 65536 \<and> unat KERNBASE + 0x100000 \<le> unat end_sym
     \<and> unat end_sym + 8 * n + 16384 \<le> unat KERNBASE + 4096 * n"

text \<open>The frame of the kernel's directory, and the first address behind the boot data.\<close>

definition boot_dir :: "u32 \<Rightarrow> nat" where
  "boot_dir end_sym = (unat (ROUNDUP end_sym PGSIZE) - unat KERNBASE) div 4096"

definition boot_end :: "u32 \<Rightarrow> u32 \<Rightarrow> u32" where
  "boot_end end_sym n = ROUNDUP (kva (boot_dir end_sym + 1) + n * SIZEOF_PAGEINFO) PGSIZE"

lemma ROUNDUP_aligned:
  assumes "unat a mod 4096 = 0" and "unat a + 4096 \<le> 2 ^ 32"
  shows "ROUNDUP a PGSIZE = a"
proof -
  obtain q where "unat a = 4096 * q" using assms(1) by auto
  then have "unat (ROUNDUP a PGSIZE) = unat a" using unat_ROUNDUP [of PGSIZE a] assms(2) by (simp add: PGSIZE_def)
  then show ?thesis by (simp add: word_unat_eq_iff)
qed

lemma boot_layout:
  assumes "room e (unat n)"
  shows "ROUNDUP e PGSIZE = kva (boot_dir e)" "256 \<le> boot_dir e" "boot_dir e < unat n"
    "boot_dir e + 1 < 65536" "ROUNDUP (kva (boot_dir e) + PGSIZE) PGSIZE = kva (boot_dir e + 1)"
    "unat (n * SIZEOF_PAGEINFO) = 8 * unat n"
    "unat (boot_end e n) mod 4096 = 0" "unat (kva (boot_dir e + 1)) + 8 * unat n \<le> unat (boot_end e n)"
    "unat (boot_end e n) + 4096 < unat KERNBASE + 4096 * unat n"
    "(boot_dir e + 1) * 4096 + 8 * unat n \<le> 268435456"
proof -
  let ?r = "ROUNDUP e PGSIZE" let ?d = "boot_dir e"
  have k: "unat KERNBASE = 4026531840" by (simp add: KERNBASE_def)
  have a: "unat n \<le> 65536" "4026531840 + 0x100000 \<le> unat e" "unat e + 8 * unat n + 16384 \<le> 4026531840 + 4096 * unat n"
    using assms by (simp_all add: room_def k)
  have r: "page_aligned ?r" "unat e \<le> unat ?r" "unat ?r < unat e + 4096" using ROUNDUP_PGSIZE [of e] a by simp_all
  have "unat KERNBASE \<le> unat ?r" "unat ?r mod 4096 = 0" using r a by (simp_all add: k page_aligned_dvd)
  note d = kva_of_aligned [OF this, folded boot_dir_def]
  show "?r = kva ?d" by (rule d(1))
  show "256 \<le> ?d" "?d < unat n" "?d + 1 < 65536" using d(3) r a unfolding k by linarith+
  then have d1: "?d + 1 < 65536" by blast
  have u: "unat (kva ?d) = ?d * 4096 + 4026531840" "unat (kva (?d + 1)) = ?d * 4096 + 4096 + 4026531840"
    using page2pa_values(6) [of ?d] page2pa_values(6) [OF d1] d(2) by (simp_all add: k)
  have "unat (kva ?d + PGSIZE) = unat (kva ?d) + 4096"
    using u d1 by (subst unat_less_add) (simp_all add: PGSIZE_def)
  then have step: "kva ?d + PGSIZE = kva (?d + 1)" using u by (simp add: word_unat_eq_iff)
  have "unat (kva (?d + 1)) mod 4096 = 0" using u by simp
  then show "ROUNDUP (kva ?d + PGSIZE) PGSIZE = kva (?d + 1)" unfolding step
    using ROUNDUP_aligned [of "kva (?d + 1)"] u(2) d1 by simp
  show n8: "unat (n * SIZEOF_PAGEINFO) = 8 * unat n" using a(1) by (simp add: SIZEOF_PAGEINFO_def unat_word_ariths)
  have de: "?d * 4096 + 4026531840 < unat e + 4096" using d(3) r(3) by (simp add: k)
  have sum: "unat (kva (?d + 1) + n * SIZEOF_PAGEINFO) = unat (kva (?d + 1)) + 8 * unat n"
    using u n8 a de by (subst unat_less_add) simp_all
  note b = ROUNDUP_PGSIZE [of "kva (?d + 1) + n * SIZEOF_PAGEINFO", folded boot_end_def, unfolded sum u]
  show "unat (boot_end e n) mod 4096 = 0" "unat (kva (?d + 1)) + 8 * unat n \<le> unat (boot_end e n)"
    "unat (boot_end e n) + 4096 < unat KERNBASE + 4096 * unat n" "(?d + 1) * 4096 + 8 * unat n \<le> 268435456"
    using b a de u by (simp_all add: k page_aligned_dvd)
qed

text \<open>The entry of the directory that maps it as its own page table.\<close>

abbreviation self_pde :: "nat \<Rightarrow> u32" where "self_pde pd \<equiv> page2pa pd OR PTE_U OR PTE_P"

lemma self_pde: "pd < 65536 \<Longrightarrow> frame_of (self_pde pd) = pd" "present (self_pde pd)"
  by (use pte_for_page(1) [of pd PTE_U] in \<open>simp add: layout\<close>) (rule present_new_pte)

lemma boot_structures_run:
  fixes s :: "'z ke"
  assumes room: "room e (unat (npages s))" and nf: "nextfree s = 0" and e: "k_end (syms mc) = e"
  shows "\<exists>m. boot_structures mc s = Inr (s\<lparr>mem := m, kern_pgdir := kva (boot_dir e), pages_kva := kva (boot_dir e + 1),
      pages := replicate (unat (npages s)) (unused None), nextfree := boot_end e (npages s)\<rparr>)
    \<and> (\<forall>d < 1024. entry m (boot_dir e) d = (if d = UVPT_D then self_pde (boot_dir e) else 0))"
proof -
  let ?pd = "boot_dir e" and ?n = "npages s"
  note L = boot_layout [OF room]
  have b: "?pd < 65536" using L(4) by simp
  have nz: "kva ?pd \<noteq> 0" "kva (?pd + 1) \<noteq> 0"
    using slot_nonzero [OF b, of 0] slot_nonzero [OF L(4), of 0] by simp_all
  define m1 where "m1 = set_entry ?pd UVPT_D (self_pde ?pd) (fill (mem s) (page2pa ?pd) 4096 0)"
  define m2 where "m2 = fill m1 (page2pa (?pd + 1)) (8 * unat ?n) 0"
  have a1: "boot_alloc e PGSIZE s = (kva ?pd, s\<lparr>nextfree := kva (?pd + 1)\<rparr>)"
    using nf L(1,5) by (simp add: boot_alloc_def)
  have a2: "boot_alloc e (?n * SIZEOF_PAGEINFO) (s\<lparr>nextfree := kva (?pd + 1), kern_pgdir := kva ?pd, mem := m1\<rparr>)
      = (kva (?pd + 1), s\<lparr>nextfree := boot_end e ?n, kern_pgdir := kva ?pd, mem := m1\<rparr>)"
    using nz by (simp add: boot_alloc_def boot_end_def)
  have small: "unat (page2pa ?pd) < 268435456" "unat (page2pa (?pd + 1)) < 268435456"
    using b L(4) by (simp_all add: unat_page2pa)
  have st: "kstore (kva ?pd + 4 * PDX UVPT) v t = Inr (t\<lparr>mem := set_entry ?pd UVPT_D v (mem t)\<rparr>)" for v and t :: "'z ke"
    using kstore_entry [OF b PDX_bound, of UVPT v t] by (simp add: UVPT_D_eq)
  have pg: "unat PGSIZE = 4096" by (simp add: PGSIZE_def)
  have "boot_structures mc s = Inr (s\<lparr>mem := m2, kern_pgdir := kva ?pd, pages_kva := kva (?pd + 1),
      pages := replicate (unat ?n) (unused None), nextfree := boot_end e ?n\<rparr>)"
    using a2 L(6) by (simp add: boot_structures_def e a1 kmemset_kva small PADDR_kva st m1_def m2_def pg del: One_nat_def)
  moreover have "entry m2 ?pd d = (if d = UVPT_D then self_pde ?pd else 0)" if "d < 1024" for d
  proof -
    have "entry m2 ?pd d = entry m1 ?pd d"
      unfolding m2_def using b L(4,10) that by (intro entry_before) simp_all
    then show ?thesis using b that by (simp add: m1_def entry_set_entry entry_fill UVPT_D_def)
  qed
  ultimately show ?thesis by blast
qed

lemma page_init_run:
  fixes s :: "'z ke"
  assumes room: "room e (unat (npages s))" and zero: "pages s = replicate (unat (npages s)) (unused None)"
    and nf: "nextfree s = boot_end e (npages s)"
  shows "\<exists>ps q. page_init e s = Inr (s\<lparr>pages := ps, page_free_list := q\<rparr>)
    \<and> free_inv (s\<lparr>pages := ps, page_free_list := q\<rparr>) (rev (filter (usable_page (boot_end e (npages s) - KERNBASE)) [0..<unat (npages s)]))
    \<and> length ps = length (pages s)"
proof -
  let ?n = "npages s" let ?a = "boot_end e ?n" let ?ffa = "?a - KERNBASE"
  let ?s = "s\<lparr>page_free_list := None\<rparr>"
  note L = boot_layout [OF room]
  have n: "unat ?n \<le> 65536" using room by (simp add: room_def)
  have "boot_dir e + 1 < 65536" by (rule L(4))
  then have kb: "unat KERNBASE \<le> unat (kva (boot_dir e + 1))" using page2pa_values(6) by simp
  then have ge: "unat KERNBASE \<le> unat ?a" using L(8) by linarith
  have nz: "?a \<noteq> 0" using ge by (auto simp: KERNBASE_def)
  have "ROUNDUP ?a PGSIZE = ?a" using L(7,9) n by (intro ROUNDUP_aligned) (simp_all add: KERNBASE_def)
  then have alloc: "boot_alloc e 0 ?s = (?a, ?s)" using nf nz by (simp add: boot_alloc_def)
  have pa: "PADDR ?a = Inr ?ffa" using ge by (simp add: PADDR_def word_less_nat_alt)
  obtain t where t: "foldE (page_init_step ?ffa) [0..<unat ?n] ?s = Inr t" "init_pages ?ffa (unat ?n) ?s t"
    using page_init_loop [of ?s "unat ?n" ?ffa] zero n by auto
  then obtain ps q where "t = ?s\<lparr>pages := ps, page_free_list := q\<rparr>" by (auto simp: init_pages_def page_frame_def)
  then have eq: "t = s\<lparr>pages := ps, page_free_list := q\<rparr>" by simp
  have "free_inv t (rev (filter (usable_page ?ffa) [0..<unat ?n]))"
    using t(2) n zero by (auto simp: init_pages_def free_inv_def wf_pages_def usable_page_def eq)
  moreover have "length ps = length (pages s)" using t(2) by (simp add: init_pages_def eq)
  moreover have "page_init e s = Inr t" using t(1) alloc pa by (simp add: page_init_def)
  ultimately show ?thesis unfolding eq by blast
qed

section \<open>The free pages\<close>

abbreviation free_pages :: "u32 \<Rightarrow> u32 \<Rightarrow> nat list" where
  "free_pages e n \<equiv> rev (filter (usable_page (boot_end e n - KERNBASE)) [0..<unat n])"

lemma free_pages_facts:
  assumes room: "room e (unat n)"
  shows "\<forall>x \<in> set (free_pages e n). decent (boot_end e n) x" "\<exists>x \<in> set (free_pages e n). x < 0x100"
    "\<exists>x \<in> set (free_pages e n). \<not> x < 0x100" "boot_dir e \<notin> set (free_pages e n)"
    "69 \<le> length (free_pages e n)" "\<forall>x \<in> set (free_pages e n). x < 65536"
proof -
  let ?a = "boot_end e n" let ?d = "boot_dir e"
  note L = boot_layout [OF room]
  have k: "unat KERNBASE = 4026531840" by (simp add: KERNBASE_def)
  have n: "unat n \<le> 65536" using room by (simp add: room_def)
  have d1: "unat (kva (?d + 1)) = (?d + 1) * 4096 + 4026531840" using page2pa_values(6) [OF L(4)] by (simp add: k)
  have ge: "(?d + 1) * 4096 + 4026531840 + 8 * unat n \<le> unat ?a" "unat ?a + 4096 < 4026531840 + 4096 * unat n"
    using L(8,9) d1 by (simp_all add: k)
  then have ffa: "unat (?a - KERNBASE) = unat ?a - 4026531840" by (simp add: unat_sub_le word_le_nat_alt k)
  have mem: "x \<in> set (free_pages e n) \<longleftrightarrow> x < unat n \<and> x \<noteq> 0 \<and> \<not> (0xA0000 \<le> x * 4096 \<and> x * 4096 \<le> unat ?a - 4026531840)" for x
    by (auto simp: usable_page_def ffa)
  show "\<forall>x \<in> set (free_pages e n). decent ?a x"
    unfolding Ball_def mem using ge L(2) by (auto simp: decent_def k)
  show "\<exists>x \<in> set (free_pages e n). x < 0x100" unfolding Bex_def mem using L(2,3) by (intro exI [of _ 1]) auto
  show "\<exists>x \<in> set (free_pages e n). \<not> x < 0x100" unfolding Bex_def mem using ge L(2,3) by (intro exI [of _ "unat n - 1"]) auto
  show "?d \<notin> set (free_pages e n)" unfolding mem using ge L(2) by auto
  show "\<forall>x \<in> set (free_pages e n). x < 65536" unfolding Ball_def mem using n by auto
  have "{1..<160} \<subseteq> set (free_pages e n)" using L(2,3) by (auto simp only: mem subset_iff atLeastLessThan_iff)
  then have "card {1..<160 :: nat} \<le> card (set (free_pages e n))" by (intro card_mono) simp_all
  also have "\<dots> = length (free_pages e n)" by (intro distinct_card) simp
  finally show "69 \<le> length (free_pages e n)" by simp
qed

section \<open>The whole of mem_init\<close>

lemma self_mapped_wf:
  assumes "free_inv s xs" and "pd < length (pages s)" and "pd \<notin> set xs"
    and "\<And>d. d < 1024 \<Longrightarrow> entry (mem s) pd d = (if d = UVPT_D then self_pde pd else 0)"
  shows "wf_pd s xs pd"
  using assms self_pde(1) [OF wf_pages_lt [OF free_inv_wf [OF assms(1)] assms(2)]] by (auto simp: wf_pd_def)

lemma three_or_more: "3 \<le> length ys \<Longrightarrow> \<exists>x y z rest. ys = x # y # z # rest \<and> length ys = length rest + 3"
  by (auto simp: numeral_3_eq_3 Suc_le_length_iff)

lemma list_and_alloc_checks:
  fixes s :: "'z ke"
  assumes room: "room e (unat (npages s))" and e: "k_end (syms mc) = e" and fi: "free_inv s (free_pages e (npages s))"
    and nf: "nextfree s = boot_end e (npages s)" and kv: "pages_kva s \<noteq> 0"
  shows "\<exists>t x y z rest. bindE (check_page_free_list mc True s) (check_page_alloc mc) = Inr t
    \<and> free_inv t (x # y # z # rest) \<and> 66 \<le> length rest \<and> boot_dir e \<notin> {x, y, z} \<union> set rest
    \<and> length (pages t) = length (pages s) \<and> kern_pgdir t = kern_pgdir s \<and> pages_kva t = pages_kva s
    \<and> (\<forall>d < 1024. entry (mem t) (boot_dir e) d = entry (mem s) (boot_dir e) d)"
proof -
  let ?pd = "boot_dir e" let ?xs = "free_pages e (npages s)"
  note L = boot_layout [OF room] and F = free_pages_facts [OF room]
  have "boot_end e (npages s) \<noteq> 0" using L(8) page2pa_values(6) [OF L(4)] by (auto simp: KERNBASE_def)
  then have first: "fst (boot_alloc (k_end (syms mc)) 0 s) = boot_end e (npages s)"
    using nf by (simp add: boot_alloc_def Let_def)
  obtain t1 ps q nf1 ys where t1: "check_page_free_list mc True s = Inr (announced mc ''check_page_free_list() succeeded!'' t1)"
    and ys: "ys = filter (\<lambda>x. x < 1024) ?xs @ filter (\<lambda>x. \<not> x < 1024) ?xs"
    and t1s: "t1 = s\<lparr>mem := trashed 1 ys (mem s), pages := ps, page_free_list := q, nextfree := nf1\<rparr>" "free_inv t1 ys" "length ps = length (pages s)"
    using free_list_check_run [of 1 True s ?xs mc, OF _ fi] F(1-3) unfolding first by (simp only: if_True refl simp_thms) blast
  have set: "set ys = set ?xs" by (auto simp: ys)
  have "length ys = length ?xs" unfolding ys by (simp add: sum_length_filter_compl)
  then obtain x y z rest where xyz: "ys = x # y # z # rest" "66 \<le> length rest"
    using F(5) three_or_more [of ys] by auto
  let ?a1 = "announced mc ''check_page_free_list() succeeded!'' t1"
  let ?a2 = "announced mc ''check_page_alloc() succeeded!'' (?a1\<lparr>mem := fill (mem t1) (page2pa z) 4096 0\<rparr>)"
  have "check_page_alloc mc ?a1 = Inr ?a2"
    using check_page_alloc_run [of ?a1 x y z rest mc] t1s kv by (simp add: xyz)
  moreover have pd: "?pd \<notin> {x, y, z} \<union> set rest" using F(4) set xyz by auto
  moreover have small: "\<forall>i \<in> set ys. i < 65536" using F(6) set by simp
  moreover have "entry (mem ?a2) ?pd d = entry (mem s) ?pd d" if "d < 1024" for d
  proof -
    have "entry (mem ?a2) ?pd d = entry (trashed 1 ys (mem s)) ?pd d"
      using pd small L(4) that by (simp add: t1s(1) entry_fill xyz)
    also have "\<dots> = entry (mem s) ?pd d"
      using small L(4) F(4) set that by (intro entry_trashed) simp_all
    finally show ?thesis .
  qed
  moreover have "free_inv ?a2 (x # y # z # rest)" using t1s(2) by (simp add: xyz)
  ultimately show ?thesis using t1 t1s(1,3) xyz(2)
    by (intro exI [of _ ?a2] exI [of _ x] exI [of _ y] exI [of _ z] exI [of _ rest]) (simp add: announced_def)
qed

lemma checks_before_mapping:
  fixes s :: "'z ke"
  assumes room: "room e (unat (npages s))" and e: "k_end (syms mc) = e" and fi: "free_inv s (free_pages e (npages s))"
    and nf: "nextfree s = boot_end e (npages s)" and dir: "kern_pgdir s = kva (boot_dir e)" and kv: "pages_kva s \<noteq> 0"
    and ent: "\<And>d. d < 1024 \<Longrightarrow> entry (mem s) (boot_dir e) d = (if d = UVPT_D then self_pde (boot_dir e) else 0)"
  shows "\<exists>t xs. bindE (check_page_free_list mc True s) (\<lambda>s. bindE (check_page_alloc mc s) (check_page mc)) = Inr t
    \<and> wf_pd t xs (boot_dir e) \<and> 66 \<le> length xs \<and> kern_pgdir t = kern_pgdir s \<and> pages_kva t = pages_kva s
    \<and> (\<forall>d < 1024. d \<noteq> UVPT_D \<longrightarrow> \<not> present (entry (mem t) (boot_dir e) d))"
proof -
  let ?pd = "boot_dir e"
  note L = boot_layout [OF room]
  obtain a x y z rest where checks: "bindE (check_page_free_list mc True s) (check_page_alloc mc) = Inr a"
    and fi2: "free_inv a (x # y # z # rest)" and rest: "66 \<le> length rest" and pd: "?pd \<notin> {x, y, z} \<union> set rest"
    and same: "length (pages a) = length (pages s)" "kern_pgdir a = kern_pgdir s" "pages_kva a = pages_kva s"
    and ent1: "\<And>d. d < 1024 \<Longrightarrow> entry (mem a) ?pd d = (if d = UVPT_D then self_pde ?pd else 0)"
    using list_and_alloc_checks [OF room e fi nf kv] ent by metis
  have len: "?pd < length (pages a)" and dir2: "kern_pgdir a = kva ?pd"
    using L(3) fi dir same by (simp_all add: free_inv_def wf_pages_def)
  have none: "\<not> present (entry (mem a) ?pd 0)" "\<not> present (entry (mem a) ?pd 1)"
    using ent1 [of 0] ent1 [of 1] by (simp_all only: UVPT_D_def) simp_all
  let ?g = "trio x y z (unused (first_of rest)) (unused (Some x)) (unused (Some y))"
  let ?tl = "(tlb a)(PGNUM 0 := None, PGNUM PGSIZE := None)"
  obtain m where m: "check_page mc a = Inr (announced mc ''check_page() succeeded!'' (state_of a m ?g (Some z) ?tl))"
    and keep: "keeps x ?pd (mem a) m" "entry m ?pd 0 = 0" "entry m ?pd 1 = 0"
    using check_page_run [OF fi2 dir2 len _ none, of mc] pd by blast
  let ?t = "announced mc ''check_page() succeeded!'' (state_of a m ?g (Some z) ?tl)"
  have ent2: "entry (mem ?t) ?pd d = (if d = UVPT_D then self_pde ?pd else 0)" if d: "d < 1024" for d
  proof (cases "d < 2")
    case True
    then have "d = 0 \<or> d = 1" by auto
    then show ?thesis using keep by (auto simp: UVPT_D_def)
  next
    case False
    then have "entry m ?pd d = entry (mem a) ?pd d" using keep(1) L(4) pd d by (simp add: keeps_def)
    then show ?thesis using ent1 [OF d] by simp
  qed
  have "free_inv ?t (z # y # x # rest)"
    unfolding announced_fields using first_three(5-7) [OF fi2] by (intro handed_back [OF fi2]) auto
  then have "wf_pd ?t (z # y # x # rest) ?pd"
    using ent2 len pd by (intro self_mapped_wf) auto
  moreover have "bindE (check_page_free_list mc True s) (\<lambda>s. bindE (check_page_alloc mc s) (check_page mc))
      = bindE (bindE (check_page_free_list mc True s) (check_page_alloc mc)) (check_page mc)"
    by (cases "check_page_free_list mc True s") simp_all
  moreover have "kern_pgdir ?t = kern_pgdir s" "pages_kva ?t = pages_kva s" using same by (simp_all add: state_of_def announced_def)
  ultimately show ?thesis using checks m ent2 rest by (intro exI [of _ ?t] exI [of _ "z # y # x # rest"]) simp
qed

text \<open>What \<open>i386_detect_memory\<close> prints returns and changes the console only.\<close>

lemma report_memory_returns: "\<exists>i. report_memory mc cmos s = Inr (s\<lparr>io := i\<rparr>)"
proof -
  obtain basemem totalmem where sizes: "memory_sizes cmos = (basemem, totalmem)" by fastforce
  let ?fmt = "''Physical memory: %uK available, base = %uK, extended = %uK'' @ NL"
  let ?its = "plain ''Physical memory: '' @ Num False 0 Unsigned # plain ''K available, base = '' @ Num False 0 Unsigned
    # plain ''K, extended = '' @ Num False 0 Unsigned # plain (CHR ''K'' # NL)"
  have b: "map chr ?fmt = concat (map item_bytes ?its)" by simp
  have good: "good_items (lits [] (kmem i)) (arg_list as) 0 ?its" for i as
    using good_plain [of "CHR ''K'' # NL" _ _ _ "[]"] by (simp add: good_plain NL_def)
  have "returns (print (devs mc) ?fmt [] as)" for as
    using print_returns [OF b _ good, of "devs mc"] unfolding returns_def by (fastforce simp: NL_def)
  from kprint_returns [OF this] show ?thesis unfolding report_memory_def sizes Let_def prod.case .
qed

lemma mem_init_run:
  fixes s :: "'z ke"
  assumes room: "room (k_end (syms mc)) (unat (npages (i386_detect_memory cmos s)))" and nf: "nextfree s = 0"
    and stack: "KERNBASE \<le> bootstack" "unat bootstack mod 4096 = 0"
  shows "mem_init mc cmos envs_ptr bootstack s = Inl (envs_panic envs_ptr)"
proof -
  let ?e = "k_end (syms mc)" let ?pd = "boot_dir ?e"
  obtain i where rep: "report_memory mc cmos (i386_detect_memory cmos s) = Inr ((i386_detect_memory cmos s)\<lparr>io := i\<rparr>)"
    using report_memory_returns by blast
  define d where "d = (i386_detect_memory cmos s)\<lparr>io := i\<rparr>"
  have room: "room ?e (unat (npages d))" using room by (simp add: d_def)
  note L = boot_layout [OF room]
  have nfd: "nextfree d = 0" using nf by (simp add: d_def i386_detect_memory_def split: prod.split)
  obtain m where s1: "boot_structures mc d = Inr (d\<lparr>mem := m, kern_pgdir := kva ?pd, pages_kva := kva (?pd + 1),
      pages := replicate (unat (npages d)) (unused None), nextfree := boot_end ?e (npages d)\<rparr>)"
    and ent: "\<forall>i < 1024. entry m ?pd i = (if i = UVPT_D then self_pde ?pd else 0)"
    using boot_structures_run [OF room nfd refl] by blast
  let ?s1 = "d\<lparr>mem := m, kern_pgdir := kva ?pd, pages_kva := kva (?pd + 1),
      pages := replicate (unat (npages d)) (unused None), nextfree := boot_end ?e (npages d)\<rparr>"
  obtain ps q where s2: "page_init ?e ?s1 = Inr (?s1\<lparr>pages := ps, page_free_list := q\<rparr>)"
    and fi: "free_inv (?s1\<lparr>pages := ps, page_free_list := q\<rparr>) (free_pages ?e (npages d))"
    using page_init_run [of ?e ?s1] room by auto
  let ?s2 = "?s1\<lparr>pages := ps, page_free_list := q\<rparr>"
  have kv: "kva (?pd + 1) \<noteq> 0" using slot_nonzero [OF L(4), of 0] by simp
  obtain t xs where t: "bindE (check_page_free_list mc True ?s2) (\<lambda>s. bindE (check_page_alloc mc s) (check_page mc)) = Inr t"
    and wf: "wf_pd t xs ?pd" "66 \<le> length xs" and f: "kern_pgdir t = kern_pgdir ?s2" "pages_kva t = pages_kva ?s2"
    and none: "\<forall>i < 1024. i \<noteq> UVPT_D \<longrightarrow> \<not> present (entry (mem t) ?pd i)"
    using checks_before_mapping [of ?e ?s2 mc] room fi kv ent by auto
  have pa: "PADDR (pages_kva t) = Inr (page2pa (?pd + 1))" "PADDR bootstack = Inr (bootstack - KERNBASE)"
    using f(2) L(4) stack(1) by (simp_all add: PADDR_kva unat_page2pa PADDR_def [of bootstack] not_less)
  have "unat (bootstack - KERNBASE) = (unat bootstack - unat KERNBASE) div 4096 * 4096"
    using kva_of_aligned(3) [of bootstack] stack by (simp add: unat_sub_le word_le_nat_alt)
  then have al: "unat (page2pa (?pd + 1)) mod 4096 = 0" "unat (bootstack - KERNBASE) mod 4096 = 0"
    using L(4) by (simp_all only: unat_page2pa mod_mult_self2_is_0) (simp add: unat_page2pa)
  obtain u where u: "map_kernel bootstack t = Inr u" "\<forall>p. check_kern_pgdir mc p bootstack u = Inl (envs_panic p)"
    using kernel_space_run [OF wf(1) _ _ pa al wf(2), of "[]" "[]" "[]" mc] none f(1) by auto
  obtain a b where ab: "check_page_free_list mc True ?s2 = Inr a" "check_page_alloc mc a = Inr b" "check_page mc b = Inr t"
    using t by (auto simp: bindE_eq_Inr)
  show ?thesis
    unfolding mem_init_def Let_def rep bindE_simps d_def [symmetric] s1 bindE_simps s2 ab u(1) u(2) [rule_format] ..
qed

text \<open>C3: On any machine whose memory holds the kernel image, the page array and four more pages
  (\<open>room\<close>), \<open>mem_init\<close> sizes memory, builds the directory and the free list, passes
  \<open>check_page_free_list\<close>, \<open>check_page_alloc\<close> and \<open>check_page\<close>, maps the kernel, and then panics at
  the check of the environment array, since nothing allocated or mapped it: with \<^verbatim>\<open>envs\<close> null, as
  the program leaves it, in \<open>PADDR\<close>, and with any other value in the check itself.\<close>

theorem mem_init_ends:
  fixes s :: "'z ke"
  assumes "room (k_end (syms mc)) (unat (npages (i386_detect_memory cmos s)))" and "nextfree s = 0"
    and "KERNBASE \<le> bootstack" and "unat bootstack mod 4096 = 0"
  shows "mem_init mc cmos envs_ptr bootstack s
    = Inl (Panic (if envs_ptr < KERNBASE then ''PADDR called with invalid kva''
        else ''check_va2pa(pgdir, UENVS + i) == PADDR(envs) + i''))"
  using mem_init_run [OF assms] by (simp add: envs_panic_def)

text \<open>A machine with 16448 kilobytes of memory whose kernel image ends at \<open>0xF0114000\<close>.\<close>

definition small_board :: "u32 \<Rightarrow> u8" where
  "small_board r = (if r = NVRAM_EXT16LO then 1 else 0)"

definition small_machine :: machine where
  "small_machine = blank_machine\<lparr>syms := (syms blank_machine)\<lparr>k_end := 0xF0114000\<rparr>\<rparr>"

lemma small_machine_room: "npages (i386_detect_memory small_board s) = 4112"
  "room (k_end (syms small_machine)) (unat (npages (i386_detect_memory small_board s)))"
proof -
  have "nvram_read small_board NVRAM_EXT16LO = 1"
    by (simp add: nvram_read_def mc146818_read_def small_board_def NVRAM_EXT16LO_def)
  then show n: "npages (i386_detect_memory small_board s) = 4112"
    by (simp add: i386_detect_memory_def memory_sizes_def Let_def PGSIZE_def)
  show "room (k_end (syms small_machine)) (unat (npages (i386_detect_memory small_board s)))"
    unfolding n by (simp add: room_def small_machine_def KERNBASE_def)
qed

lemma mem_init_ends_witness:
  "mem_init small_machine small_board 0 0xF0110000 three_free = Inl (Panic ''PADDR called with invalid kva'')"
proof -
  have "nextfree three_free = 0" by (simp add: three_free_def with_envs_def kstate.extend_def demo_def)
  from mem_init_ends [OF small_machine_room(2) this, of "0xF0110000" 0] show ?thesis
    by (simp add: KERNBASE_def)
qed

end
