(* ===== verification/Init.thy ===== *)
theory Init
  imports MemBoot
begin

text \<open>
  The kernel's entry into C, \<^verbatim>\<open>kern/init.c\<close>: \<open>i386_init\<close>, \<open>_panic\<close> and \<open>_warn\<close>, with
  \<^verbatim>\<open>mc146818_write\<close> of \<^verbatim>\<open>kern/kclock.c\<close>. Elsewhere a panic is the value \<open>Panic\<close> with the
  message's format; here it is what \<open>_panic\<close> then does: one message, and the monitor for good.
  The last section says what \<open>i386_init\<close> does up to \<open>mem_init\<close>, and that it ends there.
\<close>

section \<open>Panics and warnings\<close>

text \<open>The console, the memory strings are read from, and the flag \<^verbatim>\<open>panicstr\<close>.\<close>

record panic_state =
  pio :: kio
  panicstr :: u32
  flags_if :: bool
  flags_df :: bool

text \<open>
  \<^verbatim>\<open>vcprintf(fmt, ap)\<close> with the format in memory. \<open>file\<close> and \<open>fmt\<close> are pointers, \<open>ap\<close> the
  argument list.
\<close>

definition vprint :: "device \<Rightarrow> u32 \<Rightarrow> (nat \<Rightarrow> u32) \<Rightarrow> kio \<Rightarrow> kio option" where
  "vprint dev fmt ap i = map_option (\<lambda>(_, c). i\<lparr>con := c\<rparr>) (vcprintf dev (kmem i) (kmem i) fmt ap (con i))"

definition report :: "device \<Rightarrow> string \<Rightarrow> u32 \<Rightarrow> u32 \<Rightarrow> u32 \<Rightarrow> (nat \<Rightarrow> u32) \<Rightarrow> kio \<Rightarrow> kio option" where
  "report dev heading file line fmt ap = in_turn [
     print dev heading [] [file, line],
     vprint dev fmt ap,
     print dev NL [] []]"

text \<open>\<open>panic_message\<close> is \<open>_panic\<close> up to the label \<^verbatim>\<open>dead\<close>; \<^verbatim>\<open>cli\<close> and \<^verbatim>\<open>cld\<close> clear two flags.\<close>

definition panic_message :: "machine \<Rightarrow> u32 \<Rightarrow> u32 \<Rightarrow> u32 \<Rightarrow> (nat \<Rightarrow> u32) \<Rightarrow> panic_state \<Rightarrow> panic_state option" where
  "panic_message mc file line fmt ap s =
     (if panicstr s \<noteq> 0 then Some s
      else let s = s\<lparr>panicstr := fmt\<rparr>; s = s\<lparr>flags_if := False, flags_df := False\<rparr> in
        map_option (\<lambda>i. s\<lparr>pio := i\<rparr>) (report (devs mc) ''kernel panic at %s:%d: '' file line fmt ap (pio s)))"

definition kpanic ::
    "machine \<Rightarrow> u32 \<Rightarrow> u32 \<Rightarrow> u32 \<Rightarrow> u32 \<Rightarrow> u32 \<Rightarrow> (nat \<Rightarrow> u32) \<Rightarrow> panic_state \<Rightarrow> panic_state option" where
  "kpanic mc buf ltf file line fmt ap s =
     Option.bind (panic_message mc file line fmt ap s) (\<lambda>s.
       map_option (\<lambda>i. s\<lparr>pio := i\<rparr>) (monitor_forever mc buf ltf (pio s)))"

definition kwarn :: "machine \<Rightarrow> u32 \<Rightarrow> u32 \<Rightarrow> u32 \<Rightarrow> (nat \<Rightarrow> u32) \<Rightarrow> kio \<Rightarrow> kio option" where
  "kwarn mc file line fmt ap = report (devs mc) ''kernel warning at %s:%d: '' file line fmt ap"

section \<open>i386_init\<close>

definition mc146818_write :: "u32 \<Rightarrow> u32 \<Rightarrow> console \<Rightarrow> console" where
  "mc146818_write reg datum c = outb 0x71 (ucast datum) (outb 0x70 (ucast reg) c)"

text \<open>
  Clearing the BSS: the bytes from \<^verbatim>\<open>edata\<close> to \<^verbatim>\<open>end\<close>, in which the kernel's uninitialised
  variables lie.
\<close>

definition clear_bss :: "machine \<Rightarrow> 'z kt \<Rightarrow> kerr + 'z kt" where
  "clear_bss mc s =
     (let edata = k_edata (syms mc); n = k_end (syms mc) - edata in
      bindE (kmemset edata 0 n s) (\<lambda>s.
      Inr (s\<lparr>npages := 0, npages_basemem := 0, kern_pgdir := 0, pages_kva := 0, pages := [],
        page_free_list := None, nextfree := 0, envs := [], curenv := None, env_free_list := None,
        io := (io s)\<lparr>kmem := memset (kmem (io s)) edata 0 n,
          con := (con (io s))\<lparr>serial_exists := False, addr_6845 := 0, crt_pos := 0, kbd_shift := 0,
            cons_buf := replicate (unat CONSBUFSIZE) 0, cons_rpos := 0, cons_wpos := 0\<rparr>\<rparr>,
        last_tf := 0\<rparr>)))"

text \<open>The text that a word spells in memory.\<close>

definition word_text :: "u32 \<Rightarrow> string" where
  "word_text w = map (\<lambda>b. char_of (unat b)) (takeWhile (\<lambda>b. b \<noteq> 0)
     [ucast w :: u8, ucast (drop_bit 8 w), ucast (drop_bit 16 w), ucast (drop_bit 24 w)])"

definition greeting :: "device \<Rightarrow> kio \<Rightarrow> kio option" where
  "greeting dev = in_turn [
     print dev (''Lab1_exercise8:'' @ NL) [] [],
     print dev (''x %d, y %x, z %d'' @ NL) [] [1, 3, 4],
     print dev (''H%x Wo%s'' @ NL) [word_text 0x00646c72] [57616, ARG 0],
     print dev (''6828 decimal is %o octal!'' @ NL) [] [6828]]"

text \<open>What the kernel finds of the board at start: the CMOS bytes, the display memory and its probe.\<close>

record board =
  cmos :: "u32 \<Rightarrow> u8"
  cga_mem :: "u16 \<Rightarrow> u16"
  mda_mem :: "u16 \<Rightarrow> u16"
  cga_probe :: u16

text \<open>\<open>start_kernel\<close> is \<open>i386_init\<close> up to the call of \<open>mem_init\<close>.\<close>

definition start_kernel :: "machine \<Rightarrow> board \<Rightarrow> 'z kt \<Rightarrow> kerr + 'z kt" where
  "start_kernel mc bd s =
     bindE (clear_bss mc s) (\<lambda>s.
     let c = cons_init (devs mc) (cga_mem bd) (mda_mem bd) (cga_probe bd) (con (io s));
         s = s\<lparr>io := (io s)\<lparr>con := c\<rparr>\<rparr> in
     (case greeting (devs mc) (io s) of None \<Rightarrow> Inl Endless | Some i \<Rightarrow> Inr (s\<lparr>io := i\<rparr>)))"

definition i386_init :: "machine \<Rightarrow> board \<Rightarrow> addrs \<Rightarrow> u32 \<Rightarrow> u32 \<Rightarrow> 'z kt \<Rightarrow> kerr + 'z kt" where
  "i386_init mc bd ad bootstack user_hello s =
     bindE (start_kernel mc bd s) (\<lambda>s.
     bindE (mem_init mc (cmos bd) 0 bootstack s) (\<lambda>s.
     let s = env_init (gdt_addr ad) s;
         s = trap_init ad s;
         s = env_create user_hello ENV_TYPE_USER s in
     env_run 0 s))"

section \<open>The greeting\<close>

lemma print_items:
  assumes "map chr fmt = concat (map item_bytes its)" and "length fmt < 2 ^ 31"
    and "format_prints (lits ss (kmem i)) its (arg_list as) 0 cs"
  shows "print dev fmt ss as i = Some (i\<lparr>con := put_all dev cs (con i)\<rparr>)"
proof -
  have "bytes_at (lit_mem fmt) LIT (concat (map item_bytes its) @ [0])"
    using lit_mem_bytes [OF assms(2)] unfolding assms(1) [symmetric] by (simp add: bytes_at_append)
  then have "sent (lit_mem fmt) (lits ss (kmem i)) LIT (arg_list as) = Some (fold (\<lambda>c cs. cs @ [c]) cs [])"
    unfolding sent_def using assms(3) by (rule loop_items)
  moreover have "fold (\<lambda>c cs. cs @ [c]) xs ys = ys @ xs" for xs ys :: "int list"
    by (induction xs arbitrary: ys) simp_all
  ultimately show ?thesis by (simp add: print_sent)
qed

lemma plain_prints: "plain_text cs \<Longrightarrow> format_prints m (plain cs @ its) ap n (map chi cs @ out) = format_prints m its ap n out"
proof (induction cs)
  case (Cons c cs)
  have "format_prints m (plain (c # cs) @ its) ap n (map chi (c # cs) @ out)
    \<longleftrightarrow> format_prints m (plain cs @ its) ap n (map chi cs @ out)"
    using Cons.prems by (auto simp: plain_def uint_chr)
  then show ?case using Cons by simp
qed (simp add: plain_def)

lemma item_then:
  "item_prints m it (ap n) c1 \<Longrightarrow> format_prints m its ap (n + item_args it) out \<Longrightarrow> format_prints m (it # its) ap n (c1 @ out)"
  by auto

lemma number_then:
  assumes "conv_out k (- 1) (chi CHR '' '') (ap n) = map chi txt" and "format_prints m its ap (Suc n) out"
  shows "format_prints m (Num False 0 k # its) ap n (map chi txt @ out)"
  by (rule item_then) (use assms in simp_all)

lemma plain_then:
  "plain_text cs \<Longrightarrow> format_prints m its ap n out \<Longrightarrow> format_prints m (plain cs @ its) ap n (map chi cs @ out)"
  by (simp only: plain_prints)

lemma plain_nl: "format_prints m (plain NL) ap n (map chi NL)"
  using plain_then [of NL m "[]" ap n "[]"] by (simp add: NL_def)

lemma print_plain:
  assumes "plain_text fmt" and "length fmt < 2 ^ 31"
  shows "print dev fmt ss as i = Some (i\<lparr>con := put_all dev (map chi fmt) (con i)\<rparr>)"
proof -
  have "sent (lit_mem fmt) m LIT ap = Some (map chi fmt)" for m ap
    by (rule sent_plain) (use assms in \<open>auto simp: list_all_iff\<close>)
  then show ?thesis by (simp add: print_sent)
qed

lemma boot_numbers:
  "conv_out Dec (- 1) c 1 = map chi ''1''" "conv_out Hex (- 1) c 3 = map chi ''3''" "conv_out Dec (- 1) c 4 = map chi ''4''"
  "conv_out Hex (- 1) c 57616 = map chi ''e110''" "conv_out Octal (- 1) c 6828 = map chi ''15254''"
  by (simp_all add: padded_def digits_def to_base.simps hex_digit_def sint_u32)

lemma boot_word: "word_text 0x00646c72 = ''rld''"
  by (simp add: word_text_def char_of_def) code_simp

text \<open>The greeting of \<open>i386_init\<close>: \<open>57616\<close> in hexadecimal, \<open>6828\<close> in octal and the word \<open>0x00646c72\<close>
  read as a little-endian string.\<close>

lemma greeting_prints:
  "greeting dev i = Some (i\<lparr>con := put_all dev (map chi (''Lab1_exercise8:'' @ NL @ ''x 1, y 3, z 4'' @ NL
     @ ''He110 World'' @ NL @ ''6828 decimal is 15254 octal!'' @ NL)) (con i)\<rparr>)"
proof -
  have l1: "print dev (''Lab1_exercise8:'' @ NL) [] [] i = Some (i\<lparr>con := put_all dev (map chi (''Lab1_exercise8:'' @ NL)) (con i)\<rparr>)" for i
    by (rule print_plain) (simp_all add: NL_def)
  have l2: "print dev (''x %d, y %x, z %d'' @ NL) [] [1, 3, 4] i
      = Some (i\<lparr>con := put_all dev (map chi (''x 1, y 3, z 4'' @ NL)) (con i)\<rparr>)" for i
  proof (rule print_items)
    show "map chr (''x %d, y %x, z %d'' @ NL) = concat (map item_bytes (plain ''x '' @ Num False 0 Dec # plain '', y '' @
        Num False 0 Hex # plain '', z '' @ Num False 0 Dec # plain NL))" by simp
    have "format_prints (lits [] (kmem i)) (plain ''x '' @ Num False 0 Dec # plain '', y '' @ Num False 0 Hex # plain '', z '' @
        Num False 0 Dec # plain NL) (arg_list [1, 3, 4]) 0
        (map chi ''x '' @ map chi ''1'' @ map chi '', y '' @ map chi ''3'' @ map chi '', z '' @ map chi ''4'' @ map chi NL)"
      by (intro plain_then number_then plain_nl) (simp_all add: arg_list_def boot_numbers del: conv_out.simps)
    then show "format_prints (lits [] (kmem i)) (plain ''x '' @ Num False 0 Dec # plain '', y '' @ Num False 0 Hex # plain '', z '' @
        Num False 0 Dec # plain NL) (arg_list [1, 3, 4]) 0 (map chi (''x 1, y 3, z 4'' @ NL))" by simp
  qed (simp add: NL_def)
  have l3: "print dev (''H%x Wo%s'' @ NL) [word_text 0x00646c72] [57616, ARG 0] i
      = Some (i\<lparr>con := put_all dev (map chi (''He110 World'' @ NL)) (con i)\<rparr>)" for i
  proof (rule print_items)
    show "map chr (''H%x Wo%s'' @ NL) = concat (map item_bytes (plain ''H'' @ Num False 0 Hex # plain '' Wo'' @ Str # plain NL))"
      by simp
    have "cstr (lits [word_text 0x00646c72] (kmem i)) (ARG 0) (map chr ''rld'')"
      using lits_nth [of 0 "[word_text 0x00646c72]" "kmem i"] by (simp add: boot_word)
    then have "item_prints (lits [word_text 0x00646c72] (kmem i)) Str (arg_list [57616, ARG 0] 1) (map chi ''rld'')"
      by (auto simp: arg_list_def ARG_def intro!: exI [of _ "map chr ''rld''"])
    then have "format_prints (lits [word_text 0x00646c72] (kmem i)) (plain ''H'' @ Num False 0 Hex # plain '' Wo'' @ Str # plain NL)
        (arg_list [57616, ARG 0]) 0 (map chi ''H'' @ map chi ''e110'' @ map chi '' Wo'' @ map chi ''rld'' @ map chi NL)"
      by (intro plain_then number_then item_then plain_nl) (simp_all add: arg_list_def boot_numbers del: conv_out.simps)
    then show "format_prints (lits [word_text 0x00646c72] (kmem i)) (plain ''H'' @ Num False 0 Hex # plain '' Wo'' @ Str # plain NL)
        (arg_list [57616, ARG 0]) 0 (map chi (''He110 World'' @ NL))" by simp
  qed (simp add: NL_def)
  have l4: "print dev (''6828 decimal is %o octal!'' @ NL) [] [6828] i
      = Some (i\<lparr>con := put_all dev (map chi (''6828 decimal is 15254 octal!'' @ NL)) (con i)\<rparr>)" for i
  proof (rule print_items)
    show "map chr (''6828 decimal is %o octal!'' @ NL) = concat (map item_bytes (plain ''6828 decimal is '' @
        Num False 0 Octal # plain '' octal!'' @ plain NL))" by simp
    have "format_prints (lits [] (kmem i)) (plain ''6828 decimal is '' @ Num False 0 Octal # plain '' octal!'' @ plain NL)
        (arg_list [6828]) 0 (map chi ''6828 decimal is '' @ map chi ''15254'' @ map chi '' octal!'' @ map chi NL)"
      by (intro plain_then number_then plain_nl) (simp_all add: arg_list_def boot_numbers del: conv_out.simps)
    then show "format_prints (lits [] (kmem i)) (plain ''6828 decimal is '' @ Num False 0 Octal # plain '' octal!'' @ plain NL)
        (arg_list [6828]) 0 (map chi (''6828 decimal is 15254 octal!'' @ NL))" by simp
  qed (simp add: NL_def)
  show ?thesis
    unfolding greeting_def in_turn.simps l1 l2 l3 l4 bind.bind_lunit map_append put_all_append by simp
qed

section \<open>Panicking\<close>

lemma vprint_plain:
  assumes "bytes_at (kmem i) fmt (map chr msg @ [0])" and "plain_text msg"
  shows "vprint dev fmt ap i = Some (i\<lparr>con := put_all dev (map chi msg) (con i)\<rparr>)"
proof -
  have "format_prints (kmem i) (plain msg) ap 0 (map chi msg)"
    using plain_then [OF assms(2), of "kmem i" "[]" ap 0 "[]"] by simp
  moreover have "bytes_at (kmem i) fmt (concat (map item_bytes (plain msg)) @ [0])" using assms(1) by simp
  ultimately have "sent (kmem i) (kmem i) fmt ap = Some (fold (\<lambda>c cs. cs @ [c]) (map chi msg) [])"
    unfolding sent_def by (intro loop_items)
  moreover have "fold (\<lambda>c cs. cs @ [c]) xs ys = ys @ xs" for xs ys :: "int list"
    by (induction xs arbitrary: ys) simp_all
  ultimately show ?thesis by (simp add: vprint_def vcprintf_sent)
qed

lemma report_plain:
  assumes "plain_text h" and "length h < 1000" and "file = 0 \<or> (\<exists>xs. cstr (kmem i) file xs)"
    and "bytes_at (kmem i) fmt (map chr msg @ [0])" and "plain_text msg"
  shows "\<exists>cs. report dev (h @ ''%s:%d: '') file line fmt ap i
    = Some (i\<lparr>con := put_all dev (cs @ map chi msg @ map chi NL) (con i)\<rparr>)"
proof -
  let ?its = "plain h @ Str # plain '':'' @ Num False 0 Dec # plain '': ''"
  have "map chr (h @ ''%s:%d: '') = concat (map item_bytes ?its)" by simp
  moreover have "good_items (lits [] (kmem i)) (arg_list [file, line]) 0 ?its"
    using assms(1,3) good_plain [of "'': ''" _ _ _ "[]"] by (simp add: good_plain arg_list_def lits_none)
  ultimately obtain cs where "print dev (h @ ''%s:%d: '') [] [file, line] i = Some (i\<lparr>con := put_all dev cs (con i)\<rparr>)"
    using print_returns [of "h @ ''%s:%d: ''" ?its "[]" i] assms(2) by fastforce
  moreover have "vprint dev fmt ap (i\<lparr>con := put_all dev cs (con i)\<rparr>)
      = Some (i\<lparr>con := put_all dev (map chi msg) (put_all dev cs (con i))\<rparr>)"
    using vprint_plain [of "i\<lparr>con := put_all dev cs (con i)\<rparr>"] assms(4,5) by simp
  moreover have "print dev NL [] [] j = Some (j\<lparr>con := put_all dev (map chi NL) (con j)\<rparr>)" for j
    by (rule print_plain) (simp_all add: NL_def)
  ultimately show ?thesis by (auto simp: report_def put_all_append)
qed

text \<open>C35: The first panic with a plain message prints the heading, the message and a line end, turns interrupts
  off and remembers its message; any later panic prints nothing; and neither returns, because
  the monitor is entered for good.\<close>

theorem panic_once:
  assumes "bytes_at (kmem (pio s)) fmt (map chr msg @ [0])" and "plain_text msg" and "fmt \<noteq> 0"
    and "file = 0 \<or> (\<exists>xs. cstr (kmem (pio s)) file xs)" and "panicstr s = 0"
  shows "\<exists>s' cs. panic_message mc file line fmt ap s = Some s'
    \<and> con (pio s') = put_all (devs mc) (cs @ map chi msg @ map chi NL) (con (pio s))
    \<and> \<not> flags_if s' \<and> panicstr s' = fmt
    \<and> panic_message mc file' line' fmt' ap' s' = Some s'
    \<and> kpanic mc buf ltf file line fmt ap s = None \<and> kpanic mc buf ltf file' line' fmt' ap' s' = None"
proof -
  have h: "''kernel panic at %s:%d: '' = ''kernel panic at '' @ ''%s:%d: ''" by simp
  have heading: "plain_text ''kernel panic at ''" "length ''kernel panic at '' < 1000" by simp_all
  obtain cs where cs: "report (devs mc) ''kernel panic at %s:%d: '' file line fmt ap (pio s)
      = Some ((pio s)\<lparr>con := put_all (devs mc) (cs @ map chi msg @ map chi NL) (con (pio s))\<rparr>)"
    using report_plain [OF heading assms(4,1,2), of "devs mc" line ap] unfolding h by blast
  let ?s = "s\<lparr>panicstr := fmt, flags_if := False, flags_df := False,
      pio := (pio s)\<lparr>con := put_all (devs mc) (cs @ map chi msg @ map chi NL) (con (pio s))\<rparr>\<rparr>"
  have first: "panic_message mc file line fmt ap s = Some ?s"
    using cs assms(5) by (simp add: panic_message_def Let_def)
  have "kpanic mc buf ltf f l m a t = None" for f l m a t
    by (simp add: kpanic_def monitor_forever_None bind_eq_None_conv)
  note stuck = this
  show ?thesis
  proof (intro exI [of _ ?s] exI [of _ cs] conjI)
    show "panic_message mc file line fmt ap s = Some ?s" by (rule first)
    show "panic_message mc file' line' fmt' ap' ?s = Some ?s" using assms(3) by (simp add: panic_message_def)
  qed (simp_all add: stuck)
qed

lemma panic_once_witness:
  "\<exists>s'. panic_message blank_machine 0 120 0xF0130000 (\<lambda>_. 0)
       \<lparr>pio = blank_kio\<lparr>kmem := put_bytes (\<lambda>_. 0) 0xF0130000 (map chr ''halt'')\<rparr>, panicstr = 0, flags_if = True, flags_df = False\<rparr>
     = Some s' \<and> panicstr s' = 0xF0130000 \<and> \<not> flags_if s'"
proof -
  let ?s = "\<lparr>pio = blank_kio\<lparr>kmem := put_bytes (\<lambda>_. 0) 0xF0130000 (map chr ''halt'')\<rparr>, panicstr = 0, flags_if = True, flags_df = False\<rparr>"
  have "bytes_at (kmem (pio ?s)) 0xF0130000 (map chr ''halt'' @ [0])"
    by (simp add: put_bytes_Cons)
  then show ?thesis
    using panic_once [of ?s "0xF0130000" "''halt''" 0 blank_machine 120 "\<lambda>_. 0"] by simp blast
qed

section \<open>How the kernel starts, and where it ends\<close>

lemma npages_detected: "npages (i386_detect_memory cm s) = npages (i386_detect_memory cm t)"
  by (simp add: i386_detect_memory_def split: prod.split)

text \<open>The four lines of the greeting: 57616 in hexadecimal, the word \<open>0x00646c72\<close> read as a
  little-endian string, and 6828 in octal.\<close>

definition greeting_text :: string where
  "greeting_text = ''Lab1_exercise8:'' @ NL @ ''x 1, y 3, z 4'' @ NL @ ''He110 World'' @ NL
     @ ''6828 decimal is 15254 octal!'' @ NL"

text \<open>The state of the console variables after the BSS is cleared.\<close>

definition zero_console :: "console \<Rightarrow> console" where
  "zero_console c = c\<lparr>serial_exists := False, addr_6845 := 0, crt_pos := 0, kbd_shift := 0,
     cons_buf := replicate (unat CONSBUFSIZE) 0, cons_rpos := 0, cons_wpos := 0\<rparr>"

lemma greets: "greeting dev i = Some (i\<lparr>con := put_all dev (map chi greeting_text) (con i)\<rparr>)"
  unfolding greeting_text_def by (rule greeting_prints)

lemma start_kernel_run:
  assumes "KERNBASE \<le> k_edata (syms mc)"
  defines "E \<equiv> k_edata (syms mc)" and "n \<equiv> unat (k_end (syms mc) - k_edata (syms mc))"
  shows "\<exists>t. start_kernel mc bd s = Inr t
    \<and> mem t = fill (mem s) (E - KERNBASE) n 0 \<and> kmem (io t) = fill (kmem (io s)) E n 0
    \<and> con (io t) = put_all (devs mc) (map chi greeting_text)
        (cons_init (devs mc) (cga_mem bd) (mda_mem bd) (cga_probe bd) (zero_console (con (io s))))
    \<and> nextfree t = 0 \<and> pages t = [] \<and> page_free_list t = None \<and> envs t = [] \<and> curenv t = None"
  using assms(1)
  by (simp add: start_kernel_def clear_bss_def kmemset_def Let_def greets memset_fill zero_console_def E_def n_def not_less)

text \<open>C38: On a machine with room for the kernel image and the page array, \<open>i386_init\<close> first clears
  the bytes from \<^verbatim>\<open>edata\<close> to \<^verbatim>\<open>end\<close> and no others, initialises the console and prints its
  four lines (\<^verbatim>\<open>x 1, y 3, z 4\<close>, \<^verbatim>\<open>He110 World\<close>, \<^verbatim>\<open>6828 decimal is 15254 octal!\<close> after the heading) and nothing
  else, with no environment in the table and no free page. In the state this leaves, \<open>mem_init\<close>
  panics because \<^verbatim>\<open>envs\<close> is the null pointer, and that is how \<open>i386_init\<close> ends.\<close>

theorem kernel_start:
  fixes s :: "'z kt" and t :: "'z kt"
  assumes "room (k_end (syms mc)) (unat (npages (i386_detect_memory (cmos bd) t)))" and "KERNBASE \<le> k_edata (syms mc)"
    and "KERNBASE \<le> bootstack" and "unat bootstack mod 4096 = 0"
  shows "\<exists>s'. start_kernel mc bd s = Inr s'
    \<and> (\<forall>a. mem s' a = (if unat (a - (k_edata (syms mc) - KERNBASE)) < unat (k_end (syms mc) - k_edata (syms mc))
        then 0 else mem s a))
    \<and> con (io s') = put_all (devs mc) (map chi greeting_text)
        (cons_init (devs mc) (cga_mem bd) (mda_mem bd) (cga_probe bd) (zero_console (con (io s))))
    \<and> pages s' = [] \<and> page_free_list s' = None \<and> envs s' = [] \<and> curenv s' = None
    \<and> mem_init mc (cmos bd) 0 bootstack s' = Inl (Panic ''PADDR called with invalid kva'')
    \<and> i386_init mc bd ad bootstack user_hello s = Inl (Panic ''PADDR called with invalid kva'')"
proof -
  obtain s' where s': "start_kernel mc bd s = Inr s'"
    "mem s' = fill (mem s) (k_edata (syms mc) - KERNBASE) (unat (k_end (syms mc) - k_edata (syms mc))) 0"
    "con (io s') = put_all (devs mc) (map chi greeting_text)
        (cons_init (devs mc) (cga_mem bd) (mda_mem bd) (cga_probe bd) (zero_console (con (io s))))"
    "nextfree s' = 0" "pages s' = []" "page_free_list s' = None" "envs s' = []" "curenv s' = None"
    using start_kernel_run [OF assms(2), of bd s] by blast
  have "mem_init mc (cmos bd) 0 bootstack s' = Inl (envs_panic 0)"
    by (rule mem_init_run [OF assms(1) [unfolded npages_detected [of _ t s']] s'(4) assms(3,4)])
  then have panic: "mem_init mc (cmos bd) 0 bootstack s' = Inl (Panic ''PADDR called with invalid kva'')"
    by (simp add: envs_panic_def KERNBASE_def)
  moreover have "i386_init mc bd ad bootstack user_hello s = Inl (Panic ''PADDR called with invalid kva'')"
    by (simp add: i386_init_def s'(1) panic)
  ultimately show ?thesis using s' by (simp add: fill_def in_range_def)
qed

lemma kernel_start_witness:
  "i386_init (small_machine\<lparr>syms := (syms small_machine)\<lparr>k_edata := 0xF0112000\<rparr>\<rparr>)
     \<lparr>cmos = small_board, cga_mem = \<lambda>_. 0, mda_mem = \<lambda>_. 0, cga_probe = 0\<rparr>
     \<lparr>gdt_addr = 0xF0110000, idt_addr = 0xF0111000, ts_addr = 0xF0112000, envs_addr = 0\<rparr> 0xF0108000 0xF0140000 demo_trap
   = Inl (Panic ''PADDR called with invalid kva'')"
proof -
  let ?m = "small_machine\<lparr>syms := (syms small_machine)\<lparr>k_edata := 0xF0112000\<rparr>\<rparr>"
  let ?b = "\<lparr>cmos = small_board, cga_mem = \<lambda>_. 0, mda_mem = \<lambda>_. 0, cga_probe = 0\<rparr>"
  have room: "room (k_end (syms ?m)) (unat (npages (i386_detect_memory (cmos ?b) demo_trap)))"
    using small_machine_room(2) [of demo_trap] by simp
  have "KERNBASE \<le> k_edata (syms ?m)" "KERNBASE \<le> 0xF0108000" "unat (0xF0108000 :: u32) mod 4096 = 0"
    by (simp_all add: KERNBASE_def)
  from kernel_start [OF room this, where s = demo_trap and user_hello = "0xF0140000"
      and ad = "\<lparr>gdt_addr = 0xF0110000, idt_addr = 0xF0111000, ts_addr = 0xF0112000, envs_addr = 0\<rparr>"]
  show ?thesis by blast
qed

end
