(* ===== verification/InstalledTest.thy ===== *)
theory InstalledTest
  imports PageTest
begin

text \<open>
  \<open>check_page_installed_pgdir\<close> of \<^verbatim>\<open>kern/pmap.c\<close>: the test that reads and writes mapped pages
  through the processor's own translation, page tables and TLB, rather than through the kernel's
  window on physical memory.
\<close>

section \<open>Access through the table of the test\<close>

lemma state_of_cr3 [simp]: "cr3 (state_of s m g q tc) = cr3 s"
  by (simp add: state_of_def)

lemma new_pde_writable: "new_pde x AND PTE_W \<noteq> 0"
  using page_flag [of PTE_W x] by (simp add: or.assoc flag_values) (simp add: layout)

lemma translate_table:
  assumes cr: "PTE_ADDR (cr3 s) = page2pa pd" and p: "entry m pd (pdi va) = new_pde x" and x: "x < 65536"
    and e: "entry m x (pti va) = e" "present e" and tc: "tc (PGNUM va) = None"
  shows "translate va (state_of s m g q tc) = Inr (e, state_of s m g q (tc(PGNUM va \<mapsto> e)))"
proof -
  have "page2pa x = PTE_ADDR (new_pde x)" using page2pa_frame_of [of "new_pde x"] new_pde(2) [OF x] by simp
  then have "load32 m (PTE_ADDR (cr3 s) + 4 * PDX va) = new_pde x"
    "load32 m (PTE_ADDR (new_pde x) + 4 * PTX va) = e"
    using p e(1) cr by (simp_all add: entry_def)
  then have "mmu_walk m (cr3 s) va = Some e"
    using new_pde(1) [of x] new_pde_writable [of x] e(2) by (simp add: mmu_walk_def)
  then show ?thesis using tc by (simp add: translate_def)
qed

lemma translate_cached:
  assumes "tc (PGNUM va) = Some e"
  shows "translate va (state_of s m g q tc) = Inr (e, state_of s m g q tc)"
  using assms by (simp add: translate_def fun_upd_idem)

text \<open>Address \<open>PGSIZE\<close>, at the start of a page \<open>pp\<close>.\<close>

lemma PGOFF_PGSIZE: "PGOFF PGSIZE = 0" by (simp add: PGOFF_def PGSIZE_def)

lemma vload_table:
  assumes cr: "PTE_ADDR (cr3 s) = page2pa pd" and p: "entry m pd 0 = new_pde x" and b: "x < 65536" "pp < 65536"
    and e: "entry m x 1 = pte_for pp PTE_W" and tc: "tc (PGNUM PGSIZE) = None"
  shows "vload PGSIZE (state_of s m g q tc) = Inr (entry m pp 0, state_of s m g q (tc(PGNUM PGSIZE \<mapsto> pte_for pp PTE_W)))"
  using translate_table [OF cr, of m PGSIZE x "pte_for pp PTE_W" tc g q] p b(1) e tc
    pte_for_page [OF b(2) small_flags(1)] by (simp add: vload_def PGOFF_PGSIZE entry_def)

lemma vstore_cached:
  assumes "tc (PGNUM PGSIZE) = Some (pte_for pp PTE_W)" and "pp < 65536"
  shows "vstore PGSIZE v (state_of s m g q tc) = Inr (state_of s (set_entry pp 0 v m) g q tc)"
  using translate_cached [where tc = tc, OF assms(1), of s m g q] pte_flags(2) [of pp] pte_for_page(2) [OF assms(2) small_flags(1)]
  by (simp add: vstore_def PGOFF_PGSIZE set_entry_def)

section \<open>The test\<close>

lemma entry_filled:
  assumes "f < 65536"
  shows "entry (fill m (page2pa f) 4096 1) f 0 = 0x01010101" "entry (fill m (page2pa f) 4096 2) f 0 = 0x02020202"
  using in_frame [of f f 0 0] in_frame [of f f 0 1] in_frame [of f f 0 2] in_frame [of f f 0 3] assms
  by (simp_all add: entry_def load32_def fill_def)

lemma take_three:
  assumes fi: "free_inv s (x # y # z # rest)"
  shows "assert_page_alloc msg s
      = Inr (x, state_of s (mem s) (trio x y z (held 0) (unused (Some z)) (unused (first_of rest))) (Some y) (tlb s))"
    "assert_page_alloc msg (state_of s (mem s) (trio x y z (held 0) (unused (Some z)) (unused (first_of rest))) (Some y) (tlb s))
      = Inr (y, state_of s (mem s) (trio x y z (held 0) (held 0) (unused (first_of rest))) (Some z) (tlb s))"
    "assert_page_alloc msg (state_of s (mem s) (trio x y z (held 0) (held 0) (unused (first_of rest))) (Some z) (tlb s))
      = Inr (z, state_of s (mem s) (trio x y z (held 0) (held 0) (held 0)) (first_of rest) (tlb s))"
proof -
  let ?G = "trio x y z" and ?l = "first_of rest" and ?tl = "tlb s"
  let ?S = "\<lambda>p q r. state_of s (mem s) (?G p q r)"
  note three = first_three [OF fi]
  have "distinct [x, y, z]" using three(5-7) by simp
  note up = trio_upd [OF this]
  have "page_free_list s = Some x" using fi by (simp add: free_inv_def)
  then have "s = ?S (unused (Some y)) (unused (Some z)) (unused ?l) (Some x) ?tl"
    using three(8) by (simp add: state_of_def)
  moreover have "assert_page_alloc msg (?S (unused (Some y)) (unused (Some z)) (unused ?l) (Some x) ?tl)
      = Inr (x, ?S (held 0) (unused (Some z)) (unused ?l) (Some y) ?tl)"
    using state_of_alloc(1) [where g = "?G (unused (Some y)) (unused (Some z)) (unused ?l)", OF three(1,2) up(1)]
    by (simp add: assert_page_alloc_def up)
  ultimately show "assert_page_alloc msg s = Inr (x, ?S (held 0) (unused (Some z)) (unused ?l) (Some y) ?tl)" by simp
  show "assert_page_alloc msg (?S (held 0) (unused (Some z)) (unused ?l) (Some y) ?tl)
      = Inr (y, ?S (held 0) (held 0) (unused ?l) (Some z) ?tl)"
    "assert_page_alloc msg (?S (held 0) (held 0) (unused ?l) (Some z) ?tl) = Inr (z, ?S (held 0) (held 0) (held 0) ?l ?tl)"
    using state_of_alloc(1) [where g = "?G (held 0) (unused (Some z)) (unused ?l)", OF three(1,3) up(2)]
      state_of_alloc(1) [where g = "?G (held 0) (held 0) (unused ?l)", OF three(1,4) up(3)]
    by (simp_all add: assert_page_alloc_def up)
qed

lemma fill_page_run:
  assumes "wf_pages s" and "pp < length (pages s)"
  shows "fill_page pp c (state_of s m g q tc) = Inr (state_of s (fill m (page2pa pp) 4096 (ucast c)) g q tc)"
proof -
  have "page2kva (state_of s m g q tc) pp = Inr (kva pp)" by (rule page2kva_Inr) (use assms in simp_all)
  then show ?thesis using page2pa_bound [OF assms] by (simp add: fill_page_def kmemset_kva PGSIZE_def)
qed

lemma table_taken:
  assumes T: "testable s pd x y z" and e: "entry m pd 0 = new_pde x"
  shows "assert_pde_page x (state_of s m g q tc) = Inr ()"
    "kstore (kva pd) 0 (state_of s m g q tc) = Inr (state_of s (set_entry pd 0 0 m) g q tc)"
proof -
  note D = testableD [OF T]
  have "page2pa x = PTE_ADDR (new_pde x)" using page2pa_frame_of [of "new_pde x"] new_pde(2) [OF D(8)] by simp
  then show "assert_pde_page x (state_of s m g q tc) = Inr ()"
    using load_slot(1) [OF D(1,3), of 0 m g q tc] e D(2) by (simp add: assert_pde_page_def)
  show "kstore (kva pd) 0 (state_of s m g q tc) = Inr (state_of s (set_entry pd 0 0 m) g q tc)"
    using load_slot(2) [OF D(1,3), of 0 0 m g q tc] by simp
qed

text \<open>
  Memory along the test: two pages filled, the first mapped through a new table, the second in its
  place, a word stored in it, the mapping removed, and the table taken back.
\<close>

lemma test_memory:
  assumes lt: "pd < 65536" "x < 65536" "y < 65536" "z < 65536"
    and ne: "pd \<noteq> x" "pd \<noteq> y" "pd \<noteq> z" "y \<noteq> x" "z \<noteq> x" "z \<noteq> y"
    and m2: "m2 = fill (fill m (page2pa y) 4096 1) (page2pa z) 4096 2"
    and m3: "m3 = set_entry x 1 (pte_for y PTE_W) (set_entry pd 0 (new_pde x) (fill m2 (page2pa x) 4096 0))"
    and m4: "m4 = set_entry x 1 (pte_for z PTE_W) (set_entry x 1 0 m3)"
    and m5: "m5 = set_entry z 0 0x03030303 m4"
    and m6: "m6 = set_entry x 1 0 m5" and m7: "m7 = set_entry pd 0 0 m6"
  shows "entry m2 pd 0 = entry m pd 0"
    and "entry m3 pd 0 = new_pde x" "entry m3 x 1 = pte_for y PTE_W" "entry m3 y 0 = 0x01010101"
    and "entry m4 pd 0 = new_pde x" "entry m4 x 1 = pte_for z PTE_W" "entry m4 z 0 = 0x02020202"
    and "entry m5 pd 0 = new_pde x" "entry m5 x 1 = pte_for z PTE_W" "entry m5 z 0 = 0x03030303"
    and "entry m6 pd 0 = new_pde x" and "entry m7 pd 0 = 0" "entry m7 z 0 = 0x03030303"
    and "\<lbrakk>f < 65536; i < 1024; f \<notin> {x, y, z}; \<not> (f = pd \<and> i = 0)\<rbrakk> \<Longrightarrow> entry m7 f i = entry m f i"
proof -
  have b: "pd < 1048576" "x < 1048576" "y < 1048576" "z < 1048576" using lt by simp_all
  have s2: "entry m2 f i = entry m f i" if "f < 65536" "i < 1024" "f \<noteq> y" "f \<noteq> z" for f i
    using that b by (simp add: m2 entry_fill)
  have s2': "entry m2 y 0 = 0x01010101" "entry m2 z 0 = 0x02020202"
    using entry_filled(1) [OF lt(3)] entry_filled(2) [OF lt(4)] b ne by (simp_all add: m2 entry_fill)
  have s3: "entry m3 f i = (if f = x then if i = 1 then pte_for y PTE_W else 0 else if f = pd \<and> i = 0 then new_pde x else entry m2 f i)"
    if "f < 65536" "i < 1024" for f i
    using that b ne(1) by (simp add: m3 entry_set_entry entry_fill)
  have s4: "entry m4 f i = (if f = x \<and> i = 1 then pte_for z PTE_W else entry m3 f i)" if "f < 65536" "i < 1024" for f i
    using that b by (simp add: m4 entry_set_entry)
  have s5: "entry m5 f i = (if f = z \<and> i = 0 then 0x03030303 else entry m4 f i)" if "f < 65536" "i < 1024" for f i
    using that b by (simp add: m5 entry_set_entry)
  have s6: "entry m6 f i = (if f = x \<and> i = 1 then 0 else entry m5 f i)" if "f < 65536" "i < 1024" for f i
    using that b by (simp add: m6 entry_set_entry)
  have s7: "entry m7 f i = (if f = pd \<and> i = 0 then 0 else entry m6 f i)" if "f < 65536" "i < 1024" for f i
    using that b by (simp add: m7 entry_set_entry)
  show "entry m2 pd 0 = entry m pd 0" using lt ne by (simp add: s2)
  show "entry m3 pd 0 = new_pde x" "entry m3 x 1 = pte_for y PTE_W" "entry m3 y 0 = 0x01010101"
    using lt ne s2' by (simp_all add: s3)
  show e4: "entry m4 pd 0 = new_pde x" "entry m4 x 1 = pte_for z PTE_W" "entry m4 z 0 = 0x02020202"
    using lt ne s2' by (simp_all add: s3 s4)
  show e5: "entry m5 pd 0 = new_pde x" "entry m5 x 1 = pte_for z PTE_W" "entry m5 z 0 = 0x03030303"
    using lt ne e4 by (simp_all add: s5)
  show "entry m6 pd 0 = new_pde x" using lt ne e5 by (simp add: s6)
  show "entry m7 pd 0 = 0" "entry m7 z 0 = 0x03030303" using lt ne e5 by (simp_all add: s6 s7)
  show "\<lbrakk>f < 65536; i < 1024; f \<notin> {x, y, z}; \<not> (f = pd \<and> i = 0)\<rbrakk> \<Longrightarrow> entry m7 f i = entry m f i"
    by (auto simp: s2 s3 s4 s5 s6 s7)
qed

lemma check_installed_run:
  assumes fi: "free_inv s (x # y # z # rest)" and pgdir: "kern_pgdir s = kva pd" and cr: "PTE_ADDR (cr3 s) = page2pa pd"
    and pd: "pd < length (pages s)" "pd \<notin> {x, y, z}" and none: "\<not> present (entry (mem s) pd 0)"
    and tc: "tlb s (PGNUM PGSIZE) = None"
  shows "\<exists>m. check_page_installed_pgdir mc s = Inr (announced mc ''check_page_installed_pgdir() succeeded!''
      (state_of s m (trio x y z (unused (Some z)) (unused (first_of rest)) (unused (Some y))) (Some x) (tlb s)))
    \<and> entry m pd 0 = 0 \<and> entry m z 0 = 0x03030303
    \<and> (\<forall>f < 65536. \<forall>i < 1024. f \<notin> {x, y, z} \<longrightarrow> \<not> (f = pd \<and> i = 0) \<longrightarrow> entry m f i = entry (mem s) f i)"
proof -
  note three = first_three [OF fi]
  have T: "testable s pd x y z" using three pgdir pd by (auto simp: testable_def)
  note D = testableD [OF T]
  note up = trio_upd [OF D(11)]
  let ?G = "trio x y z" and ?l = "first_of rest" and ?tl = "tlb s"
  let ?S = "\<lambda>m p q r. state_of s m (?G p q r)"
  let ?ty = "?tl(PGNUM PGSIZE \<mapsto> pte_for y PTE_W)" and ?tz = "?tl(PGNUM PGSIZE \<mapsto> pte_for z PTE_W)"
  define m1 where "m1 = fill (mem s) (page2pa y) 4096 1"
  define m2 where "m2 = fill m1 (page2pa z) 4096 2"
  define m3 where "m3 = set_entry x 1 (pte_for y PTE_W) (set_entry pd 0 (new_pde x) (fill m2 (page2pa x) 4096 0))"
  define m4 where "m4 = set_entry x 1 (pte_for z PTE_W) (set_entry x 1 0 m3)"
  define m5 where "m5 = set_entry z 0 0x03030303 m4"
  define m6 where "m6 = set_entry x 1 0 m5"
  define m7 where "m7 = set_entry pd 0 0 m6"
  have ne: "pd \<noteq> x" "pd \<noteq> y" "pd \<noteq> z" "y \<noteq> x" "z \<noteq> x" "z \<noteq> y" using pd(2) D(13-15) by auto
  note E = test_memory [OF D(7-10) ne m2_def [unfolded m1_def] m3_def m4_def m5_def m6_def m7_def]
  note take = take_three [OF fi]
  have free1: "page_free x (?S (mem s) (held 0) (held 0) (held 0) ?l ?tl) = Inr (?S (mem s) (unused ?l) (held 0) (held 0) (Some x) ?tl)"
    using state_of_free [where g = "?G (held 0) (held 0) (held 0)", OF D(4) up(1)] by (simp add: up)
  have kv: "page2kva (state_of s m g q tc) z = Inr (kva z)" for m g q tc
    by (rule page2kva_Inr) (use D in simp_all)
  note fill = fill_page_run [OF D(1)]
  have ins1: "page_insert (kva pd) y PGSIZE PTE_W (?S m2 (unused ?l) (held 0) (held 0) (Some x) ?tl)
      = Inr (0, ?S m3 (held 1) (held 1) (held 0) ?l ?tl)"
    using insert_fresh [where g = "?G (unused ?l) (held 0) (held 0)" and m = m2 and va = PGSIZE and perm = PTE_W,
        OF D(1,3) _ D(4,12) up(1) D(5) D(13) [symmetric] up(2)] none E(1) by (simp add: up m3_def)
  have load1: "vload PGSIZE (?S m3 (held 1) (held 1) (held 0) ?l ?tl) = Inr (0x01010101, ?S m3 (held 1) (held 1) (held 0) ?l ?ty)"
    using vload_table [where m = m3 and tc = ?tl, OF cr E(2) D(8,9) E(3) tc] E(4) by simp
  have ins2: "page_insert (kva pd) z PGSIZE PTE_W (?S m3 (held 1) (held 1) (held 0) ?l ?ty)
      = Inr (0, ?S m4 (held 1) (unused ?l) (held 1) (Some y) ?tl)"
    using insert_over(2) [where g = "?G (held 1) (held 1) (held 0)" and va = PGSIZE and po = "held 1" and m = m3 and perm = PTE_W
        and q = ?l and tc = ?ty, OF D(1,3) _ D(4,6) up(3) _ small_flags(1) D(5)] E(2-4) D(13-15) tc
    by (simp add: up m4_def fun_upd_idem)
  have load2: "vload PGSIZE (?S m4 (held 1) (unused ?l) (held 1) (Some y) ?tl)
      = Inr (0x02020202, ?S m4 (held 1) (unused ?l) (held 1) (Some y) ?tz)"
    using vload_table [where m = m4 and tc = ?tl, OF cr E(5) D(8,10) E(6) tc] E(7) by simp
  have store: "vstore PGSIZE 0x03030303 (?S m4 (held 1) (unused ?l) (held 1) (Some y) ?tz)
      = Inr (?S m5 (held 1) (unused ?l) (held 1) (Some y) ?tz)"
    using vstore_cached [of ?tz z] D(10) by (simp add: m5_def)
  have load3: "kload (state_of s m5 g q tc) (kva z) = Inr 0x03030303" for g q tc
    using load_slot(1) [OF D(1,6), of 0 m5 g q tc] E(10) by simp
  have rem: "page_remove (kva pd) PGSIZE (?S m5 (held 1) (unused ?l) (held 1) (Some y) ?tz)
      = Inr (?S m6 (held 1) (unused ?l) (unused (Some y)) (Some z) ?tl)"
    using remove_table(2) [where g = "?G (held 1) (unused ?l) (held 1)" and po = "held 1" and va = PGSIZE and m = m5 and q = "Some y"
        and tc = ?tz, OF D(1,3) _ D(4) _ D(6) up(3)] E(8-10) pte_for_page(1) [OF D(10) small_flags(1)] tc
    by (simp add: up m6_def fun_upd_idem)
  note pde = table_taken [OF T E(11), folded m7_def]
  let ?final = "?S m7 (unused (Some z)) (unused ?l) (unused (Some y)) (Some x) ?tl"
  have free2: "page_free x (?S m7 (held 0) (unused ?l) (unused (Some y)) (Some z) ?tl) = Inr ?final"
    using state_of_free [where g = "?G (held 0) (unused ?l) (unused (Some y))", OF D(4) up(1)] by (simp add: up)
  have "check_page_installed_pgdir mc s = kprint mc (''check_page_installed_pgdir() succeeded!'' @ NL) [] ?final"
    by (simp add: check_page_installed_pgdir_def D take free1 fill m1_def [symmetric] m2_def [symmetric] ins1
      state_asserts up assert_vload_def load1 ins2 load2 store kv load3 rem take_back_def pde state_of_page free2)
  also have "\<dots> = Inr (announced mc ''check_page_installed_pgdir() succeeded!'' ?final)"
    by (rule kprint_announced) simp_all
  finally show ?thesis using E(12-14) by blast
qed

text \<open>C7: Once the kernel's directory is installed, its first slot is empty and nothing is cached
  for the second page, \<open>check_page_installed_pgdir\<close> passes: what it reads at address \<open>PGSIZE\<close>
  through the page tables and the TLB is the page mapped last, what it writes there lands in
  that page, and remapping leaves no stale translation. It reports success; the directory slot
  is cleared again, the TLB is as before, the three pages are free, and the rest of memory keeps
  its contents.\<close>

theorem check_installed_passes:
  assumes "free_inv s (x # y # z # rest)" and "kern_pgdir s = kva pd" and "PTE_ADDR (cr3 s) = page2pa pd"
    and "pd < length (pages s)" and "pd \<notin> {x, y, z}" and "\<not> present (entry (mem s) pd 0)"
    and "tlb s (PGNUM PGSIZE) = None"
  shows "\<exists>s'. check_page_installed_pgdir mc s = Inr s' \<and> free_inv s' (x # z # y # rest) \<and> tlb s' = tlb s
    \<and> entry (mem s') pd 0 = 0 \<and> entry (mem s') z 0 = 0x03030303
    \<and> (\<forall>f < 65536. \<forall>i < 1024. f \<notin> {x, y, z} \<longrightarrow> \<not> (f = pd \<and> i = 0) \<longrightarrow> entry (mem s') f i = entry (mem s) f i)
    \<and> io s' = io (announced mc ''check_page_installed_pgdir() succeeded!'' s)"
proof -
  let ?t = "\<lambda>m. state_of s m (trio x y z (unused (Some z)) (unused (first_of rest)) (unused (Some y))) (Some x) (tlb s)"
  obtain m where m: "check_page_installed_pgdir mc s = Inr (announced mc ''check_page_installed_pgdir() succeeded!'' (?t m))"
    "entry m pd 0 = 0" "entry m z 0 = 0x03030303"
    "\<forall>f < 65536. \<forall>i < 1024. f \<notin> {x, y, z} \<longrightarrow> \<not> (f = pd \<and> i = 0) \<longrightarrow> entry m f i = entry (mem s) f i"
    using check_installed_run [OF assms, of mc] by blast
  moreover have "free_inv (?t m) (x # z # y # rest)"
    using first_three(5-7) [OF assms(1)] by (intro handed_back [OF assms(1)]) auto
  moreover have "io (announced mc msg (?t m)) = io (announced mc msg s)" for msg
    by (simp add: announced_def state_of_def)
  ultimately show ?thesis
    by (intro exI [of _ "announced mc ''check_page_installed_pgdir() succeeded!'' (?t m)"]) simp
qed

lemma check_installed_passes_witness:
  "\<exists>s'. check_page_installed_pgdir blank_machine (empty_space\<lparr>cr3 := page2pa 1\<rparr>) = Inr s'
    \<and> free_inv s' (2 # 4 # 3 # [5..<80]) \<and> entry (mem s') 4 0 = 0x03030303"
proof -
  let ?s = "empty_space\<lparr>cr3 := page2pa 1\<rparr>"
  have l: "[2..<80] = 2 # 3 # 4 # [5..<80]" by (simp add: upt_conv_Cons del: upt_rec_numeral)
  have "free_inv ?s (2 # 3 # 4 # [5..<80])"
    using empty_space_free unfolding l by (simp add: free_inv_def wf_pages_def del: upt_rec_numeral)
  moreover have "length (pages ?s) = 80" unfolding empty_space_def by simp
  moreover have "kern_pgdir ?s = kva 1" unfolding empty_space_def by simp
  moreover have "entry (mem ?s) f i = 0" for f i by (simp add: empty_space_def demo_def)
  moreover have "PTE_ADDR (page2pa 1) = page2pa 1" using page2pa_frame_of [of "page2pa 1"] PGNUM_page2pa [of 1] by (simp add: frame_of_def)
  moreover have "tlb ?s a = None" for a by (simp add: empty_space_def with_envs_def kstate.extend_def demo_def)
  ultimately show ?thesis
    using check_installed_passes [of ?s 2 3 4 "[5..<80]" 1 blank_machine] by (simp del: upt_rec_numeral) blast
qed

end
