(* ===== verification/Boot.thy ===== *)
theory Boot
  imports MemOps
begin

text \<open>
  The boot loader, \<^verbatim>\<open>boot/main.c\<close>, with the ELF headers of \<^verbatim>\<open>inc/elf.h\<close>: it reads the kernel
  image from the first IDE disk into memory and jumps to its entry point.

  The disk controller is a parameter. \<open>status t\<close> is the byte the \<open>t\<close>-th read of the status
  port 0x1F7 returns; \<open>disk l w\<close> is the \<open>w\<close>-th 32-bit word of sector \<open>l\<close>, where a read command
  selects the sector by the 28-bit address in the ports 0x1F3 to 0x1F6, as ATA defines it.
\<close>

section \<open>ELF headers\<close>

definition ELF_MAGIC :: u32 where "ELF_MAGIC = 0x464C457F"

record elf =
  e_magic :: u32
  e_elf :: "u8 list"
  e_type :: u16
  e_machine :: u16
  e_version :: u32
  e_entry :: u32
  e_phoff :: u32
  e_shoff :: u32
  e_flags :: u32
  e_ehsize :: u16
  e_phentsize :: u16
  e_phnum :: u16
  e_shentsize :: u16
  e_shnum :: u16
  e_shstrndx :: u16

record proghdr =
  p_type :: u32
  p_offset :: u32
  p_va :: u32
  p_pa :: u32
  p_filesz :: u32
  p_memsz :: u32
  p_flags :: u32
  p_align :: u32

text \<open>The headers as they lie in memory.\<close>

definition load16 :: "memory \<Rightarrow> u32 \<Rightarrow> u16" where
  "load16 m a = ucast (m a) OR push_bit 8 (ucast (m (a + 1)))"

definition elf_at :: "memory \<Rightarrow> u32 \<Rightarrow> elf" where
  "elf_at m a = \<lparr>e_magic = load32 m a, e_elf = map (\<lambda>i. m (a + 4 + of_nat i)) [0..<12],
     e_type = load16 m (a + 16), e_machine = load16 m (a + 18), e_version = load32 m (a + 20),
     e_entry = load32 m (a + 24), e_phoff = load32 m (a + 28), e_shoff = load32 m (a + 32),
     e_flags = load32 m (a + 36), e_ehsize = load16 m (a + 40), e_phentsize = load16 m (a + 42),
     e_phnum = load16 m (a + 44), e_shentsize = load16 m (a + 46), e_shnum = load16 m (a + 48),
     e_shstrndx = load16 m (a + 50)\<rparr>"

definition proghdr_at :: "memory \<Rightarrow> u32 \<Rightarrow> proghdr" where
  "proghdr_at m a = \<lparr>p_type = load32 m a, p_offset = load32 m (a + 4), p_va = load32 m (a + 8),
     p_pa = load32 m (a + 12), p_filesz = load32 m (a + 16), p_memsz = load32 m (a + 20),
     p_flags = load32 m (a + 24), p_align = load32 m (a + 28)\<rparr>"

definition SECTSIZE :: u32 where "SECTSIZE = 512"
definition ELFHDR :: u32 where "ELFHDR = 0x10000"

section \<open>Reading sectors\<close>

record boot_state =
  bmem :: memory
  polls :: nat
  ports :: "u16 \<Rightarrow> u8"

type_synonym controller = "nat \<Rightarrow> u8"
type_synonym disk = "u32 \<Rightarrow> nat \<Rightarrow> u32"

partial_function (option) waitdisk :: "controller \<Rightarrow> boot_state \<Rightarrow> boot_state option" where
  "waitdisk status b =
     (let st = status (polls b); b = b\<lparr>polls := polls b + 1\<rparr> in
      if st AND 0xC0 \<noteq> 0x40 then waitdisk status b else Some b)"

definition boutb :: "u16 \<Rightarrow> u8 \<Rightarrow> boot_state \<Rightarrow> boot_state" where
  "boutb port v b = b\<lparr>ports := (ports b)(port := v)\<rparr>"

text \<open>The sector the controller has been asked for.\<close>

definition lba :: "boot_state \<Rightarrow> u32" where
  "lba b = ucast (ports b 0x1F3) OR push_bit 8 (ucast (ports b 0x1F4))
     OR push_bit 16 (ucast (ports b 0x1F5)) OR push_bit 24 (ucast (ports b 0x1F6) AND 0x0F)"

text \<open>\<^verbatim>\<open>insl\<close>: \<open>cnt\<close> words from the data port to \<open>addr\<close>.\<close>

fun insl :: "(nat \<Rightarrow> u32) \<Rightarrow> u32 \<Rightarrow> nat \<Rightarrow> memory \<Rightarrow> memory" where
  "insl data addr 0 m = m"
| "insl data addr (Suc n) m = store32 (insl data addr n m) (addr + 4 * of_nat n) (data n)"

definition readsect :: "controller \<Rightarrow> disk \<Rightarrow> u32 \<Rightarrow> u32 \<Rightarrow> boot_state \<Rightarrow> boot_state option" where
  "readsect status disk dst offset b =
     Option.bind (waitdisk status b) (\<lambda>b.
     let b = boutb 0x1F2 1 b;
         b = boutb 0x1F3 (ucast offset) b;
         b = boutb 0x1F4 (ucast (drop_bit 8 offset)) b;
         b = boutb 0x1F5 (ucast (drop_bit 16 offset)) b;
         b = boutb 0x1F6 (ucast (drop_bit 24 offset OR 0xE0)) b;
         b = boutb 0x1F7 0x20 b
     in Option.bind (waitdisk status b) (\<lambda>b.
        Some (b\<lparr>bmem := insl (disk (lba b)) dst (unat (SECTSIZE div 4)) (bmem b)\<rparr>)))"

partial_function (option) readseg_loop ::
    "controller \<Rightarrow> disk \<Rightarrow> u32 \<Rightarrow> u32 \<Rightarrow> u32 \<Rightarrow> boot_state \<Rightarrow> boot_state option" where
  "readseg_loop status disk pa end_pa offset b =
     (if pa < end_pa then
        Option.bind (readsect status disk pa offset b)
          (readseg_loop status disk (pa + SECTSIZE) end_pa (offset + 1))
      else Some b)"

definition readseg :: "controller \<Rightarrow> disk \<Rightarrow> u32 \<Rightarrow> u32 \<Rightarrow> u32 \<Rightarrow> boot_state \<Rightarrow> boot_state option" where
  "readseg status disk pa count offset b =
     (let end_pa = pa + count;
          pa = pa AND NOT (SECTSIZE - 1);
          offset = offset div SECTSIZE + 1
      in readseg_loop status disk pa end_pa offset b)"

section \<open>bootmain\<close>

partial_function (option) load_segments ::
    "controller \<Rightarrow> disk \<Rightarrow> u32 \<Rightarrow> u32 \<Rightarrow> boot_state \<Rightarrow> boot_state option" where
  "load_segments status disk ph eph b =
     (if ph < eph then
        (let h = proghdr_at (bmem b) ph in
         Option.bind (readseg status disk (p_pa h) (p_memsz h) (p_offset h) b)
           (load_segments status disk (ph + 32) eph))
      else Some b)"

text \<open>How \<open>bootmain\<close> ends: in the kernel's entry point, or in the loop after \<^verbatim>\<open>bad\<close>.\<close>

datatype boot_end = Enter u32 | Spin

definition bootmain :: "controller \<Rightarrow> disk \<Rightarrow> boot_state \<Rightarrow> (boot_end \<times> boot_state) option" where
  "bootmain status disk b =
     Option.bind (readseg status disk ELFHDR (SECTSIZE * 8) 0 b) (\<lambda>b.
     let eh = elf_at (bmem b) ELFHDR in
     if e_magic eh \<noteq> ELF_MAGIC
     then let b = boutb 0x8A00 0x00 b; b = boutb 0x8A01 0x8A b;
              b = boutb 0x8A00 0x00 b; b = boutb 0x8A01 0x8E b in Some (Spin, b)
     else let ph = ELFHDR + e_phoff eh; eph = ph + 32 * ucast (e_phnum eh) in
          Option.bind (load_segments status disk ph eph b) (\<lambda>b.
          Some (Enter (e_entry (elf_at (bmem b) ELFHDR)), b)))"

end
