(* ===== verification/BootLoad.thy ===== *)
theory BootLoad
  imports Boot
begin

text \<open>
  What the boot loader leaves in memory: \<open>readseg\<close> copies the bytes of the kernel image, which
  starts at sector 1, and \<open>bootmain\<close> enters an image whose segments fit.
\<close>

section \<open>Writing a run of bytes\<close>

definition write_bytes :: "memory \<Rightarrow> u32 \<Rightarrow> nat \<Rightarrow> (nat \<Rightarrow> u8) \<Rightarrow> memory" where
  "write_bytes m d n f = (\<lambda>a. if in_range d n a then f (unat (a - d)) else m a)"

lemma write_bytes_0 [simp]: "write_bytes m d 0 f = m"
  by (simp add: write_bytes_def)

lemma write_bytes_add:
  assumes "p + q \<le> 2 ^ 32"
  shows "write_bytes (write_bytes m d p f) (d + of_nat p) q g
    = write_bytes m d (p + q) (\<lambda>i. if i < p then f i else g (i - p))"
proof (rule ext)
  fix a
  let ?x = "unat (a - d)"
  show "write_bytes (write_bytes m d p f) (d + of_nat p) q g a
    = write_bytes m d (p + q) (\<lambda>i. if i < p then f i else g (i - p)) a"
  proof (cases "p \<le> ?x \<and> ?x < p + q")
    case True
    then have p: "unat (of_nat p :: u32) = p" using u32_bound [of "a - d"] by (simp add: unat_of_nat)
    have eq: "a - (d + of_nat p) = (a - d) - of_nat p" by simp
    have "unat (a - (d + of_nat p)) = ?x - p"
      unfolding eq using True by (subst unat_sub) (simp_all add: word_le_nat_alt p)
    then show ?thesis using True in_range_shift [OF assms, of d a]
      by (simp add: write_bytes_def) (simp add: in_range_def)
  next
    case False
    then show ?thesis using in_range_shift [OF assms, of d a]
      by (simp add: write_bytes_def) (auto simp: in_range_def)
  qed
qed

lemma write_bytes_cong: "(\<And>i. i < n \<Longrightarrow> f i = g i) \<Longrightarrow> write_bytes m d n f = write_bytes m d n g"
  by (auto simp: write_bytes_def in_range_def fun_eq_iff)

lemma store32_bytes: "store32 m a v = write_bytes m a 4 (\<lambda>i. ucast (drop_bit (8 * i) v))"
proof (rule ext)
  fix x
  consider "x = a" | "x = a + 1" | "x = a + 2" | "x = a + 3" | "\<not> in_range a 4 x"
    using in_range_4 by blast
  then show "store32 m a v x = write_bytes m a 4 (\<lambda>i. ucast (drop_bit (8 * i) v)) x"
    by cases (simp_all add: store32_outside write_bytes_def in_range_def, simp_all add: store32_def)
qed

section \<open>Sectors\<close>

text \<open>Byte \<open>j\<close> of sector \<open>l\<close>, and byte \<open>i\<close> of the kernel image.\<close>

definition sector_byte :: "disk \<Rightarrow> u32 \<Rightarrow> nat \<Rightarrow> u8" where
  "sector_byte disk l j = ucast (drop_bit (8 * (j mod 4)) (disk l (j div 4)))"

definition image_byte :: "disk \<Rightarrow> nat \<Rightarrow> u8" where
  "image_byte disk i = sector_byte disk (of_nat (i div 512 + 1)) (i mod 512)"

lemma insl_bytes:
  assumes "4 * n \<le> 2 ^ 32"
  shows "insl (disk l) d n m = write_bytes m d (4 * n) (sector_byte disk l)"
  using assms
proof (induction n)
  case (Suc n)
  have "insl (disk l) d (Suc n) m = write_bytes (write_bytes m d (4 * n) (sector_byte disk l)) (d + of_nat (4 * n)) 4
      (\<lambda>i. ucast (drop_bit (8 * i) (disk l n)))"
    using Suc by (simp add: store32_bytes mult.commute)
  also have "\<dots> = write_bytes m d (4 * n + 4) (\<lambda>i. if i < 4 * n then sector_byte disk l i
      else ucast (drop_bit (8 * (i - 4 * n)) (disk l n)))"
    by (rule write_bytes_add) (use Suc.prems in simp)
  also have "\<dots> = write_bytes m d (4 * Suc n) (sector_byte disk l)"
  proof -
    have "sector_byte disk l i = ucast (drop_bit (8 * (i - 4 * n)) (disk l n))" if "i < 4 * n + 4" "\<not> i < 4 * n" for i
    proof -
      have "i = 4 * n + (i - 4 * n)" "i - 4 * n < 4" using that by linarith+
      then obtain j where "i = 4 * n + j" "j < 4" by blast
      then show ?thesis by (simp add: sector_byte_def)
    qed
    then show ?thesis unfolding mult_Suc_right add.commute [of 4] by (intro write_bytes_cong) auto
  qed
  finally show ?case .
qed simp

text \<open>A controller that is ready again and again.\<close>

definition responsive :: "controller \<Rightarrow> bool" where
  "responsive status \<longleftrightarrow> (\<forall>t. \<exists>u \<ge> t. status u AND 0xC0 = 0x40)"

lemma waitdisk_returns:
  assumes "responsive status"
  shows "\<exists>t. waitdisk status b = Some (b\<lparr>polls := t\<rparr>)"
proof -
  obtain u where u: "polls b \<le> u" "status u AND 0xC0 = 0x40" using assms by (auto simp: responsive_def)
  then show ?thesis
  proof (induction "u - polls b" arbitrary: b)
    case 0
    then show ?case by (subst waitdisk.simps) (auto simp: Let_def)
  next
    case (Suc k)
    have "\<exists>t. waitdisk status (b\<lparr>polls := polls b + 1\<rparr>) = Some (b\<lparr>polls := polls b + 1\<rparr>\<lparr>polls := t\<rparr>)"
      by (rule Suc.hyps(1)) (use Suc.hyps(2) Suc.prems in simp_all)
    then show ?case by (subst waitdisk.simps) (auto simp: Let_def)
  qed
qed

lemma lba_ports:
  "ucast (ucast off :: u8) OR push_bit 8 (ucast (ucast (drop_bit 8 off) :: u8))
     OR push_bit 16 (ucast (ucast (drop_bit 16 off) :: u8))
     OR push_bit 24 (ucast (ucast (drop_bit 24 off OR 0xE0) :: u8) AND 0x0F) = (off :: u32) AND mask 28"
proof (rule bit_word_eqI)
  fix n assume "n < LENGTH(32)"
  have f: "(0x0F :: u32) = mask 4" by (simp add: mask_eq_exp_minus_1)
  have e: "\<not> bit (0xE0 :: u32) k" if "k < 4" for k
  proof -
    have "k = 0 \<or> k = 1 \<or> k = 2 \<or> k = 3" using that by linarith
    then show ?thesis by (elim disjE) simp_all
  qed
  consider "n < 8" | "8 \<le> n" "n < 16" | "16 \<le> n" "n < 24" | "24 \<le> n" "n < 28" | "28 \<le> n" "n < 32"
    using \<open>n < LENGTH(32)\<close> by fastforce
  then show "bit (ucast (ucast off :: u8) OR push_bit 8 (ucast (ucast (drop_bit 8 off) :: u8))
     OR push_bit 16 (ucast (ucast (drop_bit 16 off) :: u8))
     OR push_bit 24 (ucast (ucast (drop_bit 24 off OR 0xE0) :: u8) AND 0x0F) :: u32) n = bit (off AND mask 28) n"
    unfolding f by cases (use e [of "n - 24"] in \<open>auto simp: bit_simps\<close>)
qed

lemma readsect_reads:
  assumes "responsive status" and "unat off < 2 ^ 28"
  shows "\<exists>b'. readsect status disk dst off b = Some b'
    \<and> bmem b' = write_bytes (bmem b) dst 512 (sector_byte disk off)"
proof -
  obtain t where t: "waitdisk status b = Some (b\<lparr>polls := t\<rparr>)" using waitdisk_returns [OF assms(1)] by blast
  let ?b = "boutb 0x1F7 0x20 (boutb 0x1F6 (ucast (drop_bit 24 off OR 0xE0)) (boutb 0x1F5 (ucast (drop_bit 16 off))
    (boutb 0x1F4 (ucast (drop_bit 8 off)) (boutb 0x1F3 (ucast off) (boutb 0x1F2 1 (b\<lparr>polls := t\<rparr>))))))"
  obtain u where u: "waitdisk status ?b = Some (?b\<lparr>polls := u\<rparr>)" using waitdisk_returns [OF assms(1)] by blast
  have "off AND mask 28 = off"
  proof (rule bit_word_eqI)
    fix n
    have "bit off n \<Longrightarrow> n < 28" using bit_less_exp [of off 28] assms(2) by (metis not_less)
    then show "bit (off AND mask 28) n = bit off n" by (auto simp: bit_simps)
  qed
  then have lba: "lba (?b\<lparr>polls := u\<rparr>) = off"
    using lba_ports [of off] by (simp add: lba_def boutb_def)
  have "readsect status disk dst off b = Some (?b\<lparr>polls := u, bmem := insl (disk off) dst 128 (bmem b)\<rparr>)"
    using t u lba by (simp add: readsect_def Let_def SECTSIZE_def) (simp add: boutb_def)
  then show ?thesis using insl_bytes [of 128 disk off dst "bmem b"] by simp
qed

section \<open>Reading a segment\<close>

text \<open>\<open>n\<close> sectors, as long as the address stays below the last sector of the address space.\<close>

lemma readseg_loop_reads:
  assumes "responsive status" and "unat off + n \<le> 2 ^ 28"
    and "unat pa + 512 * n < 2 ^ 32"
    and "n = 0 \<and> end_pa \<le> pa \<or> unat pa + 512 * (n - 1) < unat end_pa \<and> unat end_pa \<le> unat pa + 512 * n"
  shows "\<exists>b'. readseg_loop status disk pa end_pa off b = Some b'
    \<and> bmem b' = write_bytes (bmem b) pa (512 * n) (\<lambda>i. sector_byte disk (off + of_nat (i div 512)) (i mod 512))"
  using assms(2-4)
proof (induction n arbitrary: pa off b)
  case 0
  then have "\<not> pa < end_pa" by (auto simp: word_less_nat_alt word_le_nat_alt)
  then show ?case by (subst readseg_loop.simps) simp
next
  case (Suc n)
  let ?f = "\<lambda>off i. sector_byte disk (off + of_nat (i div 512)) (i mod 512)"
  have lt: "pa < end_pa" using Suc.prems(3) by (auto simp: word_less_nat_alt)
  obtain b1 where b1: "readsect status disk pa off b = Some b1" "bmem b1 = write_bytes (bmem b) pa 512 (sector_byte disk off)"
    using readsect_reads [OF assms(1), of off disk pa b] Suc.prems(1) by auto
  have pa: "unat (pa + SECTSIZE) = unat pa + 512" using Suc.prems(2) by (subst unat_less_add) (simp_all add: SECTSIZE_def)
  have off: "unat (off + 1) = unat off + 1" using Suc.prems(1) by (subst unat_less_add) simp_all
  have "\<exists>b'. readseg_loop status disk (pa + SECTSIZE) end_pa (off + 1) b1 = Some b'
      \<and> bmem b' = write_bytes (bmem b1) (pa + SECTSIZE) (512 * n) (?f (off + 1))"
    by (rule Suc.IH) (use Suc.prems pa off in \<open>auto simp: word_le_nat_alt\<close>)
  then obtain b' where b': "readseg_loop status disk (pa + SECTSIZE) end_pa (off + 1) b1 = Some b'"
    "bmem b' = write_bytes (bmem b1) (pa + SECTSIZE) (512 * n) (?f (off + 1))" by blast
  have "bmem b' = write_bytes (bmem b) pa (512 + 512 * n)
      (\<lambda>i. if i < 512 then sector_byte disk off i else ?f (off + 1) (i - 512))"
    using write_bytes_add [of 512 "512 * n" "bmem b" pa "sector_byte disk off" "?f (off + 1)"] Suc.prems(2)
    unfolding b'(2) b1(2) by (simp add: SECTSIZE_def)
  also have "\<dots> = write_bytes (bmem b) pa (512 * Suc n) (?f off)"
  proof -
    have "?f (off + 1) (i - 512) = ?f off i" if "\<not> i < 512" for i
    proof -
      have "i = 512 + (i - 512)" using that by linarith
      then obtain j where j: "i = 512 + j" by blast
      have "(512 + j) div 512 = Suc (j div 512)" by simp
      then show ?thesis by (simp add: j add.assoc)
    qed
    then show ?thesis unfolding mult_Suc_right by (intro write_bytes_cong) auto
  qed
  finally show ?case using b1(1) b'(1) lt by (subst readseg_loop.simps) simp
qed

text \<open>The sectors that hold a range of bytes.\<close>

definition sectors :: "u32 \<Rightarrow> u32 \<Rightarrow> nat" where
  "sectors pa count = (unat pa mod 512 + unat count + 511) div 512"

lemma sector_base: "unat (pa AND NOT (SECTSIZE - 1)) = unat pa div 512 * 512"
proof -
  have "SECTSIZE - 1 = mask 9" by (simp add: SECTSIZE_def mask_eq_exp_minus_1)
  then have "pa AND NOT (SECTSIZE - 1) = push_bit 9 (drop_bit 9 pa)"
    by (intro bit_word_eqI) (auto simp: bit_simps dest: bit_imp_le_length)
  moreover have "unat (drop_bit 9 pa) * 512 < 4294967296"
    using u32_bound [of pa] by (simp add: unat_drop_bit_div)
  ultimately show ?thesis by (simp add: push_bit_eq_mult unat_word_ariths unat_drop_bit_div)
qed

lemma readseg_bytes:
  assumes "responsive status" and end_: "unat pa + unat count \<le> 2 ^ 32 - 512"
    and off: "unat offset div 512 + 1 + sectors pa count \<le> 2 ^ 28"
  shows "\<exists>b'. readseg status disk pa count offset b = Some b'
    \<and> bmem b' = write_bytes (bmem b) (pa AND NOT (SECTSIZE - 1)) (512 * sectors pa count)
        (\<lambda>i. image_byte disk (unat offset div 512 * 512 + i))"
proof -
  let ?base = "pa AND NOT (SECTSIZE - 1)" and ?n = "sectors pa count"
  have base: "unat ?base = unat pa div 512 * 512" "unat ?base + unat pa mod 512 = unat pa"
    by (simp_all only: sector_base div_mult_mod_eq)
  have e: "unat (pa + count) = unat pa + unat count" using end_ by (intro unat_less_add) simp
  have o1: "unat (offset div SECTSIZE + 1) = unat offset div 512 + 1"
    using off by (subst unat_less_add) (simp_all add: SECTSIZE_def unat_div)
  have n: "512 * ?n < unat pa mod 512 + unat count + 512" "unat pa mod 512 + unat count \<le> 512 * ?n"
    unfolding sectors_def by linarith+
  have "\<exists>b'. readseg_loop status disk ?base (pa + count) (offset div SECTSIZE + 1) b = Some b'
      \<and> bmem b' = write_bytes (bmem b) ?base (512 * ?n)
          (\<lambda>i. sector_byte disk (offset div SECTSIZE + 1 + of_nat (i div 512)) (i mod 512))"
  proof (rule readseg_loop_reads [OF assms(1)])
    show "unat (offset div SECTSIZE + 1) + ?n \<le> 2 ^ 28" unfolding o1 using off by simp
    show "unat ?base + 512 * ?n < 2 ^ 32" using n(1) base(2) end_ by simp
    show "?n = 0 \<and> pa + count \<le> ?base \<or>
        unat ?base + 512 * (?n - 1) < unat (pa + count) \<and> unat (pa + count) \<le> unat ?base + 512 * ?n"
      using n base(2) unfolding e word_le_nat_alt by (cases ?n) auto
  qed
  moreover have "sector_byte disk (offset div SECTSIZE + 1 + of_nat (i div 512)) (i mod 512)
      = image_byte disk (unat offset div 512 * 512 + i)" if i: "i < 512 * ?n" for i
  proof -
    have "i div 512 < ?n" using i by (simp add: less_mult_imp_div_less mult.commute)
    then have "unat (of_nat (i div 512) :: u32) = i div 512" using off by (intro unat_of_nat_small) simp
    have "(unat offset div 512 * 512 + i) div 512 = unat offset div 512 + i div 512" by simp
    moreover have "of_nat (unat offset div 512) = offset div SECTSIZE"
      using u32_bound [of offset]
      by (simp add: word_unat_eq_iff SECTSIZE_def unat_div unat_of_nat_small [of "unat offset div 512"])
    ultimately show ?thesis by (simp add: image_byte_def add.assoc add.commute add.left_commute)
  qed
  ultimately show ?thesis unfolding readseg_def Let_def using write_bytes_cong by (metis (no_types, lifting))
qed

text \<open>What a segment needs, and what its loading promises.\<close>

abbreviation load_base :: "proghdr \<Rightarrow> nat" where "load_base h \<equiv> unat (p_pa h) div 512 * 512"
abbreviation load_end :: "proghdr \<Rightarrow> nat" where "load_end h \<equiv> load_base h + 512 * sectors (p_pa h) (p_memsz h)"

definition fits :: "proghdr \<Rightarrow> bool" where
  "fits h \<longleftrightarrow> unat (p_pa h) + unat (p_memsz h) \<le> 2 ^ 32 - 512
     \<and> unat (p_offset h) div 512 + 1 + sectors (p_pa h) (p_memsz h) \<le> 2 ^ 28
     \<and> unat (p_pa h) mod 512 = unat (p_offset h) mod 512
     \<and> (load_end h \<le> 0x10000 \<or> 0x11000 \<le> load_base h)"

definition loaded :: "disk \<Rightarrow> memory \<Rightarrow> proghdr \<Rightarrow> bool" where
  "loaded disk m h \<longleftrightarrow> (\<forall>i < unat (p_memsz h). m (p_pa h + of_nat i) = image_byte disk (unat (p_offset h) + i))"

lemma load_bounds:
  assumes "fits h"
  shows "load_base h \<le> unat (p_pa h)" "unat (p_pa h) + unat (p_memsz h) \<le> load_end h" "load_end h < 2 ^ 32"
proof -
  have "unat (p_pa h) + unat (p_memsz h) \<le> 4294966784" using assms by (simp add: fits_def)
  moreover have "load_base h + unat (p_pa h) mod 512 = unat (p_pa h)" by (simp only: div_mult_mod_eq)
  ultimately have "load_base h \<le> unat (p_pa h) \<and> unat (p_pa h) + unat (p_memsz h) \<le> load_end h \<and> load_end h < 4294967296"
    unfolding sectors_def by linarith
  then show "load_base h \<le> unat (p_pa h)" "unat (p_pa h) + unat (p_memsz h) \<le> load_end h" "load_end h < 2 ^ 32"
    by simp_all
qed

lemma segment_read:
  assumes "responsive status" and h: "fits h"
  shows "\<exists>b'. readseg status disk (p_pa h) (p_memsz h) (p_offset h) b = Some b' \<and> loaded disk (bmem b') h
    \<and> (\<forall>a. unat a < load_base h \<or> load_end h \<le> unat a \<longrightarrow> bmem b' a = bmem b a)"
proof -
  let ?base = "p_pa h AND NOT (SECTSIZE - 1)" and ?n = "sectors (p_pa h) (p_memsz h)"
  note B = load_bounds [OF h]
  have ub: "unat ?base = load_base h" by (rule sector_base)
  obtain b' where b': "readseg status disk (p_pa h) (p_memsz h) (p_offset h) b = Some b'"
    "bmem b' = write_bytes (bmem b) ?base (512 * ?n) (\<lambda>i. image_byte disk (unat (p_offset h) div 512 * 512 + i))"
    using readseg_bytes [OF assms(1), of "p_pa h" "p_memsz h" "p_offset h" disk b] h unfolding fits_def by blast
  have range: "in_range ?base (512 * ?n) a \<longleftrightarrow> load_base h \<le> unat a \<and> unat a < load_end h" for a
  proof (cases "load_base h \<le> unat a")
    case True
    then have "unat (a - ?base) = unat a - load_base h" by (simp add: unat_sub_le word_le_nat_alt ub)
    then show ?thesis using True by (auto simp: in_range_def)
  next
    case False
    then have "unat (a - ?base) = unat a + 2 ^ 32 - load_base h"
      by (subst unat_sub_if_size) (simp add: word_size word_le_nat_alt ub)
    then show ?thesis using False B(3) by (simp add: in_range_def)
  qed
  have "bmem b' (p_pa h + of_nat i) = image_byte disk (unat (p_offset h) + i)" if i: "i < unat (p_memsz h)" for i
  proof -
    let ?a = "p_pa h + of_nat i"
    have "unat (of_nat i :: u32) = i" using i u32_bound [of "p_memsz h"] by (intro unat_of_nat_small) simp
    then have a: "unat ?a = unat (p_pa h) + i" using i B by (subst unat_less_add) simp_all
    then have r: "in_range ?base (512 * ?n) ?a" using range i B by simp
    have "unat (?a - ?base) = unat ?a - load_base h" using a B(1) by (simp add: unat_sub_le word_le_nat_alt ub)
    also have "\<dots> = unat (p_pa h) mod 512 + i" unfolding a using div_mult_mod_eq [of "unat (p_pa h)" 512] by linarith
    finally have d: "unat (?a - ?base) = unat (p_offset h) mod 512 + i" using h by (simp add: fits_def)
    show ?thesis unfolding b'(2) write_bytes_def using r d by simp
  qed
  moreover have "bmem b' a = bmem b a" if "unat a < load_base h \<or> load_end h \<le> unat a" for a
    unfolding b'(2) write_bytes_def using that by (auto simp: range)
  ultimately show ?thesis using b'(1) by (auto simp: loaded_def)
qed

section \<open>The whole loader\<close>

text \<open>A later segment leaves an earlier one alone when the sectors it fills miss it.\<close>

definition misses :: "proghdr \<Rightarrow> proghdr \<Rightarrow> bool" where
  "misses h h' \<longleftrightarrow> load_end h' \<le> unat (p_pa h) \<or> unat (p_pa h) + unat (p_memsz h) \<le> load_base h'"

lemma loaded_kept:
  assumes "loaded disk m h" and "fits h" and "misses h h'"
    and "\<And>a. unat a < load_base h' \<or> load_end h' \<le> unat a \<Longrightarrow> m' a = m a"
  shows "loaded disk m' h"
  unfolding loaded_def
proof (intro allI impI)
  fix i assume i: "i < unat (p_memsz h)"
  have "unat (of_nat i :: u32) = i" using i u32_bound [of "p_memsz h"] by (intro unat_of_nat_small) simp
  then have "unat (p_pa h + of_nat i) = unat (p_pa h) + i"
    using i load_bounds [OF assms(2)] by (subst unat_less_add) simp_all
  then have "m' (p_pa h + of_nat i) = m (p_pa h + of_nat i)"
    using assms(3) i by (intro assms(4)) (auto simp: misses_def)
  then show "m' (p_pa h + of_nat i) = image_byte disk (unat (p_offset h) + i)"
    using assms(1) i by (simp add: loaded_def)
qed

text \<open>The headers lie in the page at \<open>ELFHDR\<close>, which no segment touches.\<close>

definition same_header :: "memory \<Rightarrow> memory \<Rightarrow> bool" where
  "same_header m m' \<longleftrightarrow> (\<forall>k < 4096. m' (ELFHDR + of_nat k) = m (ELFHDR + of_nat k))"

lemma unat_header: "k < 4096 \<Longrightarrow> unat (ELFHDR + of_nat k) = 0x10000 + k"
  by (subst unat_less_add) (simp_all add: ELFHDR_def unat_of_nat)

lemma same_header_load:
  assumes "same_header m m'" and "k + 4 \<le> 4096"
  shows "load32 m' (ELFHDR + of_nat k) = load32 m (ELFHDR + of_nat k)"
proof -
  have "m' (ELFHDR + of_nat k + of_nat j) = m (ELFHDR + of_nat k + of_nat j)" if "j < 4" for j
  proof -
    have "k + j < 4096" using assms(2) that by simp
    then have "m' (ELFHDR + of_nat (k + j)) = m (ELFHDR + of_nat (k + j))"
      using assms(1) unfolding same_header_def by blast
    then show ?thesis by (simp only: of_nat_add add.assoc)
  qed
  from this [of 0] this [of 1] this [of 2] this [of 3] show ?thesis
    by (intro load32_cong) simp_all
qed

lemma same_header_ph:
  assumes "same_header m m'" and "k + 32 \<le> 4096"
  shows "proghdr_at m' (ELFHDR + of_nat k) = proghdr_at m (ELFHDR + of_nat k)"
proof -
  have "load32 m' (ELFHDR + of_nat k + of_nat j) = load32 m (ELFHDR + of_nat k + of_nat j)" if "j \<le> 28" for j
    using same_header_load [OF assms(1), of "k + j"] assms(2) that by (simp add: add.assoc)
  from this [of 0] this [of 4] this [of 8] this [of 12] this [of 16] this [of 20] this [of 24] this [of 28]
  show ?thesis by (simp add: proghdr_at_def)
qed

lemma same_header_kept:
  assumes "same_header m m'" and "fits h" and "\<And>a. unat a < load_base h \<or> load_end h \<le> unat a \<Longrightarrow> m'' a = m' a"
  shows "same_header m m''"
  unfolding same_header_def
proof (intro allI impI)
  fix k :: nat assume k: "k < 4096"
  have "m'' (ELFHDR + of_nat k) = m' (ELFHDR + of_nat k)"
    using assms(2) k by (intro assms(3)) (auto simp: unat_header fits_def)
  then show "m'' (ELFHDR + of_nat k) = m (ELFHDR + of_nat k)" using assms(1) k by (simp add: same_header_def)
qed

lemma load_segments_loads:
  assumes "responsive status" and "\<forall>h \<in> set (old @ new). fits h" and "sorted_wrt misses (old @ new)"
    and "new = map (\<lambda>k. proghdr_at m (ELFHDR + of_nat (ph + 32 * k))) [0..<n]" and "ph + 32 * n \<le> 4096"
    and "same_header m (bmem b)" and "\<forall>h \<in> set old. loaded disk (bmem b) h"
  shows "\<exists>b'. load_segments status disk (ELFHDR + of_nat ph) (ELFHDR + of_nat (ph + 32 * n)) b = Some b'
    \<and> (\<forall>h \<in> set (old @ new). loaded disk (bmem b') h) \<and> same_header m (bmem b')"
  using assms(2-7)
proof (induction n arbitrary: old new ph b)
  case 0
  then show ?case by (subst load_segments.simps) simp
next
  case (Suc n)
  have u: "unat (ELFHDR + of_nat k) = 0x10000 + k" if "k \<le> 4096" for k
    using that by (subst unat_less_add) (simp_all add: ELFHDR_def unat_of_nat)
  have lt: "ELFHDR + of_nat ph < ELFHDR + of_nat (ph + 32 * Suc n)"
  proof -
    have a: "unat (ELFHDR + of_nat ph) = 0x10000 + ph"
      and b: "unat (ELFHDR + of_nat (ph + 32 * Suc n)) = 0x10000 + (ph + 32 * Suc n)"
      by (rule u, use Suc.prems(4) in simp)+
    show ?thesis unfolding word_less_nat_alt a b by simp
  qed
  let ?h = "proghdr_at m (ELFHDR + of_nat ph)"
  let ?new = "map (\<lambda>k. proghdr_at m (ELFHDR + of_nat (ph + 32 + 32 * k))) [0..<n]"
  have new: "new = ?h # ?new"
  proof -
    have "[0..<Suc n] = 0 # map Suc [0..<n]" by (simp only: map_Suc_upt upt_conv_Cons zero_less_Suc)
    then show ?thesis unfolding Suc.prems(3) by (simp add: add.assoc del: upt_Suc)
  qed
  have ph: "proghdr_at (bmem b) (ELFHDR + of_nat ph) = ?h"
    using same_header_ph [OF Suc.prems(5), of ph] Suc.prems(4) by simp
  have h: "fits ?h" using Suc.prems(1) new by simp
  obtain b1 where b1: "readseg status disk (p_pa ?h) (p_memsz ?h) (p_offset ?h) b = Some b1" "loaded disk (bmem b1) ?h"
    and keep: "\<And>a. unat a < load_base ?h \<or> load_end ?h \<le> unat a \<Longrightarrow> bmem b1 a = bmem b a"
    using segment_read [OF assms(1) h] by blast
  have old: "loaded disk (bmem b1) g" if "g \<in> set (old @ [?h])" for g
  proof (cases "g \<in> set old")
    case True
    then have "misses g ?h" "fits g" "loaded disk (bmem b) g"
      using Suc.prems(1,2,6) new by (auto simp: sorted_wrt_append)
    then show ?thesis using loaded_kept keep by blast
  qed (use that b1(2) in auto)
  have "\<exists>b'. load_segments status disk (ELFHDR + of_nat (ph + 32)) (ELFHDR + of_nat (ph + 32 + 32 * n)) b1 = Some b'
    \<and> (\<forall>h \<in> set ((old @ [?h]) @ ?new). loaded disk (bmem b') h) \<and> same_header m (bmem b')"
  proof (rule Suc.IH)
    show "same_header m (bmem b1)" using same_header_kept [OF Suc.prems(5) h keep] .
  qed (use Suc.prems(1,2,4) old new in auto)
  then show ?case
    using lt ph b1(1) new by (subst load_segments.simps) (simp add: Let_def add.assoc)
qed

text \<open>The first eight sectors of the image, where \<open>bootmain\<close> puts them.\<close>

definition header_page :: "disk \<Rightarrow> memory \<Rightarrow> memory" where
  "header_page disk m = write_bytes m ELFHDR 4096 (image_byte disk)"

definition segments :: "memory \<Rightarrow> proghdr list" where
  "segments m = (let eh = elf_at m ELFHDR in
     map (\<lambda>k. proghdr_at m (ELFHDR + of_nat (unat (e_phoff eh) + 32 * k))) [0..<unat (e_phnum eh)])"

lemma header_read:
  assumes "responsive status"
  shows "\<exists>b'. readseg status disk ELFHDR (SECTSIZE * 8) 0 b = Some b' \<and> bmem b' = header_page disk (bmem b)"
proof -
  have n: "sectors ELFHDR (SECTSIZE * 8) = 8" by (simp add: sectors_def ELFHDR_def SECTSIZE_def)
  have "unat ELFHDR + unat (SECTSIZE * 8) \<le> 2 ^ 32 - 512" by (simp add: ELFHDR_def SECTSIZE_def)
  from readseg_bytes [OF assms this, of 0 disk b] n
  show ?thesis by (simp add: header_page_def) (simp add: ELFHDR_def SECTSIZE_def)
qed

text \<open>C11: With a disk that answers, \<open>bootmain\<close> reads the first 4096 bytes of the image. If they do not
  start with the ELF magic number it ends in its idle loop with nothing else loaded, whatever
  follows. If they do, its program headers lie in these bytes, every segment fits (below the last
  sector of the address space, at an address congruent to its file offset, off the header page)
  and no segment's sectors run into an earlier segment, then it jumps to the entry point with
  every segment's bytes in place.\<close>

theorem bootmain_loads:
  fixes b :: boot_state and disk :: disk
  defines "m \<equiv> header_page disk (bmem b)"
  defines "eh \<equiv> elf_at m ELFHDR"
  assumes disk: "responsive status"
  shows "(e_magic eh \<noteq> ELF_MAGIC \<longrightarrow> (\<exists>b'. bootmain status disk b = Some (Spin, b') \<and> bmem b' = m))
    \<and> (e_magic eh = ELF_MAGIC \<longrightarrow> unat (e_phoff eh) + 32 * unat (e_phnum eh) \<le> 4096
        \<longrightarrow> (\<forall>h \<in> set (segments m). fits h) \<longrightarrow> sorted_wrt misses (segments m)
        \<longrightarrow> (\<exists>b'. bootmain status disk b = Some (Enter (e_entry eh), b') \<and> (\<forall>h \<in> set (segments m). loaded disk (bmem b') h)))"
proof (intro conjI impI)
  obtain b1 where b1: "readseg status disk ELFHDR (SECTSIZE * 8) 0 b = Some b1" "bmem b1 = m"
    using header_read [OF disk] unfolding m_def by blast
  show "\<exists>b'. bootmain status disk b = Some (Spin, b') \<and> bmem b' = m" if "e_magic eh \<noteq> ELF_MAGIC"
    using that b1 by (simp add: bootmain_def Let_def eh_def [symmetric] boutb_def)
  show "\<exists>b'. bootmain status disk b = Some (Enter (e_entry eh), b') \<and> (\<forall>h \<in> set (segments m). loaded disk (bmem b') h)"
    if magic: "e_magic eh = ELF_MAGIC" and inside: "unat (e_phoff eh) + 32 * unat (e_phnum eh) \<le> 4096"
      and segs: "\<forall>h \<in> set (segments m). fits h" "sorted_wrt misses (segments m)"
  proof -
    let ?n = "unat (e_phnum eh)" and ?off = "unat (e_phoff eh)"
    have "\<exists>b'. load_segments status disk (ELFHDR + of_nat ?off) (ELFHDR + of_nat (?off + 32 * ?n)) b1 = Some b'
        \<and> (\<forall>h \<in> set ([] @ segments m). loaded disk (bmem b') h) \<and> same_header m (bmem b')"
      by (rule load_segments_loads [OF disk])
        (use inside segs in \<open>simp_all add: segments_def eh_def same_header_def b1(2) Let_def\<close>)
    then obtain b2 where b2: "load_segments status disk (ELFHDR + of_nat ?off) (ELFHDR + of_nat (?off + 32 * ?n)) b1 = Some b2"
        "\<forall>h \<in> set (segments m). loaded disk (bmem b2) h" "same_header m (bmem b2)" by auto
    have ph: "ELFHDR + e_phoff eh = ELFHDR + of_nat ?off"
      "ELFHDR + e_phoff eh + 32 * ucast (e_phnum eh) = ELFHDR + of_nat (?off + 32 * ?n)"
      by (simp_all add: add.assoc)
    have "load32 (bmem b2) (ELFHDR + of_nat 24) = load32 m (ELFHDR + of_nat 24)"
      by (rule same_header_load [OF b2(3)]) simp
    then have entry: "e_entry (elf_at (bmem b2) ELFHDR) = e_entry eh" by (simp add: eh_def elf_at_def)
    have run: "load_segments status disk (ELFHDR + e_phoff eh) (ELFHDR + e_phoff eh + 32 * ucast (e_phnum eh)) b1 = Some b2"
      by (subst ph(2), subst ph(1), rule b2(1))
    have "bootmain status disk b = Some (Enter (e_entry eh), b2)"
      unfolding bootmain_def Let_def b1 bind.bind_lunit eh_def [symmetric] run entry using magic by simp
    then show ?thesis using b2(2) by blast
  qed
qed

text \<open>
  A disk whose second sector starts with an ELF header: entry point 0x10000C, one program
  header at offset 52, for 1024 bytes from offset 4096 to 0x100000.
\<close>

definition elf_disk :: disk where
  "elf_disk l w = (if l \<noteq> 1 then 0 else if w = 0 then ELF_MAGIC else if w = 6 then 0x10000C else if w = 7 then 52
     else if w = 11 then 1 else if w = 14 then 4096 else if w = 16 then 0x100000 else if w = 18 then 1024 else 0)"

definition elf_boot :: boot_state where
  "elf_boot = \<lparr>bmem = (\<lambda>_. 0), polls = 0, ports = (\<lambda>_. 0)\<rparr>"

lemma elf_disk_byte:
  assumes "q < 128" and j: "j < 4"
  shows "header_page elf_disk m (ELFHDR + of_nat (4 * q) + of_nat j) = ucast (drop_bit (8 * j) (elf_disk 1 q))"
proof -
  have kj: "4 * q + j < 512" "(4 * q + j) mod 4 = j" "(4 * q + j) div 4 = q" using assms by simp_all
  have u: "unat (of_nat (4 * q + j) :: u32) = 4 * q + j" using kj(1) by (intro unat_of_nat_small) simp
  show ?thesis
    unfolding header_page_def write_bytes_def in_range_def add.assoc of_nat_add [symmetric] add_diff_cancel_left' u
    using kj by (simp add: image_byte_def sector_byte_def)
qed

lemma elf_disk_word:
  assumes "q < 128"
  shows "load32 (header_page elf_disk m) (ELFHDR + of_nat (4 * q)) = elf_disk 1 q"
    "load16 (header_page elf_disk m) (ELFHDR + of_nat (4 * q)) = ucast (elf_disk 1 q)"
proof -
  note byte = elf_disk_byte [OF assms, of 0] elf_disk_byte [OF assms, of 1] elf_disk_byte [OF assms, of 2] elf_disk_byte [OF assms, of 3]
  have "load32 (header_page elf_disk m) (ELFHDR + of_nat (4 * q))
    = ucast (ucast (elf_disk 1 q) :: u8) OR push_bit 8 (ucast (ucast (drop_bit 8 (elf_disk 1 q)) :: u8))
      OR push_bit 16 (ucast (ucast (drop_bit 16 (elf_disk 1 q)) :: u8))
      OR push_bit 24 (ucast (ucast (drop_bit 24 (elf_disk 1 q)) :: u8))"
    using byte by (simp add: load32_def)
  then show "load32 (header_page elf_disk m) (ELFHDR + of_nat (4 * q)) = elf_disk 1 q" by (simp only: bytes_of_word)
  have "load16 (header_page elf_disk m) (ELFHDR + of_nat (4 * q))
    = ucast (ucast (elf_disk 1 q) :: u8) OR push_bit 8 (ucast (ucast (drop_bit 8 (elf_disk 1 q)) :: u8))"
    using byte by (simp add: load16_def)
  also have "\<dots> = ucast (elf_disk 1 q)"
    by (rule bit_word_eqI) (auto simp: bit_simps)
  finally show "load16 (header_page elf_disk m) (ELFHDR + of_nat (4 * q)) = ucast (elf_disk 1 q)" .
qed

lemma bootmain_loads_witness:
  "\<exists>b'. bootmain (\<lambda>_. 0x40) elf_disk elf_boot = Some (Enter 0x10000C, b')
    \<and> (\<forall>i < 1024. bmem b' (0x100000 + of_nat i) = image_byte elf_disk (4096 + i))
    \<and> (\<exists>b'. bootmain (\<lambda>_. 0x40) (\<lambda>l w. if l = 1 then 7 else elf_disk 1 w) elf_boot = Some (Spin, b'))"
proof -
  let ?m = "header_page elf_disk (bmem elf_boot)" and ?bad = "\<lambda>l w. if l = 1 then 7 else elf_disk 1 w"
  note word = elf_disk_word [of _ "bmem elf_boot"]
  have eh: "e_magic (elf_at ?m ELFHDR) = ELF_MAGIC" "e_entry (elf_at ?m ELFHDR) = 0x10000C"
    "e_phoff (elf_at ?m ELFHDR) = 52" "e_phnum (elf_at ?m ELFHDR) = 1"
    using word(1) [of 0] word(1) [of 6] word(1) [of 7] word(2) [of 11] by (simp_all add: elf_at_def elf_disk_def)
  let ?h = "\<lparr>p_type = 0, p_offset = 4096, p_va = 0, p_pa = 0x100000, p_filesz = 0, p_memsz = 1024, p_flags = 0, p_align = 0\<rparr>"
  have "proghdr_at ?m (ELFHDR + 52) = ?h"
    using word(1) [of 13] word(1) [of 14] word(1) [of 15] word(1) [of 16] word(1) [of 17] word(1) [of 18]
      word(1) [of 19] word(1) [of 20] by (simp add: proghdr_at_def elf_disk_def add.assoc)
  then have segs: "segments ?m = [?h]" by (simp add: segments_def eh Let_def)
  have "fits ?h" by (simp add: fits_def sectors_def)
  moreover have resp: "responsive (\<lambda>_. 0x40)" by (auto simp: responsive_def)
  ultimately have "\<exists>b'. bootmain (\<lambda>_. 0x40) elf_disk elf_boot = Some (Enter 0x10000C, b') \<and> loaded elf_disk (bmem b') ?h"
    using bootmain_loads [of "\<lambda>_. 0x40" elf_disk elf_boot] by (simp add: segs eh)
  moreover have "\<exists>b'. bootmain (\<lambda>_. 0x40) ?bad elf_boot = Some (Spin, b')"
  proof -
    have "e_magic (elf_at (header_page ?bad (bmem elf_boot)) ELFHDR) \<noteq> ELF_MAGIC"
      by (simp add: elf_at_def load32_def header_page_def write_bytes_def in_range_def image_byte_def sector_byte_def ELF_MAGIC_def)
    then show ?thesis using bootmain_loads [OF resp, of ?bad elf_boot] by blast
  qed
  ultimately show ?thesis by (simp add: loaded_def)
qed

section \<open>The end of the address space\<close>

text \<open>
  In the last 512 bytes of the address space the loop of \<open>readseg\<close> cannot end: the sector
  address wraps to zero and is below the end again.
\<close>

lemma readseg_loop_endless:
  assumes "unat pa mod 512 = 0" and "2 ^ 32 - 512 < unat end_pa"
  shows "readseg_loop status disk pa end_pa off b = None"
proof -
  have "readseg_loop status disk pa end_pa off b = Some b' \<Longrightarrow> unat pa mod 512 = 0 \<Longrightarrow> 2 ^ 32 - 512 < unat end_pa
      \<Longrightarrow> False" for b'
  proof (induction rule: readseg_loop.raw_induct [rotated 1, consumes 1, case_names step])
    case (step loop status disk pa end_pa off b b')
    obtain q where q: "unat pa = q * 512" using step(3) by (metis div_mult_mod_eq add.right_neutral)
    then have "unat pa \<le> 2 ^ 32 - 512" using u32_bound [of pa] by simp
    then have lt: "pa < end_pa" using step(4) by (simp add: word_less_nat_alt)
    then obtain b1 where rest: "loop status disk (pa + SECTSIZE) end_pa (off + 1) b1 = Some b'"
      using step(2) by (auto simp: bind_eq_Some_conv)
    have "unat (pa + SECTSIZE) mod 512 = 0"
      by (simp add: unat_word_ariths SECTSIZE_def q mod_mod_cancel)
    then show False using step(1) [OF rest _ step(4)] by simp
  qed
  then show ?thesis using assms by (cases "readseg_loop status disk pa end_pa off b") auto
qed

text \<open>C34: \<open>readseg\<close> of a range that ends within the last 511 bytes of the address space never returns,
  whatever the disk answers; up to there it does return.\<close>

theorem readseg_last_sector:
  assumes "unat pa + unat count < 2 ^ 32" and "responsive status"
    and "unat offset div 512 + 1 + sectors pa count \<le> 2 ^ 28"
  shows "(\<exists>b'. readseg status disk pa count offset b = Some b') \<longleftrightarrow> unat pa + unat count \<le> 2 ^ 32 - 512"
proof (cases "unat pa + unat count \<le> 2 ^ 32 - 512")
  case True
  then show ?thesis using readseg_bytes [OF assms(2) True assms(3), of disk b] by blast
next
  case False
  have "unat (pa + count) = unat pa + unat count" using assms(1) by (intro unat_less_add) simp
  then have "2 ^ 32 - 512 < unat (pa + count)" using False by simp
  moreover have "unat (pa AND NOT (SECTSIZE - 1)) mod 512 = 0" unfolding sector_base by simp
  ultimately have "readseg status disk pa count offset b = None"
    unfolding readseg_def Let_def by (intro readseg_loop_endless)
  then show ?thesis using False by simp
qed

lemma readseg_last_sector_witness:
  "\<not> (\<exists>b'. readseg (\<lambda>_. 0x40) elf_disk 0xFFFFF000 4095 0 elf_boot = Some b')"
proof -
  have "responsive (\<lambda>_. 0x40)" by (auto simp: responsive_def)
  then show ?thesis
    using readseg_last_sector [of "0xFFFFF000" 4095 "\<lambda>_. 0x40" 0 elf_disk elf_boot] by (simp add: sectors_def)
qed

end
