(* ===== verification/Spec2Isabelle.thy ===== *)
theory Spec2Isabelle
  imports EntryPgdir UserFaults ConsoleType Init InstalledTest BootLoad
begin

text \<open>
  A model of the JOS kernel as this repository has it (the labs on booting and memory management
  done, the lab on user environments begun), with the theorems that say what its parts do.

  \<^bold>\<open>The parts of the program.\<close> \<^verbatim>\<open>boot/main.c\<close> loads the kernel image and enters it on the
  start-up page tables of \<^verbatim>\<open>kern/entrypgdir.c\<close>. \<^verbatim>\<open>kern/init.c\<close> clears the BSS, starts the
  console (\<^verbatim>\<open>kern/console.c\<close>), greets, and calls \<open>mem_init\<close> of \<^verbatim>\<open>kern/pmap.c\<close>, which sizes
  memory through the CMOS clock (\<^verbatim>\<open>kern/kclock.c\<close>), builds the page array and the kernel's
  address space and tests itself; then come the environments (\<^verbatim>\<open>kern/env.c\<close>), traps and system
  calls (\<^verbatim>\<open>kern/trap.c\<close>, \<^verbatim>\<open>kern/syscall.c\<close>). A panic ends in the monitor (\<^verbatim>\<open>kern/monitor.c\<close>),
  which reads lines (\<^verbatim>\<open>lib/readline.c\<close>), prints (\<^verbatim>\<open>kern/printf.c\<close> on \<^verbatim>\<open>lib/printfmt.c\<close>) and
  looks addresses up in the debugging information (\<^verbatim>\<open>kern/kdebug.c\<close>). User programs link
  \<^verbatim>\<open>lib/\<close>. Everything uses the string routines of \<^verbatim>\<open>lib/string.c\<close>.

  \<^bold>\<open>The theories\<close>, in the order of their imports:

  \<^item> \<open>Prelude\<close>: words, characters, the error monad \<open>kerr + 'a\<close> (\<open>Panic\<close> with the message's
    format, \<open>Fault\<close> at an address, \<open>Stray\<close> outside an array, \<open>Endless\<close> for a loop that does not
    end), byte memory with 32-bit loads and stores.
  \<^item> \<open>Mmu\<close>: \<^verbatim>\<open>inc/mmu.h\<close>, \<^verbatim>\<open>inc/memlayout.h\<close>, \<^verbatim>\<open>inc/types.h\<close>: splitting addresses, page table
    entries, segment and gate descriptors, the layout.
  \<^item> \<open>MemOps\<close>, \<open>Strings\<close>: \<^verbatim>\<open>lib/string.c\<close> over a byte memory; the assembly and the portable
    variants against a reference copy and fill, and what \<open>strtol\<close> parses.
  \<^item> \<open>Printf\<close>, \<open>CPrintf\<close>: \<open>vprintfmt\<close> and its callers against a description of formats as
    lists of items; \<open>vsnprintf\<close> within its buffer; kernel \<open>cprintf\<close> and \<open>readline\<close>.
  \<^item> \<open>Console\<close>: serial port, parallel port, display, keyboard and input buffer over a device, a
    function from port and number of reads to the byte read. \<open>ConsoleType\<close>: the ranges the
    console's fields keep under all of its operations.
  \<^item> \<open>Kernel\<close>, \<open>PageAlloc\<close>: the state of \<^verbatim>\<open>kern/pmap.c\<close> (a record that later theories extend),
    the boot allocator, the page array and its free list. The locale \<open>page_allocator\<close> states
    what users of the allocator rely on, and is interpreted on \<open>page_alloc\<close> and \<open>page_free\<close>.
  \<^item> \<open>PageTable\<close>, \<open>AddressSpace\<close>, \<open>VmOps\<close>: page tables as the code has them in raw memory;
    their meaning \<open>pte_at\<close>; the invariants \<open>wf_pd\<close> (tables are frames of their own) and
    \<open>vm_inv\<close> (reference counts are exact); each operation's effect on the mapping, on the counts
    and on the TLB.
  \<^item> \<open>EntryPgdir\<close>: the start-up tables and what they map.
  \<^item> \<open>User\<close>: \<^verbatim>\<open>lib/\<close> on the user side, over a parameter \<open>trap\<close> for the kernel's answer. What is
    proved of printing assumes \<open>prints_bytes\<close>, the documented behaviour of \<open>sys_cputs\<close>.
  \<^item> \<open>Programs\<close>: the test programs of \<^verbatim>\<open>user/\<close>, which run to an end or stop at an exception;
    what \<open>hello\<close> and \<open>testbss\<close> print, store and stop at under that assumption. \<open>UserFaults\<close>: the
    programs that provoke an exception, on the descriptor tables \<open>trap_init\<close> loads.
  \<^item> \<open>Kdebug\<close>, \<open>Trapframe\<close>, \<open>Monitor\<close>: stabs, printing of trap frames, the command line.
  \<^item> \<open>Env\<close>, \<open>EnvFree\<close>, \<open>EnvTable\<close>: the environment table; tearing an address space down;
    identifiers as the keys of a finite map (locale \<open>handle_table\<close>).
    An identifier's life over any sequence of allocations and frees, up to the wrap of its
    generation.
  \<^item> \<open>Trap\<close>: descriptor tables, the trap path, the kernel side of system calls. What ends in the
    monitor loop (\<open>env_destroy\<close>, \<open>trap\<close>, \<open>page_fault_handler\<close>) is an instance of a function over
    a parameter \<open>mon\<close> in the place of that loop, so that theorems can name the state it is entered in.
  \<^item> \<open>MemInit\<close>: \<open>mem_init\<close> and its five checks, assertion by assertion. \<open>SelfTest\<close>,
    \<open>PageTest\<close>, \<open>InstalledTest\<close>: the checks pass on every well-formed state, and what they
    change. \<open>KernelMap\<close>: the kernel's address space. \<open>MemBoot\<close>: all of \<open>mem_init\<close> from a
    cold start, which ends in a panic because the environment array is missing.
  \<^item> \<open>Init\<close>: \<open>i386_init\<close>, \<open>_panic\<close>, \<open>_warn\<close>, what the start of the kernel does and where it ends.
  \<^item> \<open>Boot\<close>, \<open>BootLoad\<close>: the boot loader over a disk controller.

  \<^bold>\<open>How state corresponds.\<close> Physical memory is a function from 32-bit addresses to bytes; the
  kernel sees it at \<open>KERNBASE\<close> and above. A \<^verbatim>\<open>struct PageInfo *\<close> or \<^verbatim>\<open>struct Env *\<close> is an
  index, the null pointer \<open>None\<close>; the arrays are lists kept beside memory. Machine integers are
  words of their width. What the kernel prints goes through \<open>print\<close> to the console's device
  writes; the strings it prints lie in \<open>kmem\<close>, the memory the console code reads.

  \<^bold>\<open>Idealisations.\<close> Kernel code may access all of memory at and above \<open>KERNBASE\<close>, as under
  \<open>kern_pgdir\<close>; before \<open>mem_init\<close> loads that directory the machine has only the 4MB of
  \<open>entry_pgdir\<close> there, so the theorems on \<open>mem_init\<close> and \<open>i386_init\<close> are about boards whose image
  and boot-time structures fit in them. Reads of \<open>kmem\<close> are total: where the code follows a
  pointer from user space unchecked (\<open>debuginfo_eip\<close> for a user address, \<open>sys_cputs\<close>), the machine faults on
  an unmapped address and the model reads a byte. The system call interface that printing from user mode
  assumes is the documented one. The repository's own kernel does not provide it: \<open>trap_init\<close>
  leaves the interrupt table empty and \<open>syscall\<close> panics (\<open>UserFaults\<close>, \<open>Trap\<close>).

  \<^bold>\<open>Loops.\<close> Recursion is structural or has its termination proved. Loops that may not end
  (waiting for a device, walking a list, the monitor) are partial functions with result
  \<open>None\<close>, so that a theorem that something returns says so. There is no fuel.

  \<^bold>\<open>Not modelled.\<close> The assembly files; \<^verbatim>\<open>user/sendpage.c\<close>, which needs system calls the kernel
  does not have; \<^verbatim>\<open>fs/test.c\<close>, which needs code the repository does not have; the instruction
  wrappers of \<^verbatim>\<open>inc/x86.h\<close> that no code calls; generated files under \<^verbatim>\<open>obj/\<close>. Instruction
  timing, interrupts during kernel code (it runs with interrupts off) and segmentation faults
  outside the accesses modelled are left out.
\<close>

end
